(* ===== verification/Prelude.thy ===== *)
theory Prelude
  imports Main "HOL-Library.Word" "HOL-Library.Sublist"
begin

unbundle bit_operations_syntax

text \<open>
  Shared ground of the development: the names of the program's basic types, its exceptions as
  values, the part of the C++ string library the sources use (searching, bytes, decimal numbers),
  and the generic lemmas on lists and prefixes that the component theories share.

  A \<open>std::string\<close> is a sequence of bytes, and so is an Isabelle \<open>string\<close>: a \<open>char\<close> is a value of
  eight bits. Nothing here decodes characters.
\<close>

section \<open>Names\<close>

type_synonym bytes = string
type_synonym u8 = "8 word"
type_synonym token = int

text \<open>
  Facts collected by what they are for: \<open>arg_simps\<close> rewrites the reading of a command-line argument
  by the word it is.
\<close>

named_theorems arg_simps

section \<open>Exceptions\<close>

text \<open>
  Everything the sources throw derives from \<open>std::exception\<close>; the handlers tell apart
  \<open>EngineError\<close>, \<open>ChatFormatError\<close>, other exceptions that carry a message, and things thrown that
  are no \<open>std::exception\<close> at all. A computation that may throw has type \<open>exn + 'a\<close>.
\<close>

datatype exn =
    EngineError string
  | ChatFormatError string
  | StdException string
  | OtherException

text \<open>\<open>e.what()\<close>, where there is one.\<close>

fun exn_what :: "exn \<Rightarrow> string option" where
  "exn_what (EngineError m) = Some m"
| "exn_what (ChatFormatError m) = Some m"
| "exn_what (StdException m) = Some m"
| "exn_what OtherException = None"

fun is_ok :: "'e + 'a \<Rightarrow> bool" where
  "is_ok (Inl _) = False"
| "is_ok (Inr _) = True"

lemma is_ok_iff: "is_ok r \<longleftrightarrow> (\<exists>x. r = Inr x)"
  by (cases r) auto

text \<open>A loop that converts every element of a vector and stops at the first exception.\<close>

fun map_result :: "('a \<Rightarrow> 'e + 'b) \<Rightarrow> 'a list \<Rightarrow> 'e + 'b list" where
  "map_result f [] = Inr []"
| "map_result f (x # xs) =
     (case f x of
        Inl e \<Rightarrow> Inl e
      | Inr y \<Rightarrow> (case map_result f xs of Inl e \<Rightarrow> Inl e | Inr ys \<Rightarrow> Inr (y # ys)))"

lemma map_result_Inr_iff:
  "map_result f xs = Inr ys \<longleftrightarrow> list_all2 (\<lambda>x y. f x = Inr y) xs ys"
proof (induction xs arbitrary: ys)
  case Nil
  then show ?case by auto
next
  case (Cons x xs)
  show ?case
    by (auto simp: list_all2_Cons1 Cons.IH [symmetric] split: sum.splits)
qed

lemma map_result_Inl_first:
  "map_result f xs = Inl e \<Longrightarrow>
     \<exists>us x vs. xs = us @ x # vs \<and> f x = Inl e \<and> (\<forall>u\<in>set us. is_ok (f u))"
proof (induction xs)
  case Nil
  then show ?case by simp
next
  case (Cons x xs)
  show ?case
  proof (cases "f x")
    case (Inl e')
    with Cons.prems show ?thesis by (intro exI [of _ "[]"]) auto
  next
    case (Inr y)
    with Cons.prems have "map_result f xs = Inl e" by (auto split: sum.splits)
    then obtain us z vs where
      "xs = us @ z # vs" "f z = Inl e" "\<forall>u\<in>set us. is_ok (f u)"
      using Cons.IH by blast
    with Inr show ?thesis
      by (intro exI [of _ "x # us"]) auto
  qed
qed

lemma map_result_pure [simp]: "map_result (\<lambda>x. Inr (g x)) xs = Inr (map g xs)"
  by (induction xs) auto

section \<open>Lists\<close>

lemma take_prefix: "prefix l c \<Longrightarrow> k \<le> length l \<Longrightarrow> take k c = take k l"
  by (auto simp: prefix_def)

text \<open>\<open>vector::resize(n)\<close>: cut, or padded with \<open>x\<close>.\<close>

definition resize :: "nat \<Rightarrow> 'a \<Rightarrow> 'a list \<Rightarrow> 'a list" where
  "resize n x xs = take n xs @ replicate (n - length xs) x"

lemma length_resize [simp]: "length (resize n x xs) = n"
  by (simp add: resize_def)

lemma resize_append [simp]: "resize (length xs) x (xs @ ys) = xs"
  by (simp add: resize_def)

section \<open>Bytes\<close>

text \<open>\<open>static_cast<unsigned char>(c)\<close>.\<close>

definition byte :: "char \<Rightarrow> u8" where
  "byte c = of_char c"

text \<open>\<open>std::isspace\<close> in the \<open>C\<close> locale.\<close>

definition isspace :: "char \<Rightarrow> bool" where
  "isspace c \<longleftrightarrow> c \<in> {CHR '' '', CHR 0x09, CHR 0x0A, CHR 0x0B, CHR 0x0C, CHR 0x0D}"

text \<open>What C code reads of \<open>s.c_str()\<close>: up to the first NUL byte.\<close>

definition c_str :: "bytes \<Rightarrow> bytes" where
  "c_str s = takeWhile (\<lambda>c. c \<noteq> CHR 0x00) s"

text \<open>A name between single quotes, as the messages print it.\<close>

definition quoted :: "bytes \<Rightarrow> bytes" where
  "quoted s = CHR 0x27 # s @ [CHR 0x27]"

section \<open>Decimal numbers\<close>

text \<open>\<open>std::to_string\<close> of an integer.\<close>

definition digit :: "nat \<Rightarrow> char" where
  "digit d = char_of (48 + d)"

fun dec_nat :: "nat \<Rightarrow> bytes" where
  "dec_nat n = (if n < 10 then [digit n] else dec_nat (n div 10) @ [digit (n mod 10)])"

declare dec_nat.simps [simp del]

definition dec_int :: "int \<Rightarrow> bytes" where
  "dec_int i = (if i < 0 then CHR ''-'' # dec_nat (nat (- i)) else dec_nat (nat i))"

text \<open>Reading the digits back.\<close>

definition is_digit :: "char \<Rightarrow> bool" where
  "is_digit c \<longleftrightarrow> 48 \<le> (of_char c :: nat) \<and> (of_char c :: nat) \<le> 57"

definition dec_value :: "bytes \<Rightarrow> nat" where
  "dec_value ds = foldl (\<lambda>n c. 10 * n + (of_char c - 48)) 0 ds"

lemma of_char_digit [simp]: "d < 10 \<Longrightarrow> (of_char (digit d) :: nat) = 48 + d"
  by (simp add: digit_def)

lemma is_digit_digit [simp]: "d < 10 \<Longrightarrow> is_digit (digit d)"
  by (simp add: is_digit_def)

lemma dec_value_snoc [simp]: "dec_value (ds @ [c]) = 10 * dec_value ds + (of_char c - 48)"
  by (simp add: dec_value_def)

lemma dec_nat_not_Nil [simp]: "dec_nat n \<noteq> []"
  by (subst dec_nat.simps) simp

lemma dec_nat_digits: "\<forall>c\<in>set (dec_nat n). is_digit c"
proof (induction n rule: dec_nat.induct)
  case (1 n)
  then show ?case by (subst dec_nat.simps) auto
qed

lemma dec_value_dec_nat [simp]: "dec_value (dec_nat n) = n"
proof (induction n rule: dec_nat.induct)
  case (1 n)
  show ?case
  proof (cases "n < 10")
    case True
    then show ?thesis by (subst dec_nat.simps) (simp add: dec_value_def)
  next
    case False
    with 1 show ?thesis by (subst dec_nat.simps) simp
  qed
qed

lemma minus_not_digit [simp]: "\<not> is_digit (CHR ''-'')"
  by (simp add: is_digit_def)

section \<open>Searching a string\<close>

text \<open>
  \<open>hay.find(needle)\<close>: the first position at which the needle occurs, \<open>None\<close> for
  \<open>std::string::npos\<close>. An empty needle is found at 0.
\<close>

fun str_find :: "'a list \<Rightarrow> 'a list \<Rightarrow> nat option" where
  "str_find [] needle = (if needle = [] then Some 0 else None)"
| "str_find (c # cs) needle =
     (if prefix needle (c # cs) then Some 0 else map_option Suc (str_find cs needle))"

text \<open>\<open>needle\<close> occurs in \<open>hay\<close> at position \<open>p\<close>.\<close>

definition occurs_at :: "'a list \<Rightarrow> 'a list \<Rightarrow> nat \<Rightarrow> bool" where
  "occurs_at hay needle p \<longleftrightarrow> p \<le> length hay \<and> prefix needle (drop p hay)"

lemma occurs_at_0 [simp]: "occurs_at hay needle 0 \<longleftrightarrow> prefix needle hay"
  by (simp add: occurs_at_def)

lemma occurs_at_Suc [simp]:
  "occurs_at (c # cs) needle (Suc p) \<longleftrightarrow> occurs_at cs needle p"
  by (simp add: occurs_at_def)

lemma occurs_at_Nil [simp]: "occurs_at [] needle p \<longleftrightarrow> p = 0 \<and> needle = []"
  by (auto simp: occurs_at_def)

lemma str_find_Some_iff:
  "str_find hay needle = Some p \<longleftrightarrow>
     occurs_at hay needle p \<and> (\<forall>q<p. \<not> occurs_at hay needle q)"
proof (induction hay needle arbitrary: p rule: str_find.induct)
  case (1 needle)
  then show ?case by auto
next
  case (2 c cs needle)
  show ?case
  proof (cases "prefix needle (c # cs)")
    case True
    then show ?thesis by (auto simp: gr0_conv_Suc)
  next
    case False
    with "2.IH" show ?thesis
      by (cases p) (auto simp: less_Suc_eq_0_disj)
  qed
qed

lemma str_find_None_iff: "str_find hay needle = None \<longleftrightarrow> (\<forall>p. \<not> occurs_at hay needle p)"
proof (induction hay needle rule: str_find.induct)
  case (1 needle)
  then show ?case by auto
next
  case (2 c cs needle)
  have "(\<forall>p. \<not> occurs_at (c # cs) needle p) \<longleftrightarrow>
      \<not> prefix needle (c # cs) \<and> (\<forall>p. \<not> occurs_at cs needle p)"
    by (metis occurs_at_0 occurs_at_Suc not0_implies_Suc)
  with 2 show ?case by auto
qed

end
