(* ===== verification/Utf8.thy ===== *)
theory Utf8
  imports Prelude
begin

text \<open>
  The byte scanner \<open>incomplete_utf8_tail\<close> of src/engine.cpp, which says how many trailing bytes of a
  buffer are an unfinished UTF-8 sequence, and what it is measured against: a closed form of the
  scan (\<open>open_tail\<close>), and the well-formed byte sequences of RFC 3629 (\<open>utf8_char\<close>, \<open>utf8_text\<close>).
\<close>

section \<open>The scanner\<close>

text \<open>\<open>(c & 0xC0) == 0x80\<close>\<close>

definition is_cont :: "char \<Rightarrow> bool" where
  "is_cont c \<longleftrightarrow> byte c AND 0xC0 = 0x80"

text \<open>The \<open>need\<close> cascade; \<open>None\<close> is the branch that returns 0 for an invalid lead byte.\<close>

definition lead_need :: "char \<Rightarrow> nat option" where
  "lead_need c =
     (if byte c AND 0x80 = 0x00 then Some 1
      else if byte c AND 0xE0 = 0xC0 then Some 2
      else if byte c AND 0xF0 = 0xE0 then Some 3
      else if byte c AND 0xF8 = 0xF0 then Some 4
      else None)"

text \<open>The loop \<open>for (k = 1; k <= max_look; ++k)\<close>, entered at \<open>k\<close>.\<close>

function utf8_scan :: "bytes \<Rightarrow> nat \<Rightarrow> nat \<Rightarrow> nat" where
  "utf8_scan s k max_look =
     (if k \<le> max_look then
        (let c = s ! (length s - k) in
         if is_cont c then utf8_scan s (Suc k) max_look
         else (case lead_need c of
                 None \<Rightarrow> 0
               | Some need \<Rightarrow> if k < need then k else 0))
      else 0)"
  by pat_completeness auto
termination
  by (relation "measure (\<lambda>(s, k, m). Suc m - k)") auto

declare utf8_scan.simps [simp del]

definition incomplete_utf8_tail :: "bytes \<Rightarrow> nat" where
  "incomplete_utf8_tail s = utf8_scan s 1 (min (length s) 4)"

section \<open>Byte ranges\<close>

text \<open>The masks of the scanner, read as ranges of the byte's value.\<close>

lemma unat_u8_bound: "unat (w :: 8 word) < 256"
  using unsigned_less [of w] by simp
lemma u8_and_high: "w AND NOT (mask k) = push_bit k (drop_bit k w)" for w :: "8 word"
  by (rule bit_word_eqI) (auto simp: bit_simps)
lemma unat_u8_and_high: "unat (w AND NOT (mask k)) = unat w div 2 ^ k * 2 ^ k" for w :: "8 word"
proof -
  have "unat w div 2 ^ k * 2 ^ k \<le> unat w" by simp
  then have b: "unat w div 2 ^ k * 2 ^ k < 256" using unat_u8_bound [of w] by linarith
  have "unat (w AND NOT (mask k)) = take_bit 8 (push_bit k (drop_bit k (unat w)))"
    by (simp only: u8_and_high unsigned_push_bit_eq unsigned_drop_bit_eq)
      (simp add: take_bit_nat_eq_self unat_u8_bound)
  with b show ?thesis
    by (simp add: push_bit_eq_mult drop_bit_eq_div take_bit_eq_mod)
qed
lemma div_mult_eq_iff:
  fixes n d q :: nat
  assumes "0 < d"
  shows "n div d * d = q * d \<longleftrightarrow> q * d \<le> n \<and> n < Suc q * d"
proof
  assume *: "n div d * d = q * d"
  then have "n div d = q" using assms by simp
  with assms show "q * d \<le> n \<and> n < Suc q * d"
    using div_times_less_eq_dividend [of n d] dividend_less_div_times [of d n] by simp
next
  assume "q * d \<le> n \<and> n < Suc q * d"
  then have "n div d = q" by (intro div_nat_eqI) (simp_all add: mult.commute)
  then show "n div d * d = q * d" by simp
qed
lemma u8_and_eq_iff:
  fixes w m v :: "8 word"
  assumes "m = NOT (mask k)" "unat v = q * 2 ^ k"
  shows "(w AND m = v) \<longleftrightarrow> q * 2 ^ k \<le> unat w \<and> unat w < Suc q * 2 ^ k"
  unfolding assms(1) word_unat_eq_iff unat_u8_and_high assms(2) 
  by (rule div_mult_eq_iff) simp

abbreviation bval :: "char \<Rightarrow> nat" where
  "bval c \<equiv> unat (byte c)"

lemma is_cont_iff: "is_cont c \<longleftrightarrow> 0x80 \<le> bval c \<and> bval c < 0xC0"
  unfolding is_cont_def
  by (subst u8_and_eq_iff [where k = 6 and q = 2]) (simp_all add: mask_eq_exp_minus_1)

lemma lead_need_iff:
  "lead_need c =
     (if bval c < 0x80 then Some 1
      else if 0xC0 \<le> bval c \<and> bval c < 0xE0 then Some 2
      else if 0xE0 \<le> bval c \<and> bval c < 0xF0 then Some 3
      else if 0xF0 \<le> bval c \<and> bval c < 0xF8 then Some 4
      else None)"
proof -
  have "(byte c AND 0x80 = 0x00) = (bval c < 0x80)"
    by (subst u8_and_eq_iff [where k = 7 and q = 0]) (simp_all add: mask_eq_exp_minus_1)
  moreover have "(byte c AND 0xE0 = 0xC0) = (0xC0 \<le> bval c \<and> bval c < 0xE0)"
    by (subst u8_and_eq_iff [where k = 5 and q = 6]) (simp_all add: mask_eq_exp_minus_1)
  moreover have "(byte c AND 0xF0 = 0xE0) = (0xE0 \<le> bval c \<and> bval c < 0xF0)"
    by (subst u8_and_eq_iff [where k = 4 and q = 14]) (simp_all add: mask_eq_exp_minus_1)
  moreover have "(byte c AND 0xF8 = 0xF0) = (0xF0 \<le> bval c \<and> bval c < 0xF8)"
    by (subst u8_and_eq_iff [where k = 3 and q = 30]) (simp_all add: mask_eq_exp_minus_1)
  ultimately show ?thesis by (simp add: lead_need_def)
qed

lemma lead_need_le_4: "lead_need c = Some n \<Longrightarrow> 1 \<le> n \<and> n \<le> 4"
  by (auto simp: lead_need_def split: if_splits)

section \<open>Its closed form\<close>

text \<open>
  With \<open>j\<close> continuation bytes at the end, the sequence is unfinished exactly when the byte before
  them is a lead byte that announces more than \<open>j + 1\<close> bytes.
\<close>

definition trailing_conts :: "bytes \<Rightarrow> nat" where
  "trailing_conts s = length (takeWhile is_cont (rev s))"

definition open_tail :: "bytes \<Rightarrow> nat" where
  "open_tail s =
     (let j = trailing_conts s in
      if j < length s then
        (case lead_need (rev s ! j) of
           None \<Rightarrow> 0
         | Some need \<Rightarrow> if Suc j < need then Suc j else 0)
      else 0)"

lemma trailing_conts_le: "trailing_conts s \<le> length s"
  by (metis trailing_conts_def length_rev length_takeWhile_le)

lemma trailing_conts_eqI:
  assumes "j < length s" "\<forall>i<j. is_cont (rev s ! i)" "\<not> is_cont (rev s ! j)"
  shows "trailing_conts s = j"
proof (rule antisym)
  show "j \<le> trailing_conts s"
    unfolding trailing_conts_def using assms by (intro length_takeWhile_less_P_nth) auto
  show "trailing_conts s \<le> j"
    using assms(3) takeWhile_nth [of j is_cont "rev s"] set_takeWhileD
    by (metis nth_mem not_le trailing_conts_def)
qed

lemma trailing_conts_ge:
  "j \<le> length s \<Longrightarrow> \<forall>i<j. is_cont (rev s ! i) \<Longrightarrow> j \<le> trailing_conts s"
  unfolding trailing_conts_def by (intro length_takeWhile_less_P_nth) auto

lemma utf8_scan_eq_open_tail:
  assumes "m = min (length s) 4" "j \<le> m" "\<forall>i<j. is_cont (rev s ! i)"
  shows "utf8_scan s (Suc j) m = open_tail s"
  using assms
proof (induction "m - j" arbitrary: j)
  case 0
  then have "j = m" by linarith
  with 0 have ge: "m \<le> trailing_conts s" by (intro trailing_conts_ge) auto
  have "open_tail s = 0"
  proof (cases "trailing_conts s < length s")
    case True
    with ge 0 have "4 \<le> trailing_conts s" by auto
    then show ?thesis
      by (auto simp: open_tail_def Let_def split: option.splits dest: lead_need_le_4)
  qed (simp add: open_tail_def)
  with \<open>j = m\<close> show ?case by (simp add: utf8_scan.simps)
next
  case (Suc d)
  then have j: "j < m" "j < length s" by auto
  then have nth: "s ! (length s - Suc j) = rev s ! j" by (simp add: rev_nth)
  show ?case
  proof (cases "is_cont (rev s ! j)")
    case True
    with Suc.prems have "\<forall>i<Suc j. is_cont (rev s ! i)" by (auto simp: less_Suc_eq)
    then have "utf8_scan s (Suc (Suc j)) m = open_tail s"
      using Suc.hyps(2) Suc.prems j by (intro Suc.hyps(1)) auto
    with True j nth show ?thesis by (subst utf8_scan.simps) simp
  next
    case False
    then have "trailing_conts s = j" using Suc.prems j by (intro trailing_conts_eqI) auto
    with False j nth show ?thesis
      by (subst utf8_scan.simps) (simp add: open_tail_def Let_def)
  qed
qed

lemma incomplete_utf8_tail_open_tail: "incomplete_utf8_tail s = open_tail s"
  unfolding incomplete_utf8_tail_def using utf8_scan_eq_open_tail [of _ s 0] by simp

lemma open_tail_le_length: "open_tail s \<le> length s"
  by (auto simp: open_tail_def Let_def split: option.splits)

lemma open_tail_le_3: "open_tail s \<le> 3"
  by (auto simp: open_tail_def Let_def split: option.splits dest: lead_need_le_4)

lemma open_tail_Nil [simp]: "open_tail [] = 0"
  by (simp add: open_tail_def)

text \<open>Only the last non-continuation byte and what follows it matter.\<close>

lemma open_tail_append_lead:
  assumes "\<exists>c\<in>set s. \<not> is_cont c"
  shows "open_tail (a @ s) = open_tail s"
proof -
  from assms have tc: "trailing_conts (a @ s) = trailing_conts s"
    by (auto simp: trailing_conts_def takeWhile_append1)
  have "trailing_conts s < length s"
    using assms unfolding trailing_conts_def
    by (metis length_rev length_takeWhile_le nat_less_le set_rev set_takeWhileD takeWhile_eq_take take_all)
  with tc show ?thesis
    by (simp add: open_tail_def Let_def nth_append)
qed

lemma open_tail_conts: "\<forall>c\<in>set s. is_cont c \<Longrightarrow> open_tail s = 0"
proof -
  assume "\<forall>c\<in>set s. is_cont c"
  then have "trailing_conts s = length s"
    unfolding trailing_conts_def by (metis length_rev set_rev takeWhile_eq_all_conv)
  then show ?thesis by (simp add: open_tail_def)
qed

lemma open_tail_lead_conts:
  assumes "\<not> is_cont l" "\<forall>c\<in>set cs. is_cont c"
  shows "open_tail (a @ l # cs) =
    (case lead_need l of None \<Rightarrow> 0 | Some n \<Rightarrow> if Suc (length cs) < n then Suc (length cs) else 0)"
proof -
  have "trailing_conts (a @ l # cs) = length cs"
    using assms takeWhile_append2 [of "rev cs" is_cont "l # rev a"]
    by (simp add: trailing_conts_def)
  then show ?thesis
    using assms by (simp add: open_tail_def Let_def nth_append)
qed

text \<open>
  Bytes cut off in front of at least the open tail of a buffer do not influence the open tail of
  what is kept, however the buffer goes on.
\<close>

lemma open_tail_cut:
  assumes "open_tail (a @ p) \<le> length p"
  shows "open_tail (a @ p @ q) = open_tail (p @ q)"
proof (cases "\<exists>c\<in>set (p @ q). \<not> is_cont c")
  case True
  then show ?thesis by (rule open_tail_append_lead)
next
  case all: False
  then have kept: "open_tail (p @ q) = 0" by (intro open_tail_conts) auto
  show ?thesis
  proof (cases "\<exists>c\<in>set a. \<not> is_cont c")
    case False
    with all have "open_tail (a @ p @ q) = 0" by (intro open_tail_conts) auto
    with kept show ?thesis by simp
  next
    case True
    then obtain b l cs where a: "a = b @ l # cs" "\<not> is_cont l" "\<forall>c\<in>set cs. is_cont c"
      using split_list_last_prop [of a "\<lambda>c. \<not> is_cont c"] by blast
    with all have "open_tail (a @ p) =
        (case lead_need l of None \<Rightarrow> 0
         | Some n \<Rightarrow> if Suc (length (cs @ p)) < n then Suc (length (cs @ p)) else 0)"
      using open_tail_lead_conts [of l "cs @ p" b] by auto
    moreover from a all have "open_tail (a @ p @ q) =
        (case lead_need l of None \<Rightarrow> 0
         | Some n \<Rightarrow> if Suc (length (cs @ p @ q)) < n then Suc (length (cs @ p @ q)) else 0)"
      using open_tail_lead_conts [of l "cs @ p @ q" b] by auto
    ultimately show ?thesis using assms kept by (auto split: option.splits if_splits)
  qed
qed

section \<open>Well-formed UTF-8\<close>

text \<open>
  One encoded character by the table of RFC 3629 (no overlong forms, no surrogates, nothing above
  U+10FFFF), and texts: sequences of such characters.
\<close>

definition in_range :: "nat \<Rightarrow> nat \<Rightarrow> char \<Rightarrow> bool" where
  "in_range lo hi c \<longleftrightarrow> lo \<le> bval c \<and> bval c \<le> hi"

fun utf8_char :: "bytes \<Rightarrow> bool" where
  "utf8_char [a] = in_range 0x00 0x7F a"
| "utf8_char [a, b] = (in_range 0xC2 0xDF a \<and> in_range 0x80 0xBF b)"
| "utf8_char [a, b, c] =
     ((in_range 0xE0 0xE0 a \<and> in_range 0xA0 0xBF b
       \<or> in_range 0xE1 0xEC a \<and> in_range 0x80 0xBF b
       \<or> in_range 0xED 0xED a \<and> in_range 0x80 0x9F b
       \<or> in_range 0xEE 0xEF a \<and> in_range 0x80 0xBF b)
      \<and> in_range 0x80 0xBF c)"
| "utf8_char [a, b, c, d] =
     ((in_range 0xF0 0xF0 a \<and> in_range 0x90 0xBF b
       \<or> in_range 0xF1 0xF3 a \<and> in_range 0x80 0xBF b
       \<or> in_range 0xF4 0xF4 a \<and> in_range 0x80 0x8F b)
      \<and> in_range 0x80 0xBF c \<and> in_range 0x80 0xBF d)"
| "utf8_char _ = False"

function utf8_text :: "bytes \<Rightarrow> bool" where
  "utf8_text [] = True"
| "utf8_text (a # s) =
     (case lead_need a of
        None \<Rightarrow> False
      | Some n \<Rightarrow> utf8_char (a # take (n - 1) s) \<and> utf8_text (drop (n - 1) s))"
  by pat_completeness auto
termination
  by (relation "measure length") auto

lemma utf8_char_shape:
  "utf8_char c \<Longrightarrow> \<exists>l cs. c = l # cs \<and> \<not> is_cont l \<and> (\<forall>x\<in>set cs. is_cont x) \<and> lead_need l = Some (length c)"
  by (induction c rule: utf8_char.induct) (auto simp: in_range_def is_cont_iff lead_need_iff)

lemma utf8_text_char [simp]: "utf8_char c \<Longrightarrow> utf8_text (c @ s) = utf8_text s"
  using utf8_char_shape [of c] by auto

lemma utf8_text_cases:
  assumes "utf8_text s" "s \<noteq> []"
  obtains c r where "s = c @ r" "utf8_char c" "utf8_text r" "c \<noteq> []"
proof (cases s)
  case (Cons a t)
  with assms obtain n where "lead_need a = Some n" "utf8_char (a # take (n - 1) t)"
      "utf8_text (drop (n - 1) t)"
    by (auto split: option.splits)
  then show ?thesis
    using that [of "a # take (n - 1) t" "drop (n - 1) t"] Cons by auto
qed (use assms in simp)

lemma utf8_text_induct [consumes 1, case_names Nil char]:
  assumes "utf8_text s" "P []"
    and "\<And>c s. utf8_char c \<Longrightarrow> utf8_text s \<Longrightarrow> P s \<Longrightarrow> P (c @ s)"
  shows "P s"
  using assms(1)
proof (induction s rule: length_induct)
  case (1 s)
  show ?case
  proof (cases "s = []")
    case False
    with 1(2) obtain c r where "s = c @ r" "utf8_char c" "utf8_text r" "c \<noteq> []"
      by (rule utf8_text_cases)
    with 1 assms(3) show ?thesis by simp
  qed (use assms in simp)
qed

lemma utf8_text_append: "utf8_text a \<Longrightarrow> utf8_text (a @ b) = utf8_text b"
  by (induction rule: utf8_text_induct) auto

lemma utf8_text_hd: "utf8_text s \<Longrightarrow> s \<noteq> [] \<Longrightarrow> \<not> is_cont (hd s)"
  by (erule (1) utf8_text_cases) (auto dest!: utf8_char_shape)

text \<open>A text may be cut wherever the rest does not start with a continuation byte.\<close>

lemma utf8_text_split:
  assumes "utf8_text (a @ b)" "b = [] \<or> \<not> is_cont (hd b)"
  shows "utf8_text a \<and> utf8_text b"
  using assms
proof (induction a rule: length_induct)
  case (1 a)
  show ?case
  proof (cases "a = []")
    case False
    with 1(2) obtain c r where c: "a @ b = c @ r" "utf8_char c" "utf8_text r" "c \<noteq> []"
      by (metis Nil_is_append_conv utf8_text_cases)
    from c(2) obtain l cs where l: "c = l # cs" "\<forall>x\<in>set cs. is_cont x"
      using utf8_char_shape by blast
    from c(1) obtain us where "a = c @ us \<and> us @ b = r \<or> a @ us = c \<and> b = us @ r"
      by (auto simp: append_eq_append_conv2)
    then show ?thesis
    proof
      assume *: "a = c @ us \<and> us @ b = r"
      with c 1(1,3) have "utf8_text us \<and> utf8_text b"
        by (metis length_append length_greater_0_conv less_add_same_cancel2)
      with * c show ?thesis by simp
    next
      assume *: "a @ us = c \<and> b = us @ r"
      have "us = []"
      proof (rule ccontr)
        assume "us \<noteq> []"
        with * False l have "hd us \<in> set cs" by (cases a) auto
        with \<open>us \<noteq> []\<close> * l 1(3) show False by auto
      qed
      with * c show ?thesis using utf8_text_char [of c "[]"] by simp
    qed
  qed (use 1 in simp)
qed

text \<open>
  The scanner is right on every prefix of a text: what it cuts off is the beginning of a character,
  and what stays is a text.
\<close>

lemma open_tail_utf8_char: "utf8_char c \<Longrightarrow> open_tail c = 0"
  using open_tail_lead_conts [of _ _ "[]"] by (auto dest!: utf8_char_shape)

lemma open_tail_text_prefix:
  assumes "utf8_text t" "t = s @ r"
  shows "utf8_text (take (length s - open_tail s) s)"
  using assms
proof (induction arbitrary: s rule: utf8_text_induct)
  case Nil
  then show ?case by simp
next
  case (char c t)
  obtain l cs where l: "c = l # cs" "\<not> is_cont l" "\<forall>x\<in>set cs. is_cont x" "lead_need l = Some (length c)"
    using utf8_char_shape [OF char.hyps(1)] by blast
  from char.prems obtain us where "s = c @ us \<and> t = us @ r \<or> s @ us = c \<and> us @ t = r"
    by (metis append_eq_append_conv2)
  then show ?case
  proof
    assume *: "s = c @ us \<and> t = us @ r"
    show ?thesis
    proof (cases "us = []")
      case True
      with * char.hyps show ?thesis
        using open_tail_utf8_char utf8_text_char [of c "[]"] by simp
    next
      case False
      with * char.hyps have "\<not> is_cont (hd us)"
        using utf8_text_hd by (metis append_is_Nil_conv hd_append2)
      with False * have "open_tail s = open_tail us"
        using open_tail_append_lead list.set_sel(1) by blast
      with * char show ?thesis
        using open_tail_le_length [of us] by simp
    qed
  next
    assume *: "s @ us = c \<and> us @ t = r"
    show ?thesis
    proof (cases "us = [] \<or> s = []")
      case True
      with * char.hyps show ?thesis
        using open_tail_utf8_char utf8_text_char [of c "[]"] by auto
    next
      case False
      with * l obtain ds where "s = l # ds" "cs = ds @ us" by (cases s) auto
      with l False * have "open_tail s = length s"
        using open_tail_lead_conts [of l ds "[]"] by auto
      then show ?thesis by simp
    qed
  qed
qed

lemma open_tail_text: "utf8_text s \<Longrightarrow> open_tail s = 0"
proof (induction rule: utf8_text_induct)
  case (char c s)
  show ?case
  proof (cases "s = []")
    case True
    with char.hyps show ?thesis by (simp add: open_tail_utf8_char)
  next
    case False
    with char.hyps have "\<not> is_cont (hd s)" by (simp add: utf8_text_hd)
    with False char.IH show ?thesis
      using open_tail_append_lead [of s c] list.set_sel(1) by metis
  qed
qed simp

text \<open>
  What the scanner cuts off is an unfinished sequence and starts with its lead byte.
\<close>

lemma open_tail_starts_with_lead:
  assumes "0 < open_tail s"
  shows "\<not> is_cont (hd (drop (length s - open_tail s) s))"
proof -
  let ?j = "trailing_conts s"
  from assms have j: "?j < length s" "open_tail s = Suc ?j"
    by (auto simp: open_tail_def Let_def split: if_splits option.splits)
  then have "\<not> is_cont (rev s ! ?j)"
    unfolding trailing_conts_def by (intro nth_length_takeWhile) simp
  with j show ?thesis
    by (simp add: hd_drop_conv_nth rev_nth)
qed

end
