(* ===== verification/Stream_Filter.thy ===== *)
theory Stream_Filter
  imports Utf8
begin

text \<open>
  \<open>StreamFilter\<close> of src/engine.cpp: the buffer between the sampler and the client that holds back
  unfinished UTF-8 and anything that may still turn out to be a stop string. The callback is a
  function on the receiver's state; it answers, declines (\<open>False\<close>) or throws. The theory ends with
  what the filter promises: over any sequence of token pieces, what it delivers is what a batch
  search of the concatenated text gives.
\<close>

section \<open>Stop strings\<close>

text \<open>The backward search \<open>for (len = max_len; len > best; --len)\<close> of one stop string.\<close>

fun holdback_scan :: "bytes \<Rightarrow> bytes \<Rightarrow> nat \<Rightarrow> nat \<Rightarrow> nat" where
  "holdback_scan pending stop 0 best = best"
| "holdback_scan pending stop (Suc k) best =
     (if best < Suc k then
        (if drop (length pending - Suc k) pending = take (Suc k) stop then Suc k
         else holdback_scan pending stop k best)
      else best)"

text \<open>The loop over the stop strings, with the best length so far.\<close>

fun holdback_from :: "bytes \<Rightarrow> bytes list \<Rightarrow> nat \<Rightarrow> nat" where
  "holdback_from pending [] best = best"
| "holdback_from pending (stop # stops) best =
     (if stop = [] then holdback_from pending stops best
      else holdback_from pending stops
             (holdback_scan pending stop (min (length pending) (length stop - 1)) best))"

definition stop_prefix_holdback :: "bytes \<Rightarrow> bytes list \<Rightarrow> nat" where
  "stop_prefix_holdback pending stops = holdback_from pending stops 0"

text \<open>The search of \<open>push\<close> for the earliest match; \<open>None\<close> is \<open>npos\<close>.\<close>

fun first_match :: "bytes \<Rightarrow> bytes list \<Rightarrow> nat option \<Rightarrow> nat option" where
  "first_match pending [] match = match"
| "first_match pending (stop # stops) match =
     (if stop = [] then first_match pending stops match
      else (case str_find pending stop of
              None \<Rightarrow> first_match pending stops match
            | Some p \<Rightarrow>
                first_match pending stops
                  (case match of
                     None \<Rightarrow> Some p
                   | Some m \<Rightarrow> if p < m then Some p else Some m)))"

section \<open>The filter\<close>

datatype status = Status_Continue | Status_Stopped | Status_Cancelled

record stream_filter =
  stops :: "bytes list"
  pending :: bytes

text \<open>\<open>ChunkCallback\<close>: \<open>None\<close> is an empty \<open>std::function\<close>.\<close>

type_synonym 'w chunk_callback = "('w \<Rightarrow> bytes \<Rightarrow> (exn + bool) \<times> 'w) option"

definition new_filter :: "bytes list \<Rightarrow> stream_filter" where
  "new_filter ss = \<lparr>stops = ss, pending = []\<rparr>"

definition deliver :: "'w chunk_callback \<Rightarrow> 'w \<Rightarrow> bytes \<Rightarrow> (exn + bool) \<times> 'w" where
  "deliver on_chunk w text =
     (if text = [] then (Inr True, w)
      else (case on_chunk of
              None \<Rightarrow> (Inr True, w)
            | Some call \<Rightarrow> call w text))"

definition push ::
  "'w chunk_callback \<Rightarrow> 'w \<Rightarrow> stream_filter \<Rightarrow> bytes \<Rightarrow> (exn + status) \<times> stream_filter \<times> 'w" where
  "push on_chunk w f piece =
     (let buf = pending f @ piece in
      case first_match buf (stops f) None of
        Some match \<Rightarrow>
          (let head = take match buf;
               out = take (length head - incomplete_utf8_tail head) head;
               f' = f\<lparr>pending := []\<rparr>
           in case deliver on_chunk w out of
                (Inl e, w') \<Rightarrow> (Inl e, f', w')
              | (Inr accepted, w') \<Rightarrow>
                  (Inr (if \<not> accepted then Status_Cancelled else Status_Stopped), f', w'))
      | None \<Rightarrow>
          (let hold = min (length buf)
                        (max (incomplete_utf8_tail buf) (stop_prefix_holdback buf (stops f)));
               safe = length buf - hold
           in if 0 < safe then
                (let out = take safe buf; f' = f\<lparr>pending := drop safe buf\<rparr>
                 in case deliver on_chunk w out of
                      (Inl e, w') \<Rightarrow> (Inl e, f', w')
                    | (Inr accepted, w') \<Rightarrow>
                        (Inr (if \<not> accepted then Status_Cancelled else Status_Continue), f', w'))
              else (Inr Status_Continue, f\<lparr>pending := buf\<rparr>, w)))"

definition flush ::
  "'w chunk_callback \<Rightarrow> 'w \<Rightarrow> stream_filter \<Rightarrow> (exn + unit) \<times> stream_filter \<times> 'w" where
  "flush on_chunk w f =
     (if pending f = [] then (Inr (), f, w)
      else
        (let out = take (length (pending f) - incomplete_utf8_tail (pending f)) (pending f);
             f' = f\<lparr>pending := []\<rparr>
         in case deliver on_chunk w out of
              (Inl e, w') \<Rightarrow> (Inl e, f', w')
            | (Inr _, w') \<Rightarrow> (Inr (), f', w')))"

section \<open>What the two searches find\<close>

text \<open>Some nonempty stop string occurs at position \<open>p\<close>.\<close>

definition stop_at :: "bytes list \<Rightarrow> bytes \<Rightarrow> nat \<Rightarrow> bool" where
  "stop_at ss t p \<longleftrightarrow> (\<exists>s\<in>set ss. s \<noteq> [] \<and> occurs_at t s p)"

lemma stop_at_less: "stop_at ss t p \<Longrightarrow> p < length t"
  by (auto simp: stop_at_def occurs_at_def le_less)

lemma stop_at_Nil [simp]: "\<not> stop_at [] t p"
  by (simp add: stop_at_def)

lemma stop_at_Cons: "stop_at (s # ss) t p \<longleftrightarrow> s \<noteq> [] \<and> occurs_at t s p \<or> stop_at ss t p"
  by (auto simp: stop_at_def)

lemma first_match_None:
  "first_match t ss match = None \<longleftrightarrow> match = None \<and> (\<forall>p. \<not> stop_at ss t p)"
  by (induction t ss match rule: first_match.induct)
     (auto simp: stop_at_Cons str_find_None_iff str_find_Some_iff split: option.splits)

lemma first_match_Some:
  "first_match t ss match = Some m \<Longrightarrow>
     (match = Some m \<or> stop_at ss t m) \<and> (\<forall>k. match = Some k \<longrightarrow> m \<le> k)
     \<and> (\<forall>q<m. \<not> stop_at ss t q)"
proof (induction ss arbitrary: match)
  case Nil
  then show ?case by auto
next
  case (Cons s ss)
  show ?case
  proof (cases "s = []")
    case True
    with Cons show ?thesis by (simp add: stop_at_Cons)
  next
    case nonempty: False
    show ?thesis
    proof (cases "str_find t s")
      case None
      with nonempty Cons show ?thesis by (simp add: stop_at_Cons str_find_None_iff)
    next
      case (Some p)
      then have p: "occurs_at t s p" "\<And>q. q < p \<Longrightarrow> \<not> occurs_at t s q"
        by (simp_all add: str_find_Some_iff)
      define k where "k = (case match of None \<Rightarrow> p | Some m \<Rightarrow> if p < m then p else m)"
      have k: "k \<le> p" "\<And>m. match = Some m \<Longrightarrow> k \<le> m" "k = p \<or> match = Some k"
        by (auto simp: k_def split: option.splits)
      have "first_match t ss (Some k) = Some m"
        using Cons.prems nonempty Some by (auto simp: k_def split: option.splits if_splits)
      from Cons.IH [OF this] have "k = m \<or> stop_at ss t m" "m \<le> k" "\<forall>q<m. \<not> stop_at ss t q"
        by auto
      with p k nonempty show ?thesis
        by (auto simp: stop_at_Cons)
    qed
  qed
qed

lemma first_match_earliest:
  "first_match t ss None = Some m \<longleftrightarrow> stop_at ss t m \<and> (\<forall>q<m. \<not> stop_at ss t q)"
proof
  assume "first_match t ss None = Some m"
  then show "stop_at ss t m \<and> (\<forall>q<m. \<not> stop_at ss t q)"
    using first_match_Some by blast
next
  assume m: "stop_at ss t m \<and> (\<forall>q<m. \<not> stop_at ss t q)"
  then obtain m' where m': "first_match t ss None = Some m'"
    using first_match_None by (metis not_None_eq)
  from first_match_Some [OF this] have "stop_at ss t m'" "\<forall>q<m'. \<not> stop_at ss t q" by auto
  with m have "m' = m" by (meson linorder_neqE_nat)
  with m' show "first_match t ss None = Some m" by simp
qed

text \<open>The suffix of length \<open>h\<close> is a proper prefix of some stop string.\<close>

definition begins_stop :: "bytes list \<Rightarrow> bytes \<Rightarrow> nat \<Rightarrow> bool" where
  "begins_stop ss t h \<longleftrightarrow>
     0 < h \<and> h \<le> length t \<and> (\<exists>s\<in>set ss. h < length s \<and> drop (length t - h) t = take h s)"

lemma holdback_scan_spec:
  assumes "n \<le> length t" "n < length s"
  shows "best \<le> holdback_scan t s n best"
    and "holdback_scan t s n best = best \<or> begins_stop [s] t (holdback_scan t s n best)"
    and "\<lbrakk>begins_stop [s] t h; h \<le> n\<rbrakk> \<Longrightarrow> h \<le> holdback_scan t s n best"
  using assms
  by (induction t s n best rule: holdback_scan.induct) (auto simp: begins_stop_def le_Suc_eq)

lemma begins_stop_Cons: "begins_stop (s # ss) t h \<longleftrightarrow> begins_stop [s] t h \<or> begins_stop ss t h"
  by (auto simp: begins_stop_def)

lemma holdback_from_spec:
  "best \<le> holdback_from t ss best
   \<and> (holdback_from t ss best = best \<or> begins_stop ss t (holdback_from t ss best))
   \<and> (\<forall>h. begins_stop ss t h \<longrightarrow> h \<le> holdback_from t ss best)"
proof (induction ss arbitrary: best)
  case Nil
  then show ?case by (simp add: begins_stop_def)
next
  case (Cons s ss)
  show ?case
  proof (cases "s = []")
    case True
    with Cons show ?thesis by (simp add: begins_stop_def)
  next
    case False
    define n where "n = min (length t) (length s - 1)"
    have n: "n \<le> length t" "n < length s" using False by (cases s; simp add: n_def)+
    have bound: "begins_stop [s] t h \<Longrightarrow> h \<le> n" for h by (auto simp: begins_stop_def n_def)
    define b where "b = holdback_scan t s n best"
    have b: "best \<le> b" "b = best \<or> begins_stop [s] t b"
      "\<And>h. begins_stop [s] t h \<Longrightarrow> h \<le> b"
      using holdback_scan_spec [OF n] bound by (auto simp: b_def)
    have "holdback_from t (s # ss) best = holdback_from t ss b"
      using False by (simp add: b_def n_def)
    with Cons.IH [of b] b show ?thesis
      by (auto simp: begins_stop_Cons [of s ss] intro: le_trans)
  qed
qed

lemma stop_prefix_holdback_greatest:
  "stop_prefix_holdback t ss = 0 \<or> begins_stop ss t (stop_prefix_holdback t ss)"
  "begins_stop ss t h \<Longrightarrow> h \<le> stop_prefix_holdback t ss"
  using holdback_from_spec [of 0 t ss] by (auto simp: stop_prefix_holdback_def)

lemma stop_prefix_holdback_le: "stop_prefix_holdback t ss \<le> length t"
  using stop_prefix_holdback_greatest(1) [of t ss] by (auto simp: begins_stop_def)

section \<open>Text and delivery, apart\<close>

text \<open>
  What one \<open>push\<close> would send, the status it reports when the receiver accepts, and the bytes it
  keeps: the part of \<open>push\<close> that does not depend on the receiver.
\<close>

definition next_out :: "bytes list \<Rightarrow> bytes \<Rightarrow> bytes \<times> status \<times> bytes" where
  "next_out ss buf =
     (case first_match buf ss None of
        Some m \<Rightarrow>
          (take (m - incomplete_utf8_tail (take m buf)) buf, Status_Stopped, [])
      | None \<Rightarrow>
          (let safe = length buf - max (incomplete_utf8_tail buf) (stop_prefix_holdback buf ss)
           in (take safe buf, Status_Continue, drop safe buf)))"

lemma push_next_out:
  "push on_chunk w f piece =
     (case next_out (stops f) (pending f @ piece) of
        (out, status, kept) \<Rightarrow>
          (case deliver on_chunk w out of
             (Inl e, w') \<Rightarrow> (Inl e, f\<lparr>pending := kept\<rparr>, w')
           | (Inr accepted, w') \<Rightarrow>
               (Inr (if accepted then status else Status_Cancelled), f\<lparr>pending := kept\<rparr>, w')))"
proof (cases "first_match (pending f @ piece) (stops f) None")
  case (Some m)
  let ?buf = "pending f @ piece"
  let ?out = "take (m - incomplete_utf8_tail (take m ?buf)) ?buf"
  from Some have "m \<le> length ?buf"
    using first_match_earliest stop_at_less by (metis less_imp_le)
  then have "length (take m ?buf) = m" by (simp only: length_take min_absorb2)
  then have out: "take (length (take m ?buf) - incomplete_utf8_tail (take m ?buf)) (take m ?buf) = ?out"
    by (simp only: take_take) simp
  show ?thesis
    unfolding push_def next_out_def Let_def Some option.case out
    by (cases "deliver on_chunk w ?out"; cases "fst (deliver on_chunk w ?out)") simp_all
next
  case None
  let ?buf = "pending f @ piece"
  let ?hold = "max (incomplete_utf8_tail ?buf) (stop_prefix_holdback ?buf (stops f))"
  let ?out = "take (length ?buf - ?hold) ?buf"
  have hold: "min (length ?buf) ?hold = ?hold"
    using open_tail_le_length [of ?buf] stop_prefix_holdback_le [of ?buf "stops f"]
    unfolding incomplete_utf8_tail_open_tail by (simp only: max.bounded_iff min_absorb2)
  show ?thesis
  proof (cases "0 < length ?buf - ?hold")
    case True
    then show ?thesis
      unfolding push_def next_out_def Let_def None option.case hold
      by (cases "deliver on_chunk w ?out"; cases "fst (deliver on_chunk w ?out)") simp_all
  next
    case False
    then have zero: "length ?buf - ?hold = 0" by (simp only: not_gr0)
    show ?thesis
      unfolding push_def next_out_def Let_def None option.case hold zero deliver_def by simp
  qed
qed

text \<open>A receiver that records every chunk and always asks for more.\<close>

definition collect :: "bytes list chunk_callback" where
  "collect = Some (\<lambda>log t. (Inr True, log @ [t]))"

lemma deliver_collect: "deliver collect log t = (Inr True, if t = [] then log else log @ [t])"
  by (simp add: deliver_def collect_def)

text \<open>Pushing pieces until the filter says anything but \<open>Continue\<close>.\<close>

fun push_all ::
  "'w chunk_callback \<Rightarrow> 'w \<Rightarrow> stream_filter \<Rightarrow> bytes list \<Rightarrow> (exn + status) \<times> stream_filter \<times> 'w" where
  "push_all on_chunk w f [] = (Inr Status_Continue, f, w)"
| "push_all on_chunk w f (x # xs) =
     (case push on_chunk w f x of
        (Inr Status_Continue, f', w') \<Rightarrow> push_all on_chunk w' f' xs
      | other \<Rightarrow> other)"

section \<open>Nothing delivered can be part of a stop string\<close>

text \<open>
  The first \<open>d\<close> positions of \<open>t\<close> are settled: from none of them a stop string begins, now or after
  more text arrives.
\<close>

definition settled :: "bytes list \<Rightarrow> nat \<Rightarrow> bytes \<Rightarrow> bool" where
  "settled ss d t \<longleftrightarrow> d \<le> length t \<and> (\<forall>i<d. \<forall>s\<in>set ss. s \<noteq> [] \<longrightarrow> drop i t \<parallel> s)"

lemma settled_extend: "settled ss d t \<Longrightarrow> settled ss d (t @ x)"
  unfolding settled_def using parallel_append [where d = "[]"] by fastforce

lemma settled_no_stop: "settled ss d t \<Longrightarrow> stop_at ss t p \<Longrightarrow> d \<le> p"
  unfolding settled_def stop_at_def occurs_at_def
  by (metis not_le_imp_less parallelD2)

lemma settled_0 [simp]: "settled ss 0 t"
  by (simp add: settled_def)

text \<open>Positions before the held-back suffix settle when the text holds no stop string.\<close>

lemma holdback_settles:
  assumes "\<forall>p. \<not> stop_at ss t p" "stop_prefix_holdback t ss \<le> h" "h \<le> length t"
  shows "settled ss (length t - h) t"
  unfolding settled_def
proof (intro conjI allI impI ballI)
  fix i s
  assume i: "i < length t - h" and s: "s \<in> set ss" "s \<noteq> []"
  show "drop i t \<parallel> s"
  proof
    show "\<not> prefix s (drop i t)"
    proof
      assume "prefix s (drop i t)"
      with i s have "stop_at ss t i" by (auto simp: stop_at_def occurs_at_def)
      with assms(1) show False by blast
    qed
    show "\<not> prefix (drop i t) s"
    proof
      assume pre: "prefix (drop i t) s"
      then have take: "drop i t = take (length t - i) s"
        by (auto simp: prefix_def)
      have "length t - i \<noteq> length s"
      proof
        assume "length t - i = length s"
        with take have "prefix s (drop i t)" by simp
        with i s have "stop_at ss t i" by (auto simp: stop_at_def occurs_at_def)
        with assms(1) show False by blast
      qed
      with pre have "length t - i < length s"
        by (metis length_drop nat_less_le prefix_length_le)
      with take i s have "begins_stop ss t (length t - i)"
        by (auto simp: begins_stop_def)
      then have "length t - i \<le> stop_prefix_holdback t ss"
        by (rule stop_prefix_holdback_greatest)
      with assms i show False by simp
    qed
  qed
qed simp

lemma stop_at_shift: "stop_at ss (d @ t) (length d + p) = stop_at ss t p"
  by (auto simp: stop_at_def occurs_at_def)

text \<open>
  The invariant of a run: \<open>d\<close> has been delivered, \<open>p\<close> is pending. No stop string can begin in \<open>d\<close>,
  none occurs yet, and unfinished UTF-8 at the end is unfinished in \<open>p\<close> alone.
\<close>

definition run_inv :: "bytes list \<Rightarrow> bytes \<Rightarrow> bytes \<Rightarrow> bool" where
  "run_inv ss d p \<longleftrightarrow>
     settled ss (length d) (d @ p)
     \<and> (\<forall>i. \<not> stop_at ss (d @ p) i)
     \<and> (\<forall>q. open_tail (d @ p @ q) = open_tail (p @ q))"

lemma run_inv_Nil: "run_inv ss [] []"
  by (auto simp: run_inv_def dest: stop_at_less)

lemma run_inv_stop_at:
  assumes "run_inv ss d p"
  shows "stop_at ss (d @ p @ x) i \<longleftrightarrow> length d \<le> i \<and> stop_at ss (p @ x) (i - length d)"
proof -
  have "settled ss (length d) ((d @ p) @ x)"
    using assms unfolding run_inv_def by (blast intro: settled_extend)
  then have "stop_at ss (d @ p @ x) i \<Longrightarrow> length d \<le> i" using settled_no_stop by auto
  then show ?thesis using stop_at_shift [of ss d "p @ x" "i - length d"] by auto
qed

text \<open>One push that finds no stop string keeps the invariant and loses nothing.\<close>

lemma next_out_Continue:
  assumes "run_inv ss d p" "next_out ss (p @ x) = (out, Status_Continue, kept)"
  shows "run_inv ss (d @ out) kept" and "out @ kept = p @ x"
proof -
  let ?b = "p @ x"
  let ?h = "max (open_tail ?b) (stop_prefix_holdback ?b ss)"
  from assms(2) have none: "first_match ?b ss None = None"
    and out: "out = take (length ?b - ?h) ?b" and kept: "kept = drop (length ?b - ?h) ?b"
    by (auto simp: next_out_def Let_def incomplete_utf8_tail_open_tail split: option.splits)
  show split: "out @ kept = p @ x" unfolding out kept by (rule append_take_drop_id)
  from none have no_b: "\<forall>i. \<not> stop_at ss ?b i" by (simp add: first_match_None)
  have h: "?h \<le> length ?b"
    using open_tail_le_length [of ?b] stop_prefix_holdback_le [of ?b ss] by simp
  from h have len: "length kept = ?h" unfolding kept by simp
  have "length out = length ?b - ?h"
    unfolding out by (simp only: length_take min_absorb2 diff_le_self)
  then have "settled ss (length out) ?b"
    using holdback_settles [OF no_b, of ?h] h by simp
  then have s_out: "\<forall>i<length out. \<forall>s\<in>set ss. s \<noteq> [] \<longrightarrow> drop i ?b \<parallel> s"
    by (simp add: settled_def)
  have s_d: "settled ss (length d) ((d @ p) @ x)"
    using assms(1) unfolding run_inv_def by (blast intro: settled_extend)
  have "settled ss (length (d @ out)) ((d @ out) @ kept)"
    unfolding settled_def
  proof (intro conjI allI impI ballI)
    fix i s assume i: "i < length (d @ out)" and s: "s \<in> set ss" "s \<noteq> []"
    have eq: "(d @ out) @ kept = d @ ?b" using split by simp
    show "drop i ((d @ out) @ kept) \<parallel> s"
    proof (cases "i < length d")
      case True
      with s_d s eq show ?thesis by (simp add: settled_def)
    next
      case False
      with i have "i - length d < length out" by simp
      with s_out s have "drop (i - length d) ?b \<parallel> s" by blast
      with False show ?thesis unfolding eq by simp
    qed
  qed simp
  moreover have "\<forall>i. \<not> stop_at ss ((d @ out) @ kept) i"
    using no_b split run_inv_stop_at [OF assms(1)] by simp
  moreover have "\<forall>q. open_tail ((d @ out) @ kept @ q) = open_tail (kept @ q)"
  proof
    fix q
    have "open_tail ((d @ out) @ kept @ q) = open_tail (d @ p @ (x @ q))"
      using split by (metis append.assoc)
    also have "\<dots> = open_tail (p @ x @ q)" using assms(1) by (simp add: run_inv_def)
    also have "\<dots> = open_tail (out @ kept @ q)" using split by (metis append.assoc)
    also have "\<dots> = open_tail (kept @ q)"
      using split len by (intro open_tail_cut) simp
    finally show "open_tail ((d @ out) @ kept @ q) = open_tail (kept @ q)" .
  qed
  ultimately show "run_inv ss (d @ out) kept" unfolding run_inv_def by blast
qed

text \<open>
  What a batch computation over the whole text would hold back: its unfinished UTF-8 and the longest
  suffix that may still become a stop string.
\<close>

definition held_back :: "bytes list \<Rightarrow> bytes \<Rightarrow> nat" where
  "held_back ss t = max (incomplete_utf8_tail t) (stop_prefix_holdback t ss)"

lemma held_back_le: "held_back ss t \<le> length t"
  using open_tail_le_length [of t] stop_prefix_holdback_le [of t ss]
  by (simp add: held_back_def incomplete_utf8_tail_open_tail)

lemma held_back_Nil [simp]: "held_back ss [] = 0"
  using held_back_le [of ss "[]"] by simp

text \<open>A suffix that may become a stop string lies in what is not settled.\<close>

lemma begins_stop_settled:
  assumes "settled ss (length d) (d @ p)"
  shows "begins_stop ss (d @ p) h \<longleftrightarrow> begins_stop ss p h"
proof
  assume h: "begins_stop ss (d @ p) h"
  then obtain s where s: "s \<in> set ss" "h < length s" "drop (length (d @ p) - h) (d @ p) = take h s" "0 < h"
      "h \<le> length (d @ p)"
    by (auto simp: begins_stop_def)
  have "h \<le> length p"
  proof (rule ccontr)
    assume "\<not> h \<le> length p"
    then have "length (d @ p) - h < length d" using s(5) by auto
    moreover have "s \<noteq> []" using s(2) by auto
    ultimately have "drop (length (d @ p) - h) (d @ p) \<parallel> s" using assms s(1) unfolding settled_def by blast
    moreover have "prefix (take h s) s" by (rule take_is_prefix)
    ultimately show False using s(3) by (simp add: parallel_def)
  qed
  then have "drop (length (d @ p) - h) (d @ p) = drop (length p - h) p" by simp
  with s \<open>h \<le> length p\<close> show "begins_stop ss p h" by (auto simp: begins_stop_def)
next
  assume h: "begins_stop ss p h"
  then have "drop (length (d @ p) - h) (d @ p) = drop (length p - h) p" by (auto simp: begins_stop_def)
  with h show "begins_stop ss (d @ p) h" by (auto simp: begins_stop_def)
qed

lemma stop_prefix_holdback_eqI:
  "(\<And>h. begins_stop ss t h \<longleftrightarrow> begins_stop ss u h) \<Longrightarrow> stop_prefix_holdback t ss = stop_prefix_holdback u ss"
  using stop_prefix_holdback_greatest [where t = t and ss = ss]
    stop_prefix_holdback_greatest [where t = u and ss = ss]
  by (metis antisym_conv le_zero_eq linear)

lemma run_inv_held_back:
  assumes "run_inv ss d p"
  shows "held_back ss (d @ p @ x) = held_back ss (p @ x)"
proof -
  have "settled ss (length d) ((d @ p) @ x)" using assms unfolding run_inv_def by (blast intro: settled_extend)
  then have "stop_prefix_holdback (d @ p @ x) ss = stop_prefix_holdback (p @ x) ss"
    by (intro stop_prefix_holdback_eqI begins_stop_settled) simp
  then show ?thesis using assms by (simp add: held_back_def incomplete_utf8_tail_open_tail run_inv_def)
qed

lemma next_out_keeps:
  assumes "run_inv ss d p" "next_out ss (p @ x) = (out, Status_Continue, kept)"
  shows "length kept = held_back ss (d @ p @ x)"
proof -
  have "kept = drop (length (p @ x) - held_back ss (p @ x)) (p @ x)"
    using assms(2) by (auto simp: next_out_def Let_def held_back_def split: option.splits)
  then show ?thesis using held_back_le [of ss "p @ x"] run_inv_held_back [OF assms(1)] by simp
qed

text \<open>
  What is left out in front of a stop string at \<open>m\<close>, when \<open>u\<close> was generated before the piece that
  completed it: the unfinished UTF-8 at the end of what was still to be sent. It is the unfinished
  UTF-8 of the text there, or nothing.
\<close>

definition stop_cut :: "bytes list \<Rightarrow> bytes \<Rightarrow> bytes \<Rightarrow> nat \<Rightarrow> nat" where
  "stop_cut ss u x m =
     incomplete_utf8_tail (drop (length u - held_back ss u) (take m (u @ x)))"

lemma stop_cut_le_3: "stop_cut ss u x m \<le> 3"
  by (simp add: stop_cut_def incomplete_utf8_tail_open_tail open_tail_le_3)

lemma open_tail_drop: "open_tail (drop n s) \<in> {0, open_tail s}"
proof (cases "\<exists>c\<in>set (drop n s). \<not> is_cont c")
  case True
  then have "open_tail (take n s @ drop n s) = open_tail (drop n s)" by (rule open_tail_append_lead)
  then show ?thesis by simp
next
  case False
  then have "open_tail (drop n s) = 0" by (intro open_tail_conts) blast
  then show ?thesis by simp
qed

lemma stop_cut_cases: "stop_cut ss u x m \<in> {0, incomplete_utf8_tail (take m (u @ x))}"
  unfolding stop_cut_def incomplete_utf8_tail_open_tail by (rule open_tail_drop)

section \<open>A run of the filter is a batch search\<close>

text \<open>
  The state of a run that collects: everything delivered is \<open>concat log\<close>, no chunk is empty, and
  the invariant holds between it and what is pending.
\<close>

definition run_state :: "bytes list \<Rightarrow> stream_filter \<Rightarrow> bytes list \<Rightarrow> bytes \<Rightarrow> bool" where
  "run_state ss f log t \<longleftrightarrow>
     stops f = ss \<and> [] \<notin> set log \<and> concat log @ pending f = t \<and> run_inv ss (concat log) (pending f)
     \<and> length (pending f) = held_back ss t"

lemma run_state_new: "run_state ss (new_filter ss) [] []"
  by (simp add: run_state_def new_filter_def run_inv_Nil)

lemma run_state_delivered:
  "run_state ss f log t \<Longrightarrow> concat log = take (length t - held_back ss t) t"
  by (auto simp: run_state_def)

lemma run_state_push_Continue:
  assumes "run_state ss f log t" "push collect log f x = (Inr Status_Continue, f', log')"
  shows "run_state ss f' log' (t @ x)"
proof -
  obtain out st kept where n: "next_out ss (pending f @ x) = (out, st, kept)"
    by (metis prod_cases3)
  with assms have st: "st = Status_Continue" and f': "f' = f\<lparr>pending := kept\<rparr>"
    and log': "log' = (if out = [] then log else log @ [out])"
    by (auto simp: push_next_out deliver_collect run_state_def)
  have "run_inv ss (concat log) (pending f)" using assms by (simp add: run_state_def)
  from next_out_Continue [OF this n [unfolded st]] next_out_keeps [OF this n [unfolded st]]
  have "run_inv ss (concat log @ out) kept" "out @ kept = pending f @ x"
    "length kept = held_back ss (concat log @ pending f @ x)" .
  then show ?thesis using assms f' log' by (auto simp: run_state_def)
qed

lemma push_collect_not_Continue:
  assumes "run_state ss f log t" "push collect log f x = (r, f', log')" "r \<noteq> Inr Status_Continue"
  shows "r = Inr Status_Stopped"
    and "\<exists>m. stop_at ss (t @ x) m \<and> (\<forall>q<m. \<not> stop_at ss (t @ x) q)
           \<and> concat log' = take (m - stop_cut ss t x m) (t @ x)"
    and "[] \<notin> set log'" and "pending f' = []"
proof -
  let ?b = "pending f @ x" and ?d = "concat log"
  obtain out st kept where n: "next_out ss ?b = (out, st, kept)" by (metis prod_cases3)
  with assms have r: "r = Inr st" "st \<noteq> Status_Continue" and f': "f' = f\<lparr>pending := kept\<rparr>"
    and log': "log' = (if out = [] then log else log @ [out])"
    by (auto simp: push_next_out deliver_collect run_state_def)
  from n r obtain m where m: "first_match ?b ss None = Some m"
    and out: "out = take (m - open_tail (take m ?b)) ?b" and st: "st = Status_Stopped" "kept = []"
    by (auto simp: next_out_def Let_def incomplete_utf8_tail_open_tail split: option.splits)
  show "r = Inr Status_Stopped" "pending f' = []" using r st f' by auto
  show "[] \<notin> set log'" using assms(1) log' by (auto simp: run_state_def)
  have t: "t @ x = ?d @ ?b" using assms(1) by (simp add: run_state_def)
  have inv: "run_inv ss ?d (pending f)" using assms(1) by (simp add: run_state_def)
  have at: "stop_at ss (t @ x) i \<longleftrightarrow> length ?d \<le> i \<and> stop_at ss ?b (i - length ?d)" for i
    using run_inv_stop_at [OF inv] t by simp
  have m': "stop_at ss ?b m" "\<forall>q<m. \<not> stop_at ss ?b q"
    using m first_match_earliest by blast+
  have "stop_at ss (t @ x) (length ?d + m)" using at m' by simp
  moreover have "\<forall>q<length ?d + m. \<not> stop_at ss (t @ x) q" using at m' by auto
  moreover have "concat log' = take (length ?d + m - open_tail (take m ?b)) (t @ x)"
  proof -
    have "open_tail (take m ?b) \<le> m"
      using open_tail_le_length [of "take m ?b"] by (simp only: length_take)
    then have "take (length ?d + m - open_tail (take m ?b)) (?d @ ?b) = ?d @ out"
      unfolding out by (simp del: append_assoc)
    then show ?thesis using log' t by auto
  qed
  moreover have "stop_cut ss t x (length ?d + m) = open_tail (take m ?b)"
  proof -
    have "length t - held_back ss t = length ?d" using assms(1) by (auto simp: run_state_def)
    moreover have "drop (length ?d) (take (length ?d + m) (t @ x)) = take m ?b"
      unfolding t by (simp add: drop_take del: take_append)
    ultimately show ?thesis by (simp add: stop_cut_def incomplete_utf8_tail_open_tail)
  qed
  ultimately show "\<exists>m. stop_at ss (t @ x) m \<and> (\<forall>q<m. \<not> stop_at ss (t @ x) q)
           \<and> concat log' = take (m - stop_cut ss t x m) (t @ x)"
    by metis
qed

lemma push_all_collect:
  assumes "run_state ss f log t" "push_all collect log f xs = (r, f', log')"
  shows "(r = Inr Status_Continue \<and> run_state ss f' log' (t @ concat xs))
    \<or> (r = Inr Status_Stopped \<and> pending f' = [] \<and> [] \<notin> set log'
       \<and> (\<exists>us x vs m. xs = us @ x # vs \<and> (\<forall>i. \<not> stop_at ss (t @ concat us) i)
            \<and> first_match (t @ concat us @ x) ss None = Some m
            \<and> concat log' = take (m - stop_cut ss (t @ concat us) x m) (t @ concat us @ x)))"
  using assms
proof (induction xs arbitrary: f log t)
  case Nil
  then show ?case by simp
next
  case (Cons x xs)
  obtain r1 f1 log1 where p: "push collect log f x = (r1, f1, log1)" by (metis prod_cases3)
  show ?case
  proof (cases "r1 = Inr Status_Continue")
    case True
    with p Cons.prems have st: "run_state ss f1 log1 (t @ x)"
      by (intro run_state_push_Continue) auto
    moreover from True p Cons.prems(2) have "push_all collect log1 f1 xs = (r, f', log')" by simp
    ultimately have "(r = Inr Status_Continue \<and> run_state ss f' log' ((t @ x) @ concat xs))
      \<or> (r = Inr Status_Stopped \<and> pending f' = [] \<and> [] \<notin> set log'
         \<and> (\<exists>us y vs m. xs = us @ y # vs \<and> (\<forall>i. \<not> stop_at ss ((t @ x) @ concat us) i)
            \<and> first_match ((t @ x) @ concat us @ y) ss None = Some m
            \<and> concat log' = take (m - stop_cut ss ((t @ x) @ concat us) y m) ((t @ x) @ concat us @ y)))"
      by (rule Cons.IH)
    then show ?thesis
    proof (elim disjE conjE exE)
      fix us y vs m
      assume "r = Inr Status_Stopped" "pending f' = []" "[] \<notin> set log'" "xs = us @ y # vs"
        "\<forall>i. \<not> stop_at ss ((t @ x) @ concat us) i"
        "first_match ((t @ x) @ concat us @ y) ss None = Some m"
        "concat log' = take (m - stop_cut ss ((t @ x) @ concat us) y m) ((t @ x) @ concat us @ y)"
      then show ?thesis
        by (intro disjI2 conjI exI [of _ "x # us"] exI [of _ y] exI [of _ vs] exI [of _ m])
           simp_all
    qed simp
  next
    case False
    have "(r, f', log') = (r1, f1, log1)"
      using False p Cons.prems(2) by (auto split: sum.splits status.splits)
    with p False Cons.prems(1) push_collect_not_Continue [of ss f log t x r f' log']
    obtain m where *: "r = Inr Status_Stopped" "pending f' = []" "[] \<notin> set log'"
      "stop_at ss (t @ x) m" "\<forall>q<m. \<not> stop_at ss (t @ x) q"
      "concat log' = take (m - stop_cut ss t x m) (t @ x)"
      by auto
    moreover have "\<forall>i. \<not> stop_at ss t i"
      using Cons.prems(1) by (auto simp: run_state_def run_inv_def)
    moreover from * have "first_match (t @ x) ss None = Some m"
      using first_match_earliest by blast
    ultimately show ?thesis
      by (intro disjI2 conjI exI [of _ "[]"] exI [of _ x] exI [of _ xs] exI [of _ m])
         simp_all
  qed
qed

lemma stop_at_append: "stop_at ss t i \<Longrightarrow> stop_at ss (t @ x) i"
  by (auto simp: stop_at_def occurs_at_def intro: prefix_prefix)

lemma flush_collect_run:
  assumes "run_state ss f log t" "flush collect log f = (r, f', log')"
  shows "r = Inr ()" and "concat log' = take (length t - open_tail t) t" and "[] \<notin> set log'"
proof -
  have inv: "run_inv ss (concat log) (pending f)" and t: "concat log @ pending f = t"
    and log: "[] \<notin> set log"
    using assms(1) by (auto simp: run_state_def)
  have "\<forall>q. open_tail (concat log @ pending f @ q) = open_tail (pending f @ q)"
    using inv by (simp add: run_inv_def)
  from this [THEN spec, of "[]"] t have tail: "open_tail t = open_tail (pending f)" by simp
  have len: "open_tail (pending f) \<le> length (pending f)" by (rule open_tail_le_length)
  show "r = Inr ()" "[] \<notin> set log'"
    using assms(2) log
    by (auto simp: flush_def deliver_collect Let_def split: if_splits)
  have "concat log' = concat log @ take (length (pending f) - open_tail (pending f)) (pending f)"
    using assms(2) unfolding flush_def deliver_collect Let_def incomplete_utf8_tail_open_tail
    by (auto split: if_splits)
  also have "\<dots> = take (length t - open_tail t) t"
    unfolding tail using t [symmetric] len by simp
  finally show "concat log' = take (length t - open_tail t) t" .
qed

text \<open>
  C1. Over any list of token pieces and any stop strings, bytes and chunking arbitrary, the filter
  behaves as a search of the concatenated text. If no stop string occurs in it, every push asks for
  more; before the flush the client has exactly the text less what a batch search holds back (its
  unfinished UTF-8, or the longest suffix that may become a stop string), and after it the whole
  text but an unfinished UTF-8 sequence at its end. Otherwise the run stops at the first piece that
  completes a stop string, and the client has exactly the text in front of the earliest occurrence in
  what was generated so far, less the \<open>k\<close> bytes of an unfinished UTF-8 sequence that ends what was
  still to be sent there: \<open>k\<close> is the unfinished UTF-8 of the text in front of the occurrence, or 0.
\<close>

theorem stream_filter_is_batch_search:
  "case push_all collect [] (new_filter ss) pieces of (r, f, log) \<Rightarrow>
     if first_match (concat pieces) ss None = None
     then r = Inr Status_Continue
          \<and> concat log = take (length (concat pieces)
                - max (incomplete_utf8_tail (concat pieces)) (stop_prefix_holdback (concat pieces) ss))
              (concat pieces)
          \<and> (case flush collect log f of (r', f', log') \<Rightarrow>
               r' = Inr () \<and> [] \<notin> set log'
               \<and> concat log' = take (length (concat pieces) - incomplete_utf8_tail (concat pieces))
                                 (concat pieces))
     else r = Inr Status_Stopped \<and> [] \<notin> set log
          \<and> (\<exists>us x vs m k. pieces = us @ x # vs
               \<and> first_match (concat us) ss None = None
               \<and> first_match (concat us @ x) ss None = Some m
               \<and> k = incomplete_utf8_tail
                       (drop (length (concat us) - held_back ss (concat us)) (take m (concat us @ x)))
               \<and> k \<in> {0, incomplete_utf8_tail (take m (concat us @ x))} \<and> k \<le> 3
               \<and> concat log = take (m - k) (concat us @ x))"
proof -
  obtain r f log where run: "push_all collect [] (new_filter ss) pieces = (r, f, log)"
    by (metis prod_cases3)
  have cases: "(r = Inr Status_Continue \<and> run_state ss f log (concat pieces))
    \<or> (r = Inr Status_Stopped \<and> pending f = [] \<and> [] \<notin> set log
       \<and> (\<exists>us x vs m. pieces = us @ x # vs \<and> (\<forall>i. \<not> stop_at ss (concat us) i)
            \<and> first_match (concat us @ x) ss None = Some m
            \<and> concat log = take (m - stop_cut ss (concat us) x m) (concat us @ x)))"
    using push_all_collect [OF run_state_new run] by simp
  show ?thesis
  proof (cases "first_match (concat pieces) ss None = None")
    case True
    then have no: "\<not> stop_at ss (concat pieces) i" for i by (simp add: first_match_None)
    have "r \<noteq> Inr Status_Stopped"
    proof
      assume "r = Inr Status_Stopped"
      with cases obtain us x vs m where "pieces = us @ x # vs"
        "first_match (concat us @ x) ss None = Some m" by auto
      then have "stop_at ss (concat pieces) m"
        using first_match_earliest stop_at_append [of ss "concat us @ x" m "concat vs"] by auto
      with no show False by blast
    qed
    with cases have c: "r = Inr Status_Continue" "run_state ss f log (concat pieces)" by auto
    obtain r' f' log' where fl: "flush collect log f = (r', f', log')" by (metis prod_cases3)
    show ?thesis
      using True c(1) run_state_delivered [OF c(2)] flush_collect_run [OF c(2) fl]
      by (simp add: run fl incomplete_utf8_tail_open_tail held_back_def)
  next
    case False
    then obtain i where "stop_at ss (concat pieces) i" by (auto simp: first_match_None)
    then have "\<not> run_state ss f log (concat pieces)"
      by (auto simp: run_state_def run_inv_def)
    with cases obtain us x vs m where s: "r = Inr Status_Stopped" "[] \<notin> set log"
      "pieces = us @ x # vs" "\<forall>i. \<not> stop_at ss (concat us) i"
      "first_match (concat us @ x) ss None = Some m"
      "concat log = take (m - stop_cut ss (concat us) x m) (concat us @ x)"
      by blast
    have "first_match (concat us) ss None = None" using s(4) by (simp add: first_match_None)
    note found = s(3) this s(5) stop_cut_def [of ss "concat us" x m]
      stop_cut_cases [of ss "concat us" x m] stop_cut_le_3 [of ss "concat us" x m] s(6)
    show ?thesis
      unfolding run prod.case if_not_P [OF False]
      by (intro conjI s(1,2) exI) (rule found)+
  qed
qed

section \<open>What reaches the client\<close>

text \<open>
  The filter's part of a generation, for a client that never cancels: the pieces are pushed, and
  unless a stop string ended the run, the filter is flushed. The result says whether a stop string
  matched and which chunks were sent.
\<close>

definition run_filter :: "bytes list \<Rightarrow> bytes list \<Rightarrow> bool \<times> bytes list" where
  "run_filter ss pieces =
     (case push_all collect [] (new_filter ss) pieces of
        (Inr Status_Continue, f, log) \<Rightarrow> (False, snd (snd (flush collect log f)))
      | (r, f, log) \<Rightarrow> (True, log))"

lemma run_filter_cases:
  obtains (ended) f log where "push_all collect [] (new_filter ss) pieces = (Inr Status_Continue, f, log)"
      "run_state ss f log (concat pieces)"
      "run_filter ss pieces = (False, snd (snd (flush collect log f)))"
  | (stopped) f log us x vs m k where
      "push_all collect [] (new_filter ss) pieces = (Inr Status_Stopped, f, log)"
      "run_filter ss pieces = (True, log)" "[] \<notin> set log"
      "pieces = us @ x # vs" "\<forall>i. \<not> stop_at ss (concat us) i"
      "first_match (concat us @ x) ss None = Some m" "k \<le> 3"
      "concat log = take (m - k) (concat us @ x)"
proof -
  obtain r f log where run: "push_all collect [] (new_filter ss) pieces = (r, f, log)"
    by (metis prod_cases3)
  from push_all_collect [OF run_state_new run]
  consider (a) "r = Inr Status_Continue" "run_state ss f log (concat pieces)"
    | (b) us x vs m where "r = Inr Status_Stopped" "[] \<notin> set log"
      "pieces = us @ x # vs" "\<forall>i. \<not> stop_at ss (concat us) i"
      "first_match (concat us @ x) ss None = Some m"
      "concat log = take (m - stop_cut ss (concat us) x m) (concat us @ x)"
    by auto
  then show ?thesis
  proof cases
    case a
    with run show ?thesis by (intro ended) (auto simp: run_filter_def)
  next
    case b
    with run show ?thesis by (intro stopped) (auto simp: run_filter_def stop_cut_le_3)
  qed
qed

lemma stop_at_take: "stop_at ss (take n t) p \<Longrightarrow> stop_at ss t p \<and> p < n"
  using stop_at_append [of ss "take n t" p "drop n t"] stop_at_less [of ss "take n t" p] by auto

text \<open>
  C10. No stop string ever reaches the client, whole, however the text was cut into tokens: the
  concatenation of the chunks of a run contains none of the nonempty stop strings.
\<close>

theorem no_stop_string_delivered:
  "case run_filter ss pieces of (stopped, chunks) \<Rightarrow> first_match (concat chunks) ss None = None"
proof (cases ss pieces rule: run_filter_cases)
  case (ended f log)
  obtain r f' log' where fl: "flush collect log f = (r, f', log')" by (metis prod_cases3)
  have "\<not> stop_at ss (concat pieces) i" for i
    using ended(2) by (auto simp: run_state_def run_inv_def)
  then have "\<not> stop_at ss (concat log') i" for i
    using flush_collect_run [OF ended(2) fl] stop_at_take by metis
  then show ?thesis using ended fl by (simp add: first_match_None)
next
  case (stopped f log us x vs m k)
  have "\<not> stop_at ss (concat log) i" for i
  proof
    assume "stop_at ss (concat log) i"
    then have "stop_at ss (concat us @ x) i" "i < m"
      using stop_at_take stopped(8) by (metis less_diff_conv add_lessD1)+
    then show False using stopped(6) first_match_earliest by blast
  qed
  then show ?thesis using stopped by (simp add: first_match_None)
qed

text \<open>
  Chunks of well-formed text. When the text generated so far is a prefix of a UTF-8 text and the
  stop strings are UTF-8 (protobuf admits no others), every cut falls between two characters.
\<close>

lemma next_out_utf8:
  assumes whole_text: "utf8_text (buf @ rest)" and ss: "\<forall>s\<in>set ss. utf8_text s"
    and n: "next_out ss buf = (out, st, kept)"
  shows "utf8_text out" and "st = Status_Continue \<Longrightarrow> utf8_text (kept @ rest)"
    and "first_match buf ss None = Some m \<Longrightarrow> out = take m buf"
proof -
  consider (stop) i where "first_match buf ss None = Some i" "st = Status_Stopped"
      "out = take (i - open_tail (take i buf)) buf"
    | (go) h where "first_match buf ss None = None" "h = max (open_tail buf) (stop_prefix_holdback buf ss)"
      "out = take (length buf - h) buf" "kept = drop (length buf - h) buf"
    using n by (auto simp: next_out_def Let_def incomplete_utf8_tail_open_tail split: option.splits)
  then have "utf8_text out \<and> (st = Status_Continue \<longrightarrow> utf8_text (kept @ rest))
    \<and> (first_match buf ss None = Some m \<longrightarrow> out = take m buf)"
  proof cases
    case stop
    then obtain s where s: "s \<in> set ss" "s \<noteq> []" "prefix s (drop i buf)" "i \<le> length buf"
      using first_match_earliest by (auto simp: stop_at_def occurs_at_def)
    with ss have "\<not> is_cont (hd (drop i buf @ rest))"
      using utf8_text_hd [of s] by (auto simp: prefix_def)
    moreover have "utf8_text (take i buf @ drop i buf @ rest)"
      using whole_text by (metis append.assoc append_take_drop_id)
    ultimately have u: "utf8_text (take i buf)"
      using utf8_text_split by blast
    then have "out = take i buf" using stop open_tail_text by simp
    with stop u show ?thesis by simp
  next
    case go
    have whole: "out @ kept @ rest = buf @ rest" using go by simp
    have "utf8_text out \<and> utf8_text (kept @ rest)"
    proof (cases "stop_prefix_holdback buf ss \<le> open_tail buf")
      case True
      then have "utf8_text out"
        using open_tail_text_prefix [OF whole_text refl] go by (simp add: max_def)
      with whole_text whole show ?thesis using utf8_text_append by metis
    next
      case False
      then have h: "h = stop_prefix_holdback buf ss" "0 < h" using go by auto
      then obtain s where s: "s \<in> set ss" "h < length s" "kept = take h s"
        using stop_prefix_holdback_greatest(1) [of buf ss] go by (auto simp: begins_stop_def)
      from h(2) obtain k where "h = Suc k" using gr0_implies_Suc by blast
      with s(2,3) have "hd (kept @ rest) = hd s" by (cases s) simp_all
      moreover have "\<not> is_cont (hd s)" using s ss by (intro utf8_text_hd) auto
      ultimately show ?thesis
        using utf8_text_split [of out "kept @ rest"] whole_text whole by simp
    qed
    with go show ?thesis by simp
  qed
  then show "utf8_text out" "st = Status_Continue \<Longrightarrow> utf8_text (kept @ rest)"
    "first_match buf ss None = Some m \<Longrightarrow> out = take m buf"
    by auto
qed

lemma push_all_utf8:
  assumes "stops f = ss" "utf8_text (pending f @ concat xs @ rest)" "\<forall>s\<in>set ss. utf8_text s"
    and "\<forall>c\<in>set log. utf8_text c" and "push_all collect log f xs = (r, f', log')"
  shows "(\<forall>c\<in>set log'. utf8_text c) \<and> (r = Inr Status_Continue \<longrightarrow> utf8_text (pending f' @ rest))"
  using assms
proof (induction xs arbitrary: f log)
  case Nil
  then show ?case by simp
next
  case (Cons x xs)
  obtain out st kept where n: "next_out ss (pending f @ x) = (out, st, kept)" by (metis prod_cases3)
  have rest_text: "utf8_text ((pending f @ x) @ (concat xs @ rest))" using Cons.prems by simp
  note u = next_out_utf8 [OF rest_text Cons.prems(3) n]
  let ?f = "f\<lparr>pending := kept\<rparr>" and ?log = "if out = [] then log else log @ [out]"
  have p: "push collect log f x = (Inr st, ?f, ?log)"
    using n Cons.prems(1) by (simp add: push_next_out deliver_collect)
  have logs: "\<forall>c\<in>set ?log. utf8_text c" using Cons.prems(4) u(1) by auto
  show ?case
  proof (cases st)
    case Status_Continue
    with p Cons.prems u(2) logs show ?thesis
      by (intro Cons.IH [of ?f ?log]) auto
  qed (use p Cons.prems logs in auto)
qed

text \<open>
  C11. Whenever the generated text is a prefix of well-formed UTF-8 and the stop strings are UTF-8,
  every single chunk the client receives is well-formed UTF-8 of its own (no character is ever
  split), whatever the token boundaries.
\<close>

theorem chunks_are_utf8:
  assumes "utf8_text (concat pieces @ rest)" and "\<forall>s\<in>set ss. utf8_text s"
    and "run_filter ss pieces = (stopped, chunks)"
  shows "list_all (\<lambda>c. c \<noteq> [] \<and> utf8_text c) chunks"
proof (cases ss pieces rule: run_filter_cases)
  case (ended f log)
  obtain r f' log' where fl: "flush collect log f = (r, f', log')" by (metis prod_cases3)
  have "(\<forall>c\<in>set log. utf8_text c) \<and> utf8_text (pending f @ rest)"
    using push_all_utf8 [of "new_filter ss" ss pieces rest "[]"] assms ended(1)
    by (auto simp: new_filter_def)
  moreover have "set log' \<subseteq> set log \<union> {take (length (pending f) - open_tail (pending f)) (pending f)}"
    using fl by (auto simp: flush_def deliver_collect Let_def incomplete_utf8_tail_open_tail
        split: if_splits)
  ultimately have "\<forall>c\<in>set log'. utf8_text c"
    using open_tail_text_prefix [of "pending f @ rest" "pending f" rest] by auto
  moreover have "[] \<notin> set log'" using flush_collect_run [OF ended(2) fl] by simp
  ultimately show ?thesis using assms(3) ended(3) fl by (auto simp: list_all_iff)
next
  case (stopped f log us x vs m k)
  then have "\<forall>c\<in>set log. utf8_text c"
    using push_all_utf8 [of "new_filter ss" ss pieces rest "[]"] assms
    by (auto simp: new_filter_def)
  with stopped assms(3) show ?thesis by (auto simp: list_all_iff)
qed

theorem chunks_are_utf8_witness:
  "run_filter [''END''] [''a'', [CHR 0xE2], [CHR 0x82, CHR 0xAC], ''E'', ''N!'']
     = (False, [''a'', [CHR 0xE2, CHR 0x82, CHR 0xAC], ''EN!''])
   \<and> list_all (\<lambda>c. c \<noteq> [] \<and> utf8_text c) [''a'', [CHR 0xE2, CHR 0x82, CHR 0xAC], ''EN!'']"
proof -
  let ?pieces = "[''a'', [CHR 0xE2], [CHR 0x82, CHR 0xAC], ''E'', ''N!'']"
  let ?chunks = "[''a'', [CHR 0xE2, CHR 0x82, CHR 0xAC], ''EN!'']"
  have wf: "utf8_text (concat ?pieces @ [])" by code_simp
  have ss: "\<forall>s\<in>set [''END'']. utf8_text s" by code_simp
  have run: "run_filter [''END''] ?pieces = (False, ?chunks)" by code_simp
  show ?thesis using chunks_are_utf8 [OF wf ss run] run by blast
qed

section \<open>Receivers\<close>

text \<open>
  The contract between the filter and what receives its chunks. A receiver is \<open>live\<close> until it
  declines a chunk or fails; only a live one is called, and only with nonempty text. The relation
  \<open>grows\<close> is what the owner of the receiver wants to know about its state after any number of calls.
\<close>

locale receiver =
  fixes call :: "'w \<Rightarrow> bytes \<Rightarrow> (exn + bool) \<times> 'w"
    and grows :: "'w \<Rightarrow> 'w \<Rightarrow> bool"
    and live :: "'w \<Rightarrow> bool"
  assumes grows_refl: "grows w w"
    and grows_trans: "grows u v \<Longrightarrow> grows v w \<Longrightarrow> grows u w"
    and grows_call: "live w \<Longrightarrow> t \<noteq> [] \<Longrightarrow> call w t = (r, w') \<Longrightarrow> grows w w'"
    and live_call: "live w \<Longrightarrow> t \<noteq> [] \<Longrightarrow> call w t = (Inr True, w') \<Longrightarrow> live w'"
begin

lemma receiver_deliver:
  "live w \<Longrightarrow> deliver (Some call) w t = (r, w') \<Longrightarrow> grows w w' \<and> (r = Inr True \<longrightarrow> live w')"
  using grows_refl grows_call live_call by (auto simp: deliver_def split: if_splits)

lemma receiver_push:
  assumes "live w" "push (Some call) w f x = (r, f', w')"
  shows "grows w w' \<and> (r = Inr Status_Continue \<longrightarrow> live w')"
proof -
  obtain out st kept where n: "next_out (stops f) (pending f @ x) = (out, st, kept)"
    by (metis prod_cases3)
  obtain d w1 where d: "deliver (Some call) w out = (d, w1)" by (metis prod.exhaust)
  with n assms(2) receiver_deliver [OF assms(1) d] show ?thesis
    by (auto simp: push_next_out split: sum.splits if_splits)
qed

lemma receiver_flush:
  assumes "live w" "flush (Some call) w f = (r, f', w')"
  shows "grows w w'"
proof (cases "pending f = []")
  case True
  with assms grows_refl show ?thesis by (simp add: flush_def)
next
  case False
  obtain d w1 where d: "deliver (Some call) w
      (take (length (pending f) - incomplete_utf8_tail (pending f)) (pending f)) = (d, w1)"
    by (metis prod.exhaust)
  with False assms(2) receiver_deliver [OF assms(1) d] show ?thesis
    by (auto simp: flush_def Let_def split: sum.splits)
qed

lemma receiver_push_all:
  "live w \<Longrightarrow> push_all (Some call) w f xs = (r, f', w') \<Longrightarrow>
     grows w w' \<and> (r = Inr Status_Continue \<longrightarrow> live w')"
proof (induction xs arbitrary: w f)
  case Nil
  then show ?case using grows_refl by simp
next
  case (Cons x xs)
  obtain r1 f1 w1 where p: "push (Some call) w f x = (r1, f1, w1)" by (metis prod_cases3)
  note p1 = receiver_push [OF Cons.prems(1) p]
  show ?case
  proof (cases "r1 = Inr Status_Continue")
    case True
    with Cons.prems(2) p have "push_all (Some call) w1 f1 xs = (r, f', w')" by simp
    with Cons.IH [of w1 f1] p1 True grows_trans show ?thesis by blast
  next
    case False
    with Cons.prems(2) p p1 show ?thesis by (auto split: sum.splits status.splits)
  qed
qed

end

text \<open>A receiver that is never in a state that may not be called.\<close>

locale chunk_sink =
  fixes call :: "'w \<Rightarrow> bytes \<Rightarrow> (exn + bool) \<times> 'w"
    and grows :: "'w \<Rightarrow> 'w \<Rightarrow> bool"
  assumes sink_refl: "grows w w"
    and sink_trans: "grows u v \<Longrightarrow> grows v w \<Longrightarrow> grows u w"
    and sink_call: "t \<noteq> [] \<Longrightarrow> grows w (snd (call w t))"

sublocale chunk_sink \<subseteq> receiver call grows "\<lambda>_. True"
proof unfold_locales
  show "grows w w" for w by (rule sink_refl)
  show "grows u v \<Longrightarrow> grows v w \<Longrightarrow> grows u w" for u v w by (rule sink_trans)
  show "t \<noteq> [] \<Longrightarrow> call w t = (r, w') \<Longrightarrow> grows w w'" for w t r w'
    using sink_call [of t w] by simp
qed

interpretation collected: chunk_sink "\<lambda>log t. (Inr True, log @ [t])"
  "\<lambda>log log'. \<exists>cs. [] \<notin> set cs \<and> log' = log @ cs"
proof unfold_locales
  fix u v w :: "bytes list"
  assume "\<exists>cs. [] \<notin> set cs \<and> v = u @ cs" "\<exists>cs. [] \<notin> set cs \<and> w = v @ cs"
  then show "\<exists>cs. [] \<notin> set cs \<and> w = u @ cs"
    by (metis Un_iff append.assoc set_append)
qed (auto intro: exI [of _ "[]"])

end
