(* ===== verification/Floats.thy ===== *)
theory Floats
  imports Prelude Complex_Main
begin

text \<open>
  The floating-point values the sources compute with: \<open>float\<close> (binary32) and \<open>double\<close> (binary64)
  of IEEE 754, with round-to-nearest-even written out over the rationals. A value is not a number,
  an infinity, or a finite rational; the two zeros are one value here, which no comparison of the
  program tells apart.
\<close>

section \<open>Values and comparisons\<close>

datatype flt = NaN | PosInf | NegInf | Fin rat

text \<open>\<open>a < b\<close> and \<open>a <= b\<close>: false whenever one side is not a number.\<close>

fun flt_lt :: "flt \<Rightarrow> flt \<Rightarrow> bool" where
  "flt_lt (Fin a) (Fin b) = (a < b)"
| "flt_lt NegInf (Fin b) = True"
| "flt_lt (Fin a) PosInf = True"
| "flt_lt NegInf PosInf = True"
| "flt_lt _ _ = False"

definition flt_le :: "flt \<Rightarrow> flt \<Rightarrow> bool" where
  "flt_le a b \<longleftrightarrow> a \<noteq> NaN \<and> b \<noteq> NaN \<and> \<not> flt_lt b a"

fun is_finite :: "flt \<Rightarrow> bool" where
  "is_finite (Fin _) = True"
| "is_finite _ = False"

lemma flt_le_Fin [simp]: "flt_le (Fin a) (Fin b) \<longleftrightarrow> a \<le> b"
  by (auto simp: flt_le_def)

lemma flt_lt_irrefl [simp]: "\<not> flt_lt a a"
  by (cases a) auto

lemma flt_lt_trans: "flt_lt a b \<Longrightarrow> flt_lt b c \<Longrightarrow> flt_lt a c"
  by (cases a; cases b; cases c) auto

lemma flt_lt_linear: "a \<noteq> NaN \<Longrightarrow> b \<noteq> NaN \<Longrightarrow> flt_lt a b \<or> a = b \<or> flt_lt b a"
  by (cases a; cases b) auto

text \<open>
  A total order for the library's sorting functions: the order of the comparisons, with the value
  that is not a number below all others. The program's own comparisons are \<open>flt_lt\<close> and \<open>flt_le\<close>.
\<close>

instantiation flt :: linorder
begin

definition less_flt :: "flt \<Rightarrow> flt \<Rightarrow> bool" where
  "less_flt a b \<longleftrightarrow> (if a = NaN then b \<noteq> NaN else flt_lt a b)"

definition less_eq_flt :: "flt \<Rightarrow> flt \<Rightarrow> bool" where
  "less_eq_flt a b \<longleftrightarrow> a = b \<or> a < b"

instance
proof
  fix a b c :: flt
  show "(a < b) = (a \<le> b \<and> \<not> b \<le> a)"
    by (cases a; cases b) (auto simp: less_flt_def less_eq_flt_def)
  show "a \<le> a" by (simp add: less_eq_flt_def)
  show "a \<le> b \<Longrightarrow> b \<le> c \<Longrightarrow> a \<le> c"
    by (cases a; cases b; cases c) (auto simp: less_flt_def less_eq_flt_def)
  show "a \<le> b \<Longrightarrow> b \<le> a \<Longrightarrow> a = b"
    by (cases a; cases b) (auto simp: less_flt_def less_eq_flt_def)
  show "a \<le> b \<or> b \<le> a"
    by (cases a; cases b) (auto simp: less_flt_def less_eq_flt_def)
qed

end

lemma flt_lt_less: "a \<noteq> NaN \<Longrightarrow> flt_lt a b \<longleftrightarrow> a < b"
  by (simp add: less_flt_def)

lemma flt_le_less_eq: "a \<noteq> NaN \<Longrightarrow> b \<noteq> NaN \<Longrightarrow> flt_le a b \<longleftrightarrow> a \<le> b"
  using flt_lt_linear [of a b] by (auto simp: flt_le_def less_eq_flt_def flt_lt_less [symmetric] dest: flt_lt_trans)

lemma NegInf_least: "b \<noteq> NaN \<Longrightarrow> NegInf \<le> b"
  by (cases b) (auto simp: less_eq_flt_def less_flt_def)

section \<open>Rounding\<close>

definition pow2 :: "int \<Rightarrow> rat" where
  "pow2 k = (if 0 \<le> k then 2 ^ nat k else 1 / 2 ^ nat (- k))"

lemma pow2_pos [simp]: "0 < pow2 k"
  by (simp add: pow2_def)

lemma pow2_nonzero [simp]: "pow2 k \<noteq> 0"
  by (simp add: pow2_def)

lemma abs_pow2 [simp]: "\<bar>pow2 k\<bar> = pow2 k"
  using pow2_pos [of k] by linarith

lemma pow2_powi: "pow2 k = 2 powi k"
  by (simp add: pow2_def power_int_def field_simps)

lemma pow2_mono: "j \<le> k \<Longrightarrow> pow2 j \<le> pow2 k"
  unfolding pow2_powi by (intro power_int_increasing) auto

lemma pow2_diff: "pow2 (j - k) = pow2 j / pow2 k"
  unfolding pow2_powi by (simp add: power_int_diff)

lemma pow2_nat: "pow2 (int n) = 2 ^ n"
  by (simp add: pow2_def)

text \<open>The number of binary digits.\<close>

function bit_length :: "int \<Rightarrow> nat" where
  "bit_length n = (if n \<le> 0 then 0 else Suc (bit_length (n div 2)))"
  by pat_completeness auto
termination by (relation "measure nat") auto

declare bit_length.simps [simp del]

lemma bit_length_bounds: "0 < n \<Longrightarrow> 2 ^ (bit_length n - 1) \<le> n \<and> n < 2 ^ bit_length n"
proof (induction n rule: bit_length.induct)
  case (1 n)
  then have n: "bit_length n = Suc (bit_length (n div 2))" by (subst bit_length.simps) simp
  show ?case
  proof (cases "n div 2 \<le> 0")
    case True
    with 1 have "n = 1" by linarith
    then show ?thesis using n by (simp add: bit_length.simps [of "0"])
  next
    case False
    with 1 have IH: "2 ^ (bit_length (n div 2) - 1) \<le> n div 2" "n div 2 < 2 ^ bit_length (n div 2)"
      by auto
    obtain k where k: "bit_length (n div 2) = Suc k"
      using False bit_length.simps [of "n div 2"] by simp
    show ?thesis using IH unfolding n k by auto
  qed
qed

text \<open>The exponent \<open>k\<close> with \<open>2 ^ k \<le> x < 2 ^ (k + 1)\<close>, for positive \<open>x\<close>.\<close>

definition rat_log2 :: "rat \<Rightarrow> int" where
  "rat_log2 x =
     (case quotient_of x of
        (a, b) \<Rightarrow>
          (let k = int (bit_length a) - int (bit_length b)
           in if pow2 k \<le> x then k else k - 1))"

lemma pow2_rat_log2_le:
  assumes "0 < x"
  shows "pow2 (rat_log2 x) \<le> x"
proof -
  obtain a b where q: "quotient_of x = (a, b)" by (cases "quotient_of x")
  then have b: "0 < b" by (rule quotient_of_denom_pos)
  have x: "x = of_int a / of_int b" using q by (rule quotient_of_div)
  with assms b have a: "0 < a" by (simp add: zero_less_divide_iff)
  let ?la = "bit_length a" and ?lb = "bit_length b"
  have "2 ^ (?la - 1) \<le> a" "b < 2 ^ ?lb"
    using bit_length_bounds [of a] bit_length_bounds [of b] a b by simp_all
  then have "(of_int (2 ^ (?la - 1)) :: rat) \<le> of_int a" "(of_int b :: rat) \<le> of_int (2 ^ ?lb)"
    by (simp_all only: of_int_le_iff less_imp_le)
  then have "2 ^ (?la - 1) / 2 ^ ?lb \<le> x"
    unfolding x using a b by (intro frac_le) auto
  moreover have "1 \<le> ?la" using a by (subst bit_length.simps) auto
  ultimately have "pow2 (int ?la - int ?lb - 1) \<le> x"
    using pow2_diff [of "int (?la - 1)" "int ?lb"] pow2_nat [of "?la - 1"]
    by (simp add: pow2_nat of_nat_diff algebra_simps)
  with q show ?thesis by (auto simp: rat_log2_def Let_def)
qed

text \<open>The nearest integer, ties to even.\<close>

definition round_even :: "rat \<Rightarrow> int" where
  "round_even x =
     (let f = \<lfloor>x\<rfloor>; r = x - of_int f
      in if r < 1 / 2 then f else if 1 / 2 < r then f + 1
         else if even f then f else f + 1)"

lemma round_even_ge: "\<lfloor>x\<rfloor> \<le> round_even x"
  by (auto simp: round_even_def Let_def)

lemma round_even_of_int [simp]: "round_even (of_int n) = n"
  by (simp add: round_even_def)

text \<open>
  Rounding to \<open>p\<close> binary digits with least exponent \<open>emin\<close>; values of magnitude \<open>2 ^ emax\<close> and more
  become infinite.
\<close>

definition round_flt :: "nat \<Rightarrow> int \<Rightarrow> int \<Rightarrow> rat \<Rightarrow> flt" where
  "round_flt p emin emax x =
     (if x = 0 then Fin 0
      else
        (let e = max (rat_log2 \<bar>x\<bar> - (int p - 1)) emin;
             y = of_int (round_even (x / pow2 e)) * pow2 e
         in if pow2 emax \<le> \<bar>y\<bar> then (if 0 < y then PosInf else NegInf) else Fin y))"

definition f32 :: "rat \<Rightarrow> flt" where
  "f32 = round_flt 24 (-149) 128"

lemma f32_0 [simp]: "f32 0 = Fin 0"
  by (simp add: f32_def round_flt_def)

definition f64 :: "rat \<Rightarrow> flt" where
  "f64 = round_flt 53 (-1074) 1024"

lemma f64_0 [simp]: "f64 0 = Fin 0"
  by (simp add: f64_def round_flt_def)

lemma round_flt_at_least:
  assumes "pow2 emin \<le> x" "1 \<le> p"
  shows "round_flt p emin emax x = PosInf \<or> (\<exists>y. round_flt p emin emax x = Fin y \<and> pow2 emin \<le> y)"
proof -
  have x: "0 < x" using assms(1) pow2_pos less_le_trans by blast
  define e where "e = max (rat_log2 x - (int p - 1)) emin"
  have "pow2 e \<le> x"
  proof (cases "rat_log2 x - (int p - 1) \<le> emin")
    case True
    with assms show ?thesis by (simp add: e_def)
  next
    case False
    then have "e \<le> rat_log2 x" using assms(2) by (simp add: e_def)
    then show ?thesis using pow2_mono pow2_rat_log2_le [OF x] order_trans by blast
  qed
  then have "1 \<le> x / pow2 e" by simp
  then have "1 \<le> \<lfloor>x / pow2 e\<rfloor>" by simp
  then have "1 \<le> round_even (x / pow2 e)" using round_even_ge order_trans by blast
  then have "1 * pow2 e \<le> of_int (round_even (x / pow2 e)) * pow2 e"
    using less_imp_le [OF pow2_pos] by (intro mult_right_mono) auto
  moreover have "pow2 emin \<le> pow2 e" by (intro pow2_mono) (simp add: e_def)
  ultimately have "pow2 emin \<le> of_int (round_even (x / pow2 e)) * pow2 e" by linarith
  moreover from this have "0 < of_int (round_even (x / pow2 e)) * pow2 e"
    using pow2_pos less_le_trans by blast
  ultimately show ?thesis using x by (auto simp: round_flt_def Let_def e_def)
qed

lemma round_flt_positive:
  assumes "pow2 emin \<le> x" "1 \<le> p"
  shows "flt_lt (Fin 0) (round_flt p emin emax x)"
  using round_flt_at_least [OF assms, of emax]
proof
  assume "\<exists>y. round_flt p emin emax x = Fin y \<and> pow2 emin \<le> y"
  then obtain y where y: "round_flt p emin emax x = Fin y" "pow2 emin \<le> y" by blast
  from y(2) have "0 < y" using pow2_pos less_le_trans by blast
  with y(1) show ?thesis by simp
qed simp

lemma round_flt_grid:
  assumes "round_flt p emin emax x = Fin y" "0 < y"
  shows "pow2 emin \<le> y"
proof -
  define e where "e = max (rat_log2 \<bar>x\<bar> - (int p - 1)) emin"
  from assms have y: "y = of_int (round_even (x / pow2 e)) * pow2 e"
    by (auto simp: round_flt_def Let_def e_def split: if_splits)
  with assms(2) have "0 < round_even (x / pow2 e)"
    using pow2_pos [of e] by (auto simp: zero_less_mult_iff)
  then have "1 * pow2 e \<le> of_int (round_even (x / pow2 e)) * pow2 e"
    using less_imp_le [OF pow2_pos] by (intro mult_right_mono) auto
  moreover have "pow2 emin \<le> pow2 e" by (intro pow2_mono) (simp add: e_def)
  ultimately show ?thesis using y by linarith
qed

text \<open>Small integers are values.\<close>

lemma rat_log2_less: "0 < x \<Longrightarrow> x < pow2 k \<Longrightarrow> rat_log2 x < k"
  using pow2_rat_log2_le [of x] pow2_mono [of k "rat_log2 x"] by (meson le_less_trans not_le)

lemma round_flt_of_int:
  assumes "\<bar>n\<bar> < 2 ^ p" "emin \<le> 0" "int p \<le> emax"
  shows "round_flt p emin emax (of_int n) = Fin (of_int n)"
proof (cases "n = 0")
  case True
  then show ?thesis by (simp add: round_flt_def)
next
  case False
  define e where "e = max (rat_log2 \<bar>of_int n\<bar> - (int p - 1)) emin"
  have "of_int \<bar>n\<bar> < (of_int (2 ^ p) :: rat)" using assms(1) of_int_less_iff by blast
  then have small: "\<bar>of_int n :: rat\<bar> < pow2 (int p)" by (simp add: pow2_nat)
  with False have "rat_log2 \<bar>of_int n\<bar> < int p" by (intro rat_log2_less) auto
  then have e: "e \<le> 0" using assms(2) by (simp add: e_def)
  then have "of_int n / pow2 e = (of_int (n * 2 ^ nat (- e)) :: rat)"
    by (cases "e = 0") (auto simp: pow2_def)
  then have "round_even (of_int n / pow2 e) = n * 2 ^ nat (- e)" by (metis round_even_of_int)
  then have "of_int (round_even (of_int n / pow2 e)) * pow2 e = (of_int n :: rat)"
    using e by (cases "e = 0") (auto simp: pow2_def)
  moreover have "\<not> pow2 emax \<le> \<bar>of_int n :: rat\<bar>"
    using small pow2_mono [OF assms(3)] by linarith
  ultimately show ?thesis using False by (simp add: round_flt_def Let_def flip: e_def)
qed

lemma f32_of_int: "\<bar>n\<bar> < 2 ^ 24 \<Longrightarrow> f32 (of_int n) = Fin (of_int n)"
  unfolding f32_def by (rule round_flt_of_int) auto

lemma f64_of_int: "\<bar>n\<bar> < 2 ^ 53 \<Longrightarrow> f64 (of_int n) = Fin (of_int n)"
  unfolding f64_def by (rule round_flt_of_int) auto

text \<open>Sums of single-precision values.\<close>

fun add32 :: "flt \<Rightarrow> flt \<Rightarrow> flt" where
  "add32 (Fin a) (Fin b) = f32 (a + b)"
| "add32 NaN _ = NaN"
| "add32 _ NaN = NaN"
| "add32 PosInf NegInf = NaN"
| "add32 NegInf PosInf = NaN"
| "add32 PosInf _ = PosInf"
| "add32 NegInf _ = NegInf"
| "add32 _ PosInf = PosInf"
| "add32 _ NegInf = NegInf"

section \<open>Rounding errors\<close>

lemma round_even_near: "\<bar>of_int (round_even x) - x\<bar> \<le> 1 / 2"
proof -
  have "of_int \<lfloor>x\<rfloor> \<le> x" "x < of_int \<lfloor>x\<rfloor> + 1" by linarith+
  then show ?thesis by (auto simp: round_even_def Let_def abs_le_iff)
qed

text \<open>Rounding moves a value by at most half a unit in its last place.\<close>

lemma round_flt_error:
  assumes "\<bar>x\<bar> \<le> pow2 (emax - 1)" "2 \<le> p" "emin + 2 \<le> emax"
  shows "\<exists>y. round_flt p emin emax x = Fin y \<and> \<bar>y - x\<bar> \<le> pow2 (- int p) * \<bar>x\<bar> + pow2 (emin - 1)
    \<and> (pow2 (emin + int p - 1) \<le> \<bar>x\<bar> \<longrightarrow> \<bar>y - x\<bar> \<le> pow2 (- int p) * \<bar>x\<bar>)"
proof (cases "x = 0")
  case True
  then show ?thesis using less_imp_le [OF pow2_pos] by (simp add: round_flt_def)
next
  case False
  define l where "l = rat_log2 \<bar>x\<bar>"
  define e where "e = max (l - (int p - 1)) emin"
  define y where "y = of_int (round_even (x / pow2 e)) * pow2 e"
  have l: "pow2 l \<le> \<bar>x\<bar>" using pow2_rat_log2_le [of "\<bar>x\<bar>"] False by (simp add: l_def)
  have "\<bar>of_int (round_even (x / pow2 e)) - x / pow2 e\<bar> * pow2 e \<le> 1 / 2 * pow2 e"
    using round_even_near less_imp_le [OF pow2_pos] by (intro mult_right_mono)
  moreover have "y - x = (of_int (round_even (x / pow2 e)) - x / pow2 e) * pow2 e"
    by (simp add: y_def left_diff_distrib)
  ultimately have err: "\<bar>y - x\<bar> \<le> pow2 e / 2" by (simp add: abs_mult)
  have "pow2 e / 2 = pow2 (e - 1)" by (simp add: pow2_diff [of e 1] pow2_def [of 1])
  with err have err': "\<bar>y - x\<bar> \<le> pow2 (e - 1)" by (simp only:)
  have scale: "pow2 (k - int p) = pow2 (- int p) * pow2 k" for k
    using pow2_diff [of k "int p"] pow2_diff [of 0 "int p"] by (simp add: pow2_def [of 0])
  have le: "pow2 (k - int p) \<le> pow2 (- int p) * \<bar>x\<bar>" if "pow2 k \<le> \<bar>x\<bar>" for k
    unfolding scale using that less_imp_le [OF pow2_pos] by (intro mult_left_mono)
  consider "e = emin" | "e - 1 = l - int p" 
    by (cases "l - (int p - 1) \<le> emin") (simp_all add: e_def)
  then have both: "\<bar>y - x\<bar> \<le> pow2 (emin - 1) \<or> \<bar>y - x\<bar> \<le> pow2 (- int p) * \<bar>x\<bar>"
    using err' le [OF l] by cases auto
  have near: "\<bar>y - x\<bar> \<le> pow2 (- int p) * \<bar>x\<bar> + pow2 (emin - 1)"
    using both
  proof
    assume "\<bar>y - x\<bar> \<le> pow2 (emin - 1)"
    then show ?thesis using less_imp_le [OF pow2_pos] by (intro add_increasing) simp_all
  next
    assume "\<bar>y - x\<bar> \<le> pow2 (- int p) * \<bar>x\<bar>"
    then show ?thesis using less_imp_le [OF pow2_pos] by (intro add_increasing2)
  qed
  have normal: "\<bar>y - x\<bar> \<le> pow2 (- int p) * \<bar>x\<bar>" if big: "pow2 (emin + int p - 1) \<le> \<bar>x\<bar>"
    using both
  proof
    assume "\<bar>y - x\<bar> \<le> pow2 (emin - 1)"
    also have "emin - 1 = emin + int p - 1 - int p" by simp
    finally show ?thesis using le [OF big] by simp
  qed
  have fourth: "pow2 (- int p) \<le> 1 / 4" using pow2_mono [of "- int p" "- 2"] assms(2) by (simp add: pow2_def [of "- 2"])
  have "pow2 (- int p) * \<bar>x\<bar> \<le> 1 / 4 * \<bar>x\<bar>" using fourth by (intro mult_right_mono) auto
  moreover have "pow2 (emin - 1) \<le> pow2 (emax - 3)" using assms(3) by (intro pow2_mono) simp
  moreover have "pow2 (emax - 1) = pow2 emax / 2" "pow2 (emax - 3) = pow2 emax / 8"
    by (simp_all add: pow2_diff pow2_def [of 1] pow2_def [of 3])
  moreover have "\<bar>y\<bar> \<le> \<bar>x\<bar> + \<bar>y - x\<bar>" by simp
  ultimately have "\<bar>y\<bar> < pow2 emax"
    using near assms(1) pow2_pos [of emax] by linarith
  then have "round_flt p emin emax x = Fin y"
    using False by (simp add: round_flt_def Let_def y_def e_def l_def)
  then show ?thesis using near normal by blast
qed

text \<open>The relative error of a \<open>double\<close> operation, away from the ends of its range, and of a \<open>float\<close>.\<close>

lemma f64_near:
  assumes "x = 0 \<or> pow2 (- 1000) \<le> \<bar>x\<bar>" "\<bar>x\<bar> \<le> pow2 1000"
  shows "\<exists>y. f64 x = Fin y \<and> \<bar>y - x\<bar> \<le> pow2 (- 53) * \<bar>x\<bar>"
proof (cases "x = 0")
  case False
  have "\<bar>x\<bar> \<le> pow2 (1024 - 1)" using assms(2) pow2_mono [of 1000 "1024 - 1"] by simp
  moreover have "pow2 (- 1074 + int 53 - 1) \<le> \<bar>x\<bar>"
    using assms(1) False pow2_mono [of "- 1074 + int 53 - 1" "- 1000"] by simp
  ultimately show ?thesis
    using round_flt_error [of x 1024 53 "- 1074"] unfolding f64_def by auto
qed simp

lemma f32_near:
  assumes "\<bar>x\<bar> \<le> pow2 127"
  shows "\<exists>y. f32 x = Fin y \<and> \<bar>y - x\<bar> \<le> pow2 (- 24) * \<bar>x\<bar> + pow2 (- 150)"
  using round_flt_error [of x 128 24 "- 149"] assms unfolding f32_def by auto

end
