(* ===== verification/Engine_Types.thy ===== *)
theory Engine_Types
  imports Floats
begin

text \<open>
  The plain data of src/engine.h and src/chat_format.h: configuration, model metadata, sampling
  parameters, results, tools and messages. Field names carry a short prefix for their struct.
  An \<open>int32_t\<close> that is only stored and compared is an \<open>int\<close>; the casts from sizes are \<open>i32\<close>.
\<close>

section \<open>Integers\<close>

type_synonym u32 = "32 word"
type_synonym u64 = "64 word"

text \<open>\<open>static_cast<int32_t>\<close> of a size: the low 32 bits, read in two's complement.\<close>

definition i32 :: "nat \<Rightarrow> int" where
  "i32 n = sint (word_of_nat n :: 32 word)"

lemma i32_small: "n < 2 ^ 31 \<Longrightarrow> i32 n = int n"
  using sint_sbintrunc' [where 'a = 32, of "int n"]
  by (simp add: i32_def signed_take_bit_int_eq_self)

text \<open>
  A sum accumulated in an \<open>int32_t\<close>. Overflow is undefined in C++; it is written out as the wrap of the
  hardware, and the properties that speak of such a sum say when it does not happen.
\<close>

definition add_i32 :: "int \<Rightarrow> int \<Rightarrow> int" where
  "add_i32 a b = sint (word_of_int (a + b) :: 32 word)"

lemma add_i32_small: "0 \<le> a \<Longrightarrow> 0 \<le> b \<Longrightarrow> a + b < 2 ^ 31 \<Longrightarrow> add_i32 a b = a + b"
  using sint_sbintrunc' [where 'a = 32, of "a + b"]
  by (simp add: add_i32_def signed_take_bit_int_eq_self)

lemma sum_i32:
  "0 \<le> n \<Longrightarrow> n + (\<Sum>x\<leftarrow>xs. int (f x)) < 2 ^ 31 \<Longrightarrow>
     foldl (\<lambda>n x. add_i32 n (i32 (f x))) n xs = n + (\<Sum>x\<leftarrow>xs. int (f x))"
proof (induction xs arbitrary: n)
  case (Cons x xs)
  have "0 \<le> (\<Sum>x\<leftarrow>xs. int (f x))" by (rule sum_list_nonneg) auto
  with Cons.prems have "i32 (f x) = int (f x)" "add_i32 n (int (f x)) = n + int (f x)"
    by (auto intro!: i32_small add_i32_small)
  with Cons.IH [of "n + int (f x)"] Cons.prems show ?case by simp
qed simp

section \<open>src/engine.h\<close>

record engine_config =
  cfg_model_path :: bytes
  cfg_n_ctx :: u32
  cfg_n_gpu_layers :: int
  cfg_n_threads :: int
  cfg_devices :: "bytes list"
  cfg_tensor_split :: "flt list"

definition default_config :: engine_config where
  "default_config =
     \<lparr>cfg_model_path = [], cfg_n_ctx = 4096, cfg_n_gpu_layers = 99, cfg_n_threads = 0,
      cfg_devices = [], cfg_tensor_split = []\<rparr>"

record device_info =
  dev_name :: bytes
  dev_description :: bytes
  dev_type :: bytes
  dev_memory_free :: u64
  dev_memory_total :: u64

record model_info =
  mi_description :: bytes
  mi_n_params :: u64
  mi_size_bytes :: u64
  mi_n_ctx :: u32
  mi_n_ctx_train :: u32
  mi_has_chat_template :: bool
  mi_n_embd :: u32
  mi_serves_embeddings :: bool

definition default_model_info :: model_info where
  "default_model_info =
     \<lparr>mi_description = [], mi_n_params = 0, mi_size_bytes = 0, mi_n_ctx = 0, mi_n_ctx_train = 0,
      mi_has_chat_template = False, mi_n_embd = 0, mi_serves_embeddings = False\<rparr>"

record chat_template_info =
  tmpl_source :: bytes
  tmpl_bos_token :: bytes
  tmpl_eos_token :: bytes

record grammar_spec =
  gs_grammar :: bytes
  gs_lazy :: bool
  gs_trigger_patterns :: "bytes list"
  gs_trigger_words :: "bytes list"
  gs_prefill :: bytes

definition no_grammar :: grammar_spec where
  "no_grammar =
     \<lparr>gs_grammar = [], gs_lazy = False, gs_trigger_patterns = [], gs_trigger_words = [],
      gs_prefill = []\<rparr>"

record sampling_params =
  sp_temperature :: flt
  sp_top_k :: int
  sp_top_p :: flt
  sp_min_p :: flt
  sp_seed :: "u32 option"
  sp_max_tokens :: int
  sp_stop :: "bytes list"
  sp_grammar :: grammar_spec
  sp_preserved_tokens :: "bytes list"

text \<open>The initialisers of \<open>SamplingParams\<close>: \<open>0.8f\<close>, \<open>0.95f\<close> and \<open>0.05f\<close> are the nearest floats.\<close>

definition default_sampling :: sampling_params where
  "default_sampling =
     \<lparr>sp_temperature = f32 (8 / 10), sp_top_k = 40, sp_top_p = f32 (95 / 100),
      sp_min_p = f32 (5 / 100), sp_seed = None, sp_max_tokens = - 1, sp_stop = [],
      sp_grammar = no_grammar, sp_preserved_tokens = []\<rparr>"

datatype finish_reason = Eog | Length | Stop | Cancelled

record generate_stats =
  st_prompt_tokens :: int
  st_completion_tokens :: int
  st_prompt_ms :: flt
  st_completion_ms :: flt
  st_cached_prompt_tokens :: int

definition default_stats :: generate_stats where
  "default_stats =
     \<lparr>st_prompt_tokens = 0, st_completion_tokens = 0, st_prompt_ms = Fin 0,
      st_completion_ms = Fin 0, st_cached_prompt_tokens = 0\<rparr>"

record generate_result =
  res_reason :: finish_reason
  res_stats :: generate_stats

record embed_result =
  er_embeddings :: "flt list list"
  er_input_tokens :: int

section \<open>src/chat_format.h\<close>

record tool =
  tool_name :: bytes
  tool_description :: bytes
  tool_parameters_json_schema :: bytes

record tool_call =
  call_id :: bytes
  call_name :: bytes
  call_arguments_json :: bytes

record chat_message =
  msg_role :: bytes
  msg_content :: bytes
  msg_tool_calls :: "tool_call list"
  msg_tool_call_id :: bytes

end
