(* ===== verification/Llama_Api.thy ===== *)
theory Llama_Api
  imports Engine_Types
begin

text \<open>
  The part of llama.cpp's public C API that src/engine.cpp calls. llama.cpp is a git submodule that
  is not part of the sources, so its functions are parameters: one record of operations over opaque
  states, \<open>'c\<close> for a context, \<open>'h\<close> for a sampler chain and \<open>'g\<close> for a grammar sampler. What the engine
  relies on is stated as predicates on that record where it is used.
\<close>

section \<open>Sampler stages and candidates\<close>

text \<open>The stages \<open>SamplerChain::build\<close> adds with \<open>llama_sampler_chain_add\<close>.\<close>

datatype sampler =
    Greedy
  | Top_k int
  | Top_p flt
  | Min_p flt
  | Temp flt
  | Dist u32

text \<open>\<open>llama_token_data\<close> and \<open>llama_token_data_array\<close>.\<close>

record token_data =
  td_id :: token
  td_logit :: flt
  td_p :: flt

record token_array =
  ta_data :: "token_data list"
  ta_selected :: int
  ta_sorted :: bool

section \<open>The operations\<close>

record ('c, 'h, 'g) llama_api =
  \<comment> \<open>vocabulary\<close>
  api_tokenize :: "bytes \<Rightarrow> int \<Rightarrow> int \<Rightarrow> bool \<Rightarrow> bool \<Rightarrow> int \<times> token list"
  api_token_to_piece :: "token \<Rightarrow> int \<Rightarrow> bool \<Rightarrow> int \<times> bytes"
  api_is_eog :: "token \<Rightarrow> bool"
  api_n_vocab :: nat
  api_token_null :: token
  api_default_seed :: u32
  \<comment> \<open>memory of sequence 0\<close>
  api_memory_clear :: "'c \<Rightarrow> 'c"
  api_memory_seq_rm :: "'c \<Rightarrow> int \<Rightarrow> bool \<times> 'c"
  api_memory_seq_pos_min :: "'c \<Rightarrow> int"
  \<comment> \<open>decoding\<close>
  api_decode :: "'c \<Rightarrow> token list \<Rightarrow> (exn + int) \<times> 'c"
  api_synchronize :: "'c \<Rightarrow> 'c"
  api_logits :: "'c \<Rightarrow> token \<Rightarrow> flt"
  api_embeddings_seq :: "'c \<Rightarrow> flt list option"
  api_n_embd_out :: int
  \<comment> \<open>samplers\<close>
  api_chain_init :: "'h option"
  api_chain_add :: "'h \<Rightarrow> sampler \<Rightarrow> 'h"
  api_chain_apply :: "'h \<Rightarrow> token_array \<Rightarrow> token_array \<times> 'h"
  api_chain_accept :: "'h \<Rightarrow> token \<Rightarrow> 'h"
  api_grammar_init :: "bytes \<Rightarrow> bytes \<Rightarrow> 'g option"
  api_grammar_init_lazy :: "bytes \<Rightarrow> bytes \<Rightarrow> bytes list \<Rightarrow> token list \<Rightarrow> 'g option"
  api_grammar_apply :: "'g \<Rightarrow> token_array \<Rightarrow> token_array"
  api_grammar_accept :: "'g \<Rightarrow> token \<Rightarrow> exn + 'g"

section \<open>Engine state\<close>

text \<open>
  \<open>Engine::Impl\<close> after construction. The model and the vocabulary never change and live in the
  record of operations; the context and the record of cached tokens do.
\<close>

record 'c impl =
  ctx :: 'c
  n_ctx :: nat
  n_ctx_seq :: nat
  n_batch :: nat
  embeddings :: bool
  max_embed_tokens :: nat
  cached :: "token list"

end
