(* ===== verification/Sample_Api.thy ===== *)
theory Sample_Api
  imports Llama_Api
begin

text \<open>
  A small instance of the llama.cpp operations, on which the properties with hypotheses about
  llama.cpp are applied: a context is the list of tokens decoded into it, the vocabulary has the
  end-of-generation token 0 and the pieces \<open>a\<close>, \<open>b\<close>, \<open>c\<close> for 1, 2 and 3, and the most likely next
  token is the successor of the last one. The chain picks the first candidate of greatest logit; a
  grammar is the set of tokens it admits.
\<close>

definition sample_piece :: "token \<Rightarrow> bytes" where
  "sample_piece t = (if t = 1 then ''a'' else if t = 2 then ''b'' else if t = 3 then ''c'' else [])"

definition sample_token :: "char \<Rightarrow> token" where
  "sample_token c = (if c = CHR ''a'' then 1 else if c = CHR ''b'' then 2 else 3)"

fun best_index :: "token_data list \<Rightarrow> nat \<Rightarrow> nat \<Rightarrow> flt \<Rightarrow> nat" where
  "best_index [] i best hi = best"
| "best_index (d # ds) i best hi =
     (if flt_lt hi (td_logit d) then best_index ds (Suc i) i (td_logit d)
      else best_index ds (Suc i) best hi)"

definition sample_api :: "(token list, sampler list, token list) llama_api" where
  "sample_api =
     \<lparr>api_tokenize = (\<lambda>t n cap add parse.
        if int (length t) < n \<or> n < 0 then (- 1, [])
        else if n \<le> cap then (n, map sample_token (take (nat n) t))
        else (- n, [])),
      api_token_to_piece = (\<lambda>t cap special.
        if int (length (sample_piece t)) \<le> cap then (int (length (sample_piece t)), sample_piece t)
        else (- int (length (sample_piece t)), [])),
      api_is_eog = (\<lambda>t. t = 0),
      api_n_vocab = 4,
      api_token_null = - 1,
      api_default_seed = 0,
      api_memory_clear = (\<lambda>c. []),
      api_memory_seq_rm = (\<lambda>c p. (True, take (nat p) c)),
      api_memory_seq_pos_min = (\<lambda>c. if c = [] then - 1 else 0),
      api_decode = (\<lambda>c ts. (Inr 0, c @ ts)),
      api_synchronize = (\<lambda>c. c),
      api_logits = (\<lambda>c t. if c \<noteq> [] \<and> t = (last c + 1) mod 4 then Fin 1 else Fin 0),
      api_embeddings_seq = (\<lambda>c. Some [Fin 3, Fin 4]),
      api_n_embd_out = 2,
      api_chain_init = Some [],
      api_chain_add = (\<lambda>h s. h @ [s]),
      api_chain_apply = (\<lambda>h a.
        (a\<lparr>ta_selected := (if ta_data a = [] then - 1 else int (best_index (ta_data a) 0 0 NegInf))\<rparr>, h)),
      api_chain_accept = (\<lambda>h t. h),
      api_grammar_init = (\<lambda>text root. if text = [] then None else Some (map sample_token text)),
      api_grammar_init_lazy = (\<lambda>text root patterns tokens.
        if text = [] then None else Some [0, 1, 2, 3]),
      api_grammar_apply = (\<lambda>g a.
        a\<lparr>ta_data := map (\<lambda>d. if td_id d \<in> set g then d else d\<lparr>td_logit := NegInf\<rparr>) (ta_data a)\<rparr>),
      api_grammar_accept = (\<lambda>g t. if t \<in> set g then Inr g else Inl (StdException ''empty stacks''))\<rparr>"

definition sample_impl :: "token list \<Rightarrow> token list impl" where
  "sample_impl c =
     \<lparr>ctx = c, n_ctx = 16, n_ctx_seq = 16, n_batch = 2, embeddings = False, max_embed_tokens = 0,
      cached = c\<rparr>"

end
