(* ===== verification/Kv_Cache.thy ===== *)
theory Kv_Cache
  imports Sample_Api
begin

text \<open>
  The KV cache of src/engine.cpp: \<open>reusable_prefix\<close>, \<open>Impl::clear_cache\<close>, \<open>Impl::keep_prefix\<close>,
  \<open>Impl::decode\<close> and the loop of \<open>generate\<close> that decodes the uncached part of a prompt. The theory
  shows that the record \<open>cached\<close> never disagrees with the memory of llama.cpp, whatever fails, and
  that the context generation starts from is the prompt's, whatever the cache held before.
\<close>

section \<open>The reusable prefix\<close>

function prefix_loop :: "token list \<Rightarrow> token list \<Rightarrow> nat \<Rightarrow> nat \<Rightarrow> nat" where
  "prefix_loop cache prompt limit n =
     (if n < limit \<and> cache ! n = prompt ! n then prefix_loop cache prompt limit (Suc n) else n)"
  by pat_completeness auto
termination
  by (relation "measure (\<lambda>(cache, prompt, limit, n). limit - n)") auto

declare prefix_loop.simps [simp del]

definition reusable_prefix :: "token list \<Rightarrow> token list \<Rightarrow> nat" where
  "reusable_prefix cache prompt =
     (if prompt = [] then 0
      else prefix_loop cache prompt (min (length cache) (length prompt - 1)) 0)"

lemma prefix_loop_spec:
  assumes "n \<le> limit" "take n cache = take n prompt" "limit \<le> length cache" "limit \<le> length prompt"
  shows "take (prefix_loop cache prompt limit n) cache = take (prefix_loop cache prompt limit n) prompt
    \<and> prefix_loop cache prompt limit n \<le> limit
    \<and> (prefix_loop cache prompt limit n < limit \<longrightarrow>
        cache ! prefix_loop cache prompt limit n \<noteq> prompt ! prefix_loop cache prompt limit n)"
  using assms
proof (induction cache prompt limit n rule: prefix_loop.induct)
  case (1 cache prompt limit n)
  show ?case
  proof (cases "n < limit \<and> cache ! n = prompt ! n")
    case True
    with "1.prems" have "take (Suc n) cache = take (Suc n) prompt"
      by (simp add: take_Suc_conv_app_nth)
    moreover have "prefix_loop cache prompt limit n = prefix_loop cache prompt limit (Suc n)"
      using True by (subst prefix_loop.simps) simp
    ultimately show ?thesis using True "1.IH" "1.prems" by simp
  next
    case False
    then have "prefix_loop cache prompt limit n = n" by (subst prefix_loop.simps) auto
    with False "1.prems" show ?thesis by auto
  qed
qed

lemma reusable_prefix_spec:
  fixes c p :: "token list"
  assumes "p \<noteq> []"
  defines "n \<equiv> reusable_prefix c p"
  shows "take n c = take n p" and "n \<le> min (length c) (length p - 1)"
    and "n < min (length c) (length p - 1) \<Longrightarrow> c ! n \<noteq> p ! n"
  using prefix_loop_spec [of 0 "min (length c) (length p - 1)" c p] assms(1)
  by (simp_all add: n_def reusable_prefix_def)

lemma reusable_prefix_take: "take (reusable_prefix c p) c = take (reusable_prefix c p) p"
  using reusable_prefix_spec(1) by (cases "p = []") (auto simp: reusable_prefix_def)

lemma reusable_prefix_le: "reusable_prefix c p \<le> length c"
  using reusable_prefix_spec(2) [of p c] by (cases "p = []") (auto simp: reusable_prefix_def)

lemma reusable_prefix_less: "p \<noteq> [] \<Longrightarrow> reusable_prefix c p < length p"
  using reusable_prefix_spec(2) [of p c] by (cases p) auto

lemma reusable_prefix_maximal:
  assumes "take k c = take k p" "k \<le> length c" "k < length p"
  shows "k \<le> reusable_prefix c p"
proof (rule ccontr)
  let ?n = "reusable_prefix c p"
  assume "\<not> k \<le> ?n"
  then have less: "?n < k" by simp
  with assms have "?n < min (length c) (length p - 1)" by auto
  moreover have "p \<noteq> []" using assms(3) by auto
  ultimately have "c ! ?n \<noteq> p ! ?n" by (intro reusable_prefix_spec(3))
  with less assms show False by (metis nth_take)
qed

text \<open>
  C21. The part of a prompt kept from the cache is exactly the longest prefix the two share, cut to
  one token less than the prompt, so the last prompt token is always decoded.
\<close>

theorem reusable_prefix_is_longest_shared:
  "reusable_prefix c p = min (length (longest_common_prefix c p)) (length p - 1)"
proof (cases "p = []")
  case True
  then show ?thesis by (simp add: reusable_prefix_def)
next
  case False
  let ?n = "reusable_prefix c p" and ?l = "longest_common_prefix c p"
  have "prefix (take ?n c) c" "prefix (take ?n c) p"
    by (rule take_is_prefix) (metis reusable_prefix_take take_is_prefix)
  then have "prefix (take ?n c) ?l" by (rule longest_common_prefix_max_prefix)
  then have "?n \<le> length ?l"
    using reusable_prefix_le [of c p] prefix_length_le by fastforce
  moreover have "?n \<le> length p - 1" using reusable_prefix_less [OF False, of c] by linarith
  moreover have "min (length ?l) (length p - 1) \<le> ?n"
  proof (rule reusable_prefix_maximal)
    let ?k = "min (length ?l) (length p - 1)"
    have l: "prefix ?l c" "prefix ?l p"
      by (rule longest_common_prefix_prefix1 longest_common_prefix_prefix2)+
    then have "take ?k c = take ?k ?l" "take ?k p = take ?k ?l"
      by (intro take_prefix; simp)+
    then show "take ?k c = take ?k p" by simp
    show "?k \<le> length c" using l(1) prefix_length_le by (metis min.coboundedI1)
    show "?k < length p" using False by (cases p) auto
  qed
  ultimately show ?thesis by simp
qed

section \<open>The operations on the cache\<close>

definition clear_cache :: "('c, 'h, 'g) llama_api \<Rightarrow> 'c impl \<Rightarrow> 'c impl" where
  "clear_cache api st = st\<lparr>ctx := api_memory_clear api (ctx st), cached := []\<rparr>"

definition keep_prefix ::
  "('c, 'h, 'g) llama_api \<Rightarrow> 'c impl \<Rightarrow> token list \<Rightarrow> nat \<times> 'c impl" where
  "keep_prefix api st prompt =
     (let keep = reusable_prefix (cached st) prompt in
      if keep = 0 then (0, clear_cache api st)
      else
        (case api_memory_seq_rm api (ctx st) (i32 keep) of
           (removed, c) \<Rightarrow>
             if \<not> removed \<or> api_memory_seq_pos_min api c \<noteq> 0
             then (0, clear_cache api (st\<lparr>ctx := c\<rparr>))
             else (keep, st\<lparr>ctx := c, cached := take keep (cached st)\<rparr>)))"

text \<open>
  The length of a batch is cast to \<open>int32_t\<close>; a batch is one token or a part of a prompt shorter than the
  context, so with a context of at most \<open>2 ^ 31\<close> tokens the cast is exact and the list stands for it.
\<close>

definition decode ::
  "('c, 'h, 'g) llama_api \<Rightarrow> 'c impl \<Rightarrow> token list \<Rightarrow> (exn + int) \<times> 'c impl" where
  "decode api st tokens =
     (case api_decode api (ctx st) tokens of
        (Inl e, c) \<Rightarrow> (Inl e, clear_cache api (st\<lparr>ctx := c\<rparr>))
      | (Inr ret, c) \<Rightarrow>
          if ret \<noteq> 0 then (Inr ret, clear_cache api (st\<lparr>ctx := c\<rparr>))
          else (Inr 0, st\<lparr>ctx := c, cached := cached st @ tokens\<rparr>))"

text \<open>
  The loop \<open>for (off = kept; off < tokens.size();)\<close> of \<open>generate\<close>. \<open>dec\<close> is \<open>Impl::decode\<close>. The loop
  advances only if the batch size is positive, which the constructor makes sure of; otherwise it
  does not return, which is the value \<open>None\<close>.
\<close>

partial_function (option) prompt_loop ::
  "('s \<Rightarrow> token list \<Rightarrow> (exn + int) \<times> 's) \<Rightarrow> nat \<Rightarrow> token list \<Rightarrow> nat \<Rightarrow> 's
     \<Rightarrow> ((exn + int) \<times> 's) option" where
  "prompt_loop dec batch tokens off st =
     (if off < length tokens then
        (let n_chunk = min batch (length tokens - off) in
         case dec st (take n_chunk (drop off tokens)) of
           (Inl e, st') \<Rightarrow> Some (Inl e, st')
         | (Inr ret, st') \<Rightarrow>
             if ret \<noteq> 0 then Some (Inr ret, st')
             else prompt_loop dec batch tokens (off + n_chunk) st')
      else Some (Inr 0, st))"

declare prompt_loop.simps [code]

lemma prompt_loop_returns:
  assumes "0 < batch"
  shows "\<exists>x. prompt_loop dec batch tokens off st = Some x"
proof (induction "length tokens - off" arbitrary: off st rule: less_induct)
  case less
  show ?case
  proof (cases "off < length tokens")
    case True
    let ?n = "min batch (length tokens - off)"
    have "length tokens - (off + ?n) < length tokens - off" using True assms by auto
    from less.hyps [OF this] show ?thesis
      by (subst prompt_loop.simps) (auto simp: Let_def split: prod.splits sum.splits)
  qed (subst prompt_loop.simps, simp)
qed

lemma prompt_loop_invariant:
  assumes "prompt_loop dec batch tokens off st = Some (r, st')" "0 < batch" "P st"
    and "\<And>s xs r s'. P s \<Longrightarrow> dec s xs = (r, s') \<Longrightarrow> P s'"
  shows "P st'"
  using assms(1,3)
proof (induction "length tokens - off" arbitrary: off st rule: less_induct)
  case less
  show ?case
  proof (cases "off < length tokens")
    case True
    let ?n = "min batch (length tokens - off)"
    obtain r1 s1 where d: "dec st (take ?n (drop off tokens)) = (r1, s1)" by (metis prod.exhaust)
    have s1: "P s1" using assms(4) less.prems(2) d .
    have less': "length tokens - (off + ?n) < length tokens - off" using True assms(2) by auto
    show ?thesis
    proof (cases "r1 = Inr 0")
      case ok: True
      then have "prompt_loop dec batch tokens (off + ?n) s1 = Some (r, st')"
        using less.prems(1) True d by (subst (asm) prompt_loop.simps) (simp add: Let_def)
      from less.hyps [OF less' this s1] show ?thesis .
    next
      case False
      then have "st' = s1"
        using less.prems(1) True d
        by (subst (asm) prompt_loop.simps) (auto simp: Let_def split: sum.splits if_splits)
      with s1 show ?thesis by simp
    qed
  next
    case False
    with less.prems show ?thesis by (subst (asm) prompt_loop.simps) simp
  qed
qed

section \<open>The interface\<close>

text \<open>
  What the engine needs of a cache: the tokens it holds are known (\<open>held\<close>), keeping a prefix leaves
  exactly that prefix, a decode appends or empties. Only prompts that \<open>fit\<close> are ever kept.
\<close>

locale token_cache =
  fixes keep :: "'s \<Rightarrow> token list \<Rightarrow> nat \<times> 's"
    and dec :: "'s \<Rightarrow> token list \<Rightarrow> (exn + int) \<times> 's"
    and held :: "'s \<Rightarrow> token list"
    and inv :: "'s \<Rightarrow> bool"
    and fits :: "token list \<Rightarrow> bool"
  assumes keep_spec: "\<lbrakk>inv s; fits p; p \<noteq> []; keep s p = (k, s')\<rbrakk> \<Longrightarrow> inv s' \<and> held s' = take k p \<and> k < length p"
    and dec_ok: "\<lbrakk>inv s; dec s xs = (Inr 0, s')\<rbrakk> \<Longrightarrow> inv s' \<and> held s' = held s @ xs"
    and dec_fail: "\<lbrakk>inv s; dec s xs = (r, s'); r \<noteq> Inr 0\<rbrakk> \<Longrightarrow> inv s' \<and> held s' = []"
begin

lemma dec_inv: "inv s \<Longrightarrow> dec s xs = (r, s') \<Longrightarrow> inv s'"
  using dec_ok dec_fail by metis

text \<open>The loop returns, and what it leaves is the whole prompt or nothing.\<close>

lemma prompt_loop_spec:
  assumes "0 < batch" "inv s" "held s = take off tokens" "off \<le> length tokens"
  shows "\<exists>r s'. prompt_loop dec batch tokens off s = Some (r, s') \<and> inv s'
    \<and> held s' = (if r = Inr 0 then tokens else [])"
  using assms
proof (induction "length tokens - off" arbitrary: off s rule: less_induct)
  case less
  show ?case
  proof (cases "off < length tokens")
    case False
    with less.prems show ?thesis by (subst prompt_loop.simps) auto
  next
    case True
    define n where "n = min batch (length tokens - off)"
    have n: "0 < n" "off + n \<le> length tokens" using True less.prems(1) by (auto simp: n_def)
    obtain r s1 where d: "dec s (take n (drop off tokens)) = (r, s1)" by (metis prod.exhaust)
    show ?thesis
    proof (cases "r = Inr 0")
      case False
      with dec_fail [OF less.prems(2) d] d True show ?thesis
        by (subst prompt_loop.simps) (auto simp: n_def [symmetric] Let_def split: sum.splits)
    next
      case ok: True
      with dec_ok [OF less.prems(2)] d have s1: "inv s1" "held s1 = take (off + n) tokens"
        using less.prems(3) by (auto simp: take_add)
      have "\<exists>r s'. prompt_loop dec batch tokens (off + n) s1 = Some (r, s') \<and> inv s'
          \<and> held s' = (if r = Inr 0 then tokens else [])"
        using less.hyps [of "off + n" s1] s1 n True less.prems(1) by simp
      then show ?thesis
        using ok d True by (subst prompt_loop.simps) (auto simp: n_def [symmetric] Let_def)
    qed
  qed
qed

text \<open>
  After the cache has been trimmed to the shared prefix and the rest decoded, the memory holds
  exactly the prompt: how long that took depends on the cache, what runs does not.
\<close>

lemma prefill:
  assumes "0 < batch" "inv s" "fits p" "p \<noteq> []" "keep s p = (k, s1)"
  shows "\<exists>r s'. prompt_loop dec batch p k s1 = Some (r, s') \<and> inv s'
    \<and> held s' = (if r = Inr 0 then p else [])"
  using keep_spec [OF assms(2-5)] assms(1) by (intro prompt_loop_spec) auto

end

section \<open>llama.cpp's memory, and the engine's implementation\<close>

text \<open>
  What the engine relies on, from the documentation of llama.h: \<open>seq c\<close> are the tokens decoded into
  sequence 0 of the context, in position order. Clearing empties it, a successful decode appends
  the batch, and waiting changes nothing. Removing the positions from \<open>p\<close> on cuts it to \<open>p\<close> tokens when
  it succeeds and the memory still starts at position 0. Nothing is assumed of a decode or a removal
  that fails, nor of a removal that succeeds on a memory that has let its beginning go (a recurrent
  state or a sliding window): what such a memory holds is not known.
\<close>

definition memory_laws :: "('c, 'h, 'g) llama_api \<Rightarrow> ('c \<Rightarrow> token list) \<Rightarrow> bool" where
  "memory_laws api seq \<longleftrightarrow>
     (\<forall>c. seq (api_memory_clear api c) = [])
     \<and> (\<forall>c xs c'. api_decode api c xs = (Inr 0, c') \<longrightarrow> seq c' = seq c @ xs)
     \<and> (\<forall>c. seq (api_synchronize api c) = seq c)
     \<and> (\<forall>c p c'. api_memory_seq_rm api c (int p) = (True, c') \<longrightarrow> api_memory_seq_pos_min api c' = 0
          \<longrightarrow> p \<le> length (seq c) \<longrightarrow> seq c' = take p (seq c))"

text \<open>The invariant of \<open>Impl\<close>: the record agrees with the memory.\<close>

definition kv_inv :: "('c, 'h, 'g) llama_api \<Rightarrow> ('c \<Rightarrow> token list) \<Rightarrow> 'c impl \<Rightarrow> bool" where
  "kv_inv api seq st \<longleftrightarrow> memory_laws api seq \<and> cached st = seq (ctx st)"

text \<open>A prompt whose positions survive the cast to \<open>llama_pos\<close>, as any below \<open>--ctx\<close> does.\<close>

definition kv_fits :: "token list \<Rightarrow> bool" where
  "kv_fits p \<longleftrightarrow> length p < 2 ^ 31"

lemma kv_inv_clear: "memory_laws api seq \<Longrightarrow> kv_inv api seq (clear_cache api st)"
  by (simp add: kv_inv_def memory_laws_def clear_cache_def)

lemma cached_clear [simp]: "cached (clear_cache api st) = []"
  by (simp add: clear_cache_def)

lemma keep_prefix_spec:
  assumes "kv_inv api seq st" "kv_fits p" "p \<noteq> []" "keep_prefix api st p = (k, st')"
  shows "kv_inv api seq st' \<and> cached st' = take k p \<and> k < length p"
proof -
  let ?k = "reusable_prefix (cached st) p"
  have k: "?k \<le> length (cached st)" "?k < length p" "take ?k (cached st) = take ?k p"
    using reusable_prefix_le reusable_prefix_less [OF assms(3)] reusable_prefix_take by auto
  have laws: "memory_laws api seq" using assms(1) by (simp add: kv_inv_def)
  have cast: "i32 ?k = int ?k" using k(2) assms(2) by (simp add: kv_fits_def i32_small)
  obtain removed c where rm: "api_memory_seq_rm api (ctx st) (int ?k) = (removed, c)"
    by (metis prod.exhaust)
  show ?thesis
  proof (cases "?k = 0 \<or> \<not> removed \<or> api_memory_seq_pos_min api c \<noteq> 0")
    case True
    then have "k = 0 \<and> (\<exists>st1. st' = clear_cache api st1)"
      using assms(4) rm cast by (auto simp: keep_prefix_def Let_def split: if_splits)
    then show ?thesis using kv_inv_clear [OF laws] k(2) by auto
  next
    case False
    then have "k = ?k" "st' = st\<lparr>ctx := c, cached := take ?k (cached st)\<rparr>"
      using assms(4) rm cast by (auto simp: keep_prefix_def Let_def)
    moreover have "seq c = take ?k (seq (ctx st))"
      using laws rm False k(1) assms(1) by (auto simp: memory_laws_def kv_inv_def)
    ultimately show ?thesis using k assms(1) by (simp add: kv_inv_def)
  qed
qed

lemma decode_cases:
  assumes "decode api st xs = (r, st')"
  obtains (ok) c where "r = Inr 0" "api_decode api (ctx st) xs = (Inr 0, c)"
      "st' = st\<lparr>ctx := c, cached := cached st @ xs\<rparr>"
  | (failed) st1 where "r \<noteq> Inr 0" "st' = clear_cache api st1" "n_ctx_seq st1 = n_ctx_seq st"
      "n_batch st1 = n_batch st"
proof -
  obtain r1 c where d: "api_decode api (ctx st) xs = (r1, c)" by (metis prod.exhaust)
  show ?thesis
  proof (cases "r1 = Inr 0")
    case True
    with d assms show ?thesis by (intro ok) (auto simp: decode_def)
  next
    case False
    with d assms show ?thesis
      by (intro failed [of "st\<lparr>ctx := c\<rparr>"]) (auto simp: decode_def split: sum.splits if_splits)
  qed
qed

lemma decode_ok:
  assumes "kv_inv api seq st" "decode api st xs = (Inr 0, st')"
  shows "kv_inv api seq st' \<and> cached st' = cached st @ xs"
  using assms(2)
proof (cases rule: decode_cases)
  case (ok c)
  moreover have "seq c = seq (ctx st) @ xs"
    using assms(1) ok(2) unfolding kv_inv_def memory_laws_def by blast
  ultimately show ?thesis using assms(1) by (simp add: kv_inv_def)
qed simp

lemma decode_fail:
  assumes "kv_inv api seq st" "decode api st xs = (r, st')" "r \<noteq> Inr 0"
  shows "kv_inv api seq st' \<and> cached st' = []"
  using assms(2)
proof (cases rule: decode_cases)
  case (failed st1)
  with assms(1) show ?thesis using kv_inv_clear by (auto simp: kv_inv_def)
qed (use assms(3) in simp)

interpretation kv: token_cache "keep_prefix api" "decode api" cached "kv_inv api seq" kv_fits
  for api :: "('c, 'h, 'g) llama_api" and seq :: "'c \<Rightarrow> token list"
  by unfold_locales (fact keep_prefix_spec decode_ok decode_fail)+

text \<open>
  The record of cached tokens alone, with nothing assumed of llama.cpp's memory, keeps the same
  contract: a prompt that was decoded is recorded, whatever the memory made of it.
\<close>

lemma keep_prefix_record: "p \<noteq> [] \<Longrightarrow> keep_prefix api st p = (k, st') \<Longrightarrow> cached st' = take k p \<and> k < length p"
  using reusable_prefix_take [of "cached st" p] reusable_prefix_less [of p "cached st"]
  by (auto simp: keep_prefix_def Let_def split: if_splits prod.splits)

lemma decode_record:
  "decode api st xs = (Inr 0, st') \<Longrightarrow> cached st' = cached st @ xs"
  "decode api st xs = (r, st') \<Longrightarrow> r \<noteq> Inr 0 \<Longrightarrow> cached st' = []"
  by (auto elim!: decode_cases)

interpretation recorded: token_cache "keep_prefix api" "decode api" cached "\<lambda>_. True" "\<lambda>_. True"
  for api :: "('c, 'h, 'g) llama_api"
  by unfold_locales (use keep_prefix_record decode_record in blast)+

lemma prefill_recorded:
  assumes "p \<noteq> []" "0 < n_batch st" "keep_prefix api st p = (k, st1)"
    and "prompt_loop (decode api) (n_batch st) p k st1 = Some (Inr 0, st2)"
  shows "cached st2 = p"
  using recorded.prefill [OF assms(2) TrueI TrueI assms(1,3)] assms(4) by auto

section \<open>What the cache promises\<close>

text \<open>
  C3. Whatever the cache held before the request, and wherever a decode fails, after the prompt
  phase of \<open>generate\<close> the record of cached tokens is what llama.cpp's memory holds. This includes the
  memories that refuse to drop part of a sequence, and those that drop it but no longer hold position
  0, of whose contents nothing is assumed. If no decode
  failed, both are exactly the tokens of the prompt: the cache decides how much is decoded, never
  which prompt runs. If one failed, both are empty. The phase always returns.
\<close>

theorem prefill_runs_the_prompt:
  assumes "memory_laws api seq" and "cached st = seq (ctx st)" and "0 < n_batch st"
    and "tokens \<noteq> []" and "length tokens < 2 ^ 31" and "keep_prefix api st tokens = (kept, st1)"
  shows "\<exists>r st'. prompt_loop (decode api) (n_batch st) tokens kept st1 = Some (r, st')
    \<and> cached st' = seq (ctx st') \<and> seq (ctx st') = (if r = Inr 0 then tokens else [])"
proof -
  obtain r st' where "prompt_loop (decode api) (n_batch st) tokens kept st1 = Some (r, st')"
    "kv_inv api seq st'" "cached st' = (if r = Inr 0 then tokens else [])"
    using kv.prefill [of "n_batch st" api seq st tokens kept st1] assms
    by (auto simp: kv_inv_def kv_fits_def)
  then show ?thesis by (intro exI [of _ r] exI [of _ st']) (simp add: kv_inv_def)
qed

lemma sample_memory_laws: "memory_laws sample_api (\<lambda>c. c)"
  by (simp add: memory_laws_def sample_api_def)

theorem prefill_runs_the_prompt_witness:
  "\<exists>r st'. prompt_loop (decode sample_api) 2 [1, 2, 1, 1, 3] 2 (sample_impl [1, 2]) = Some (r, st')
    \<and> cached st' = ctx st' \<and> ctx st' = (if r = Inr 0 then [1, 2, 1, 1, 3] else [])"
proof -
  have laws: "memory_laws sample_api (\<lambda>c. c)" by (simp add: memory_laws_def sample_api_def)
  have shared: "reusable_prefix [1, 2, 3] [1, 2, 1, 1, 3] = 2" "i32 2 = 2" by code_simp+
  have keep: "keep_prefix sample_api (sample_impl [1, 2, 3]) [1, 2, 1, 1, 3] = (2, sample_impl [1, 2])"
    by (simp add: keep_prefix_def shared sample_impl_def sample_api_def)
  show ?thesis
    using prefill_runs_the_prompt [OF laws _ _ _ _ keep] by (simp add: sample_impl_def)
qed

text \<open>
  What is kept is part of the prompt that really is in memory: the kept positions hold the
  prompt's first tokens, the memory still starts at position 0, and at least one prompt token is
  left to decode. Where the memory cannot drop the rest of the sequence, or has let its beginning
  go, nothing is kept.
\<close>

theorem keep_prefix_keeps_what_is_there:
  assumes "memory_laws api seq" and "cached st = seq (ctx st)"
    and "tokens \<noteq> []" and "length tokens < 2 ^ 31" and "keep_prefix api st tokens = (kept, st1)"
  shows "seq (ctx st1) = take kept tokens \<and> cached st1 = take kept tokens \<and> kept < length tokens
    \<and> (kept = 0 \<or> api_memory_seq_pos_min api (ctx st1) = 0)"
proof -
  have "kv_inv api seq st1 \<and> cached st1 = take kept tokens \<and> kept < length tokens"
    using keep_prefix_spec [of api seq st tokens kept st1] assms
    unfolding kv_inv_def kv_fits_def by blast
  moreover have "kept = 0 \<or> api_memory_seq_pos_min api (ctx st1) = 0"
    using assms(5) by (auto simp: keep_prefix_def Let_def split: if_splits prod.splits)
  ultimately show ?thesis unfolding kv_inv_def by (metis (no_types))
qed

theorem keep_prefix_keeps_what_is_there_witness:
  "keep_prefix sample_api (sample_impl [1, 2, 3]) [1, 2, 1] = (2, sample_impl [1, 2])
   \<and> ctx (sample_impl [1, 2]) = take 2 [1, 2, 1] \<and> 2 < length [1, 2, 1 :: token]
   \<and> api_memory_seq_pos_min sample_api (ctx (sample_impl [1, 2])) = 0"
proof -
  have laws: "memory_laws sample_api (\<lambda>c. c)" by (simp add: memory_laws_def sample_api_def)
  have shared: "reusable_prefix [1, 2, 3] [1, 2, 1] = 2" "i32 2 = 2" by code_simp+
  have keep: "keep_prefix sample_api (sample_impl [1, 2, 3]) [1, 2, 1] = (2, sample_impl [1, 2])"
    by (simp add: keep_prefix_def shared sample_impl_def sample_api_def)
  show ?thesis
    using keep_prefix_keeps_what_is_there [OF laws _ _ _ keep] keep by (simp add: sample_impl_def)
qed

end
