(* ===== verification/Tokenizer.thy ===== *)
theory Tokenizer
  imports Sample_Api
begin

text \<open>
  The text side of \<open>Engine::Impl\<close> in src/engine.cpp: \<open>tokenize\<close> and \<open>token_to_piece\<close> with their
  one-retry buffers, \<open>regex_escape\<close>, and \<open>resolve\<close>, which turns the strings of a request into token
  ids. The vocabulary is llama.cpp's; what is assumed of it is its documented buffer protocol.
\<close>

section \<open>Text to tokens and back\<close>

text \<open>\<open>INT32_MIN\<close>\<close>

definition int32_min :: int where
  "int32_min = - (2 ^ 31)"

text \<open>
  \<open>fill\<close> hands \<open>llama_tokenize\<close> the text, its size and the size of the buffer, both cast to
  \<open>int32_t\<close>.
\<close>

definition tokenize ::
  "('c, 'h, 'g) llama_api \<Rightarrow> bytes \<Rightarrow> bool \<Rightarrow> bool \<Rightarrow> exn + token list" where
  "tokenize api text add_special parse_special =
     (let fill = (\<lambda>size. api_tokenize api text (i32 (length text)) (i32 size) add_special parse_special) in
      case fill (length text + 8) of
        (n, tokens) \<Rightarrow>
          if n = int32_min then Inl (EngineError ''tokenization overflowed int32'')
          else
            (case (if n < 0 then fill (nat (- n))
                   else (n, tokens)) of
               (n, tokens) \<Rightarrow>
                 if n < 0 then Inl (EngineError ''failed to tokenize the input text'')
                 else Inr (resize (nat n) 0 tokens)))"

definition token_to_piece ::
  "('c, 'h, 'g) llama_api \<Rightarrow> token \<Rightarrow> bool \<Rightarrow> exn + bytes" where
  "token_to_piece api t special =
     (case api_token_to_piece api t 256 special of
        (n, buf) \<Rightarrow>
          if 0 \<le> n then Inr (take (nat n) buf)
          else
            (case api_token_to_piece api t (i32 (nat (- n))) special of
               (n2, big) \<Rightarrow>
                 if n2 < 0 then Inl (EngineError ''failed to convert a token to text'')
                 else Inr (take (nat n2) big)))"

text \<open>
  The buffer protocol of llama.h, for a text whose size is an \<open>int32_t\<close>: the result is the number of
  items when they fit in the buffer, and its negation, with nothing promised of the buffer, when they
  do not; a count that is no \<open>int32_t\<close> gives \<open>INT32_MIN\<close>. \<open>tok\<close> and \<open>piece\<close> are what the vocabulary
  says; a piece has fewer than \<open>2 ^ 31\<close> bytes. Nothing is assumed of a call whose sizes do not fit.
\<close>

definition vocab_laws ::
  "('c, 'h, 'g) llama_api \<Rightarrow> (bytes \<Rightarrow> bool \<Rightarrow> bool \<Rightarrow> token list) \<Rightarrow> (token \<Rightarrow> bool \<Rightarrow> bytes) \<Rightarrow> bool" where
  "vocab_laws api tok piece \<longleftrightarrow>
     (\<forall>t cap a p. length t < 2 ^ 31 \<longrightarrow> cap < 2 ^ 31 \<longrightarrow>
          (if 2 ^ 31 \<le> length (tok t a p)
           then fst (api_tokenize api t (int (length t)) (int cap) a p) = int32_min
           else if length (tok t a p) \<le> cap
           then \<exists>rest. api_tokenize api t (int (length t)) (int cap) a p
                  = (int (length (tok t a p)), tok t a p @ rest)
           else fst (api_tokenize api t (int (length t)) (int cap) a p) = - int (length (tok t a p))))
     \<and> (\<forall>t cap s. length (piece t s) < 2 ^ 31
          \<and> (cap < 2 ^ 31 \<longrightarrow>
             (if length (piece t s) \<le> cap
              then \<exists>rest. api_token_to_piece api t (int cap) s = (int (length (piece t s)), piece t s @ rest)
              else fst (api_token_to_piece api t (int cap) s) = - int (length (piece t s)))))"

lemma vocab_tok:
  assumes "vocab_laws api tok piece" "length t < 2 ^ 31" "cap < 2 ^ 31"
  shows "2 ^ 31 \<le> length (tok t a p) \<Longrightarrow>
      fst (api_tokenize api t (i32 (length t)) (i32 cap) a p) = int32_min"
    and "length (tok t a p) < 2 ^ 31 \<Longrightarrow> length (tok t a p) \<le> cap \<Longrightarrow>
      \<exists>rest. api_tokenize api t (i32 (length t)) (i32 cap) a p = (int (length (tok t a p)), tok t a p @ rest)"
    and "length (tok t a p) < 2 ^ 31 \<Longrightarrow> \<not> length (tok t a p) \<le> cap \<Longrightarrow>
      fst (api_tokenize api t (i32 (length t)) (i32 cap) a p) = - int (length (tok t a p))"
proof -
  from assms have "if 2 ^ 31 \<le> length (tok t a p)
      then fst (api_tokenize api t (int (length t)) (int cap) a p) = int32_min
      else if length (tok t a p) \<le> cap
      then \<exists>rest. api_tokenize api t (int (length t)) (int cap) a p = (int (length (tok t a p)), tok t a p @ rest)
      else fst (api_tokenize api t (int (length t)) (int cap) a p) = - int (length (tok t a p))"
    unfolding vocab_laws_def by blast
  then show "2 ^ 31 \<le> length (tok t a p) \<Longrightarrow>
      fst (api_tokenize api t (i32 (length t)) (i32 cap) a p) = int32_min"
    "length (tok t a p) < 2 ^ 31 \<Longrightarrow> length (tok t a p) \<le> cap \<Longrightarrow>
      \<exists>rest. api_tokenize api t (i32 (length t)) (i32 cap) a p = (int (length (tok t a p)), tok t a p @ rest)"
    "length (tok t a p) < 2 ^ 31 \<Longrightarrow> \<not> length (tok t a p) \<le> cap \<Longrightarrow>
      fst (api_tokenize api t (i32 (length t)) (i32 cap) a p) = - int (length (tok t a p))"
    unfolding i32_small [OF assms(2)] i32_small [OF assms(3)] by (simp_all split: if_splits)
qed

lemma vocab_piece:
  assumes "vocab_laws api tok piece"
  shows "length (piece t s) < 2 ^ 31"
    and "cap < 2 ^ 31 \<Longrightarrow> length (piece t s) \<le> cap \<Longrightarrow>
      \<exists>rest. api_token_to_piece api t (int cap) s = (int (length (piece t s)), piece t s @ rest)"
    and "cap < 2 ^ 31 \<Longrightarrow> \<not> length (piece t s) \<le> cap \<Longrightarrow>
      fst (api_token_to_piece api t (int cap) s) = - int (length (piece t s))"
proof -
  from assms have "length (piece t s) < 2 ^ 31
      \<and> (cap < 2 ^ 31 \<longrightarrow>
         (if length (piece t s) \<le> cap
          then \<exists>rest. api_token_to_piece api t (int cap) s = (int (length (piece t s)), piece t s @ rest)
          else fst (api_token_to_piece api t (int cap) s) = - int (length (piece t s))))"
    unfolding vocab_laws_def by blast
  then show "length (piece t s) < 2 ^ 31"
    "cap < 2 ^ 31 \<Longrightarrow> length (piece t s) \<le> cap \<Longrightarrow>
      \<exists>rest. api_token_to_piece api t (int cap) s = (int (length (piece t s)), piece t s @ rest)"
    "cap < 2 ^ 31 \<Longrightarrow> \<not> length (piece t s) \<le> cap \<Longrightarrow>
      fst (api_token_to_piece api t (int cap) s) = - int (length (piece t s))"
    by presburger+
qed

text \<open>A text that \<open>fill\<close> can hand over: its size, and that of the first buffer, are \<open>int32_t\<close>s.\<close>

definition fits_i32 :: "bytes \<Rightarrow> bool" where
  "fits_i32 t \<longleftrightarrow> length t + 8 < 2 ^ 31"

lemma tokenize_tok:
  assumes "vocab_laws api tok piece" "fits_i32 t"
  shows "tokenize api t a p =
    (if length (tok t a p) < 2 ^ 31 then Inr (tok t a p)
     else Inl (EngineError ''tokenization overflowed int32''))"
proof -
  let ?n = "length (tok t a p)"
  let ?fill = "\<lambda>cap. api_tokenize api t (i32 (length t)) (i32 cap) a p"
  have t: "length t < 2 ^ 31" "length t + 8 < 2 ^ 31" using assms(2) by (simp_all add: fits_i32_def)
  note tok = vocab_tok [OF assms(1) t(1), of _ a p]
  consider (over) "2 ^ 31 \<le> ?n" | (first) "?n < 2 ^ 31" "?n \<le> length t + 8"
    | (retry) "?n < 2 ^ 31" "\<not> ?n \<le> length t + 8"
    by linarith
  then show ?thesis
  proof cases
    case over
    then obtain buf where "?fill (length t + 8) = (int32_min, buf)"
      using tok(1) [OF t(2)] by (metis prod.collapse)
    with over show ?thesis by (simp add: tokenize_def)
  next
    case first
    then obtain rest where "?fill (length t + 8) = (int ?n, tok t a p @ rest)"
      using tok(2) [OF t(2)] by blast
    with first show ?thesis by (simp add: tokenize_def int32_min_def)
  next
    case retry
    then obtain buf where "?fill (length t + 8) = (- int ?n, buf)"
      using tok(3) [OF t(2)] by (metis prod.collapse)
    moreover obtain rest where "?fill ?n = (int ?n, tok t a p @ rest)"
      using tok(2) [of ?n] retry by auto
    moreover have "- int ?n \<noteq> int32_min" using retry by (simp add: int32_min_def)
    moreover have "0 < ?n" using retry by linarith
    ultimately show ?thesis using retry by (simp add: tokenize_def)
  qed
qed

lemma token_to_piece_piece:
  assumes "vocab_laws api tok piece"
  shows "token_to_piece api k s = Inr (piece k s)"
proof -
  let ?m = "length (piece k s)"
  note piece = vocab_piece [OF assms, where t = k and s = s]
  obtain rest where full: "api_token_to_piece api k (i32 ?m) s = (int ?m, piece k s @ rest)"
    using piece(2) [of ?m] piece(1) i32_small [OF piece(1)] by auto
  show ?thesis
  proof (cases "?m \<le> 256")
    case True
    then obtain rest where "api_token_to_piece api k 256 s = (int ?m, piece k s @ rest)"
      using piece(2) [of 256] by auto
    then show ?thesis by (simp add: token_to_piece_def)
  next
    case False
    then obtain buf where "api_token_to_piece api k 256 s = (- int ?m, buf)"
      using piece(3) [of 256] by (simp add: prod_eq_iff)
    moreover have "0 < ?m" using False by linarith
    ultimately show ?thesis using full by (simp add: token_to_piece_def)
  qed
qed

text \<open>
  C22. The guessed buffer sizes are only an optimisation: whether the first call fits or the second
  is needed, the engine's tokens of a text whose size leaves room in an \<open>int32_t\<close> are exactly the
  vocabulary's, and so is every piece. The only error left is a text of \<open>2 ^ 31\<close> tokens or more.
\<close>

theorem vocabulary_is_transparent:
  assumes "vocab_laws api tok piece" and "length t + 8 < 2 ^ 31"
  shows "tokenize api t a p =
      (if length (tok t a p) < 2 ^ 31 then Inr (tok t a p)
       else Inl (EngineError ''tokenization overflowed int32''))
    \<and> token_to_piece api k s = Inr (piece k s)"
  using tokenize_tok [OF assms(1)] token_to_piece_piece [OF assms(1)] assms(2)
  unfolding fits_i32_def by blast

lemma sample_vocab_laws: "vocab_laws sample_api (\<lambda>t a p. map sample_token t) (\<lambda>t s. sample_piece t)"
  by (simp add: vocab_laws_def sample_api_def int32_min_def sample_piece_def)

theorem vocabulary_is_transparent_witness:
  "tokenize sample_api ''abca'' True True = Inr [1, 2, 3, 1] \<and> token_to_piece sample_api 3 False = Inr ''c''"
  using vocabulary_is_transparent [OF sample_vocab_laws, of "''abca''" True True 3 False]
  by (simp add: sample_token_def sample_piece_def)

section \<open>Escaping a word for a trigger pattern\<close>

definition regex_special :: bytes where
  "regex_special = ''.^$|()*+?[]{}'' @ [CHR 0x5C]"

text \<open>The loop over the characters; \<open>0x5C\<close> is the backslash.\<close>

fun regex_escape :: "bytes \<Rightarrow> bytes" where
  "regex_escape [] = []"
| "regex_escape (c # cs) =
     (if c \<in> set regex_special then CHR 0x5C # c # regex_escape cs else c # regex_escape cs)"

text \<open>
  How the reader of the pattern takes it, from the grammar of ECMAScript regular expressions that
  \<open>std::regex\<close> implements: the \<open>SyntaxCharacter\<close>s are operators, a backslash in front of one makes it
  stand for itself, a backslash in front of anything else is a class, an assertion or an error, and
  every other character stands for itself. \<open>literal_pattern\<close> is the text a pattern without operators
  denotes. The characters are those of the grammar, in its order, not those of \<open>regex_escape\<close>.
\<close>

fun syntax_character :: "char \<Rightarrow> bool" where
  "syntax_character c =
     (c = CHR ''^'' \<or> c = CHR ''$'' \<or> c = CHR 0x5C \<or> c = CHR ''.'' \<or> c = CHR ''*'' \<or> c = CHR ''+''
      \<or> c = CHR ''?'' \<or> c = CHR ''('' \<or> c = CHR '')'' \<or> c = CHR ''['' \<or> c = CHR '']''
      \<or> c = CHR ''{'' \<or> c = CHR ''}'' \<or> c = CHR ''|'')"

fun literal_pattern :: "bytes \<Rightarrow> bytes option" where
  "literal_pattern [] = Some []"
| "literal_pattern (c # cs) =
     (if c = CHR 0x5C then
        (case cs of
           [] \<Rightarrow> None
         | d # ds \<Rightarrow> if syntax_character d then map_option ((#) d) (literal_pattern ds) else None)
      else if syntax_character c then None
      else map_option ((#) c) (literal_pattern cs))"

lemma regex_special_is_syntax: "c \<in> set regex_special \<longleftrightarrow> syntax_character c"
  unfolding regex_special_def syntax_character.simps
  by (simp only: set_append list.set insert_iff empty_iff Un_iff simp_thms disj_ac)

declare syntax_character.simps [simp del]

lemma literal_escape: "literal_pattern (regex_escape w) = Some w"
proof (induction w)
  case (Cons c w)
  have "syntax_character (CHR 0x5C)" by (simp add: syntax_character.simps)
  with Cons show ?case by (auto simp: regex_special_is_syntax)
qed simp

text \<open>
  C23. An escaped trigger word matches that word and nothing else: read by the grammar of ECMAScript
  patterns it has no operator left and denotes exactly the word, so every operator is escaped, nothing
  is escaped that must not be, and escaping is injective.
\<close>

theorem regex_escape_literal: "literal_pattern (regex_escape w) = Some w"
  by (rule literal_escape)

section \<open>Resolving the strings of a request\<close>

record resolved_tokens =
  rt_preserved :: "token set"
  rt_trigger_tokens :: "token list"
  rt_trigger_patterns :: "bytes list"
  rt_prefill :: "token list"

text \<open>The loop over \<open>preserved_tokens\<close>.\<close>

fun resolve_preserved ::
  "('c, 'h, 'g) llama_api \<Rightarrow> bytes list \<Rightarrow> token set \<Rightarrow> exn + token set" where
  "resolve_preserved api [] acc = Inr acc"
| "resolve_preserved api (t # ts) acc =
     (case tokenize api t False True of
        Inl e \<Rightarrow> Inl e
      | Inr ids \<Rightarrow>
          resolve_preserved api ts (if length ids = 1 then insert (ids ! 0) acc else acc))"

definition resolve_prefill ::
  "('c, 'h, 'g) llama_api \<Rightarrow> bytes \<Rightarrow> exn + token list" where
  "resolve_prefill api prefill =
     (case tokenize api prefill False True of
        Inl e \<Rightarrow> Inl e
      | Inr ids \<Rightarrow>
          (case (if ids = [] then Inr [] else token_to_piece api (ids ! 0) True) of
             Inl e \<Rightarrow> Inl e
           | Inr first \<Rightarrow>
               if first \<noteq> [] \<and> isspace (first ! 0) \<and> \<not> isspace (prefill ! 0)
               then Inr (drop 1 ids) else Inr ids))"

text \<open>The loop over \<open>trigger_words\<close>: token triggers and pattern triggers so far.\<close>

fun resolve_words ::
  "('c, 'h, 'g) llama_api \<Rightarrow> token set \<Rightarrow> bytes list \<Rightarrow> token list \<Rightarrow> bytes list
     \<Rightarrow> exn + token list \<times> bytes list" where
  "resolve_words api preserved [] toks pats = Inr (toks, pats)"
| "resolve_words api preserved (w # ws) toks pats =
     (case tokenize api w False True of
        Inl e \<Rightarrow> Inl e
      | Inr ids \<Rightarrow>
          if length ids = 1 \<and> ids ! 0 \<in> preserved
          then resolve_words api preserved ws (toks @ [ids ! 0]) pats
          else resolve_words api preserved ws toks (pats @ [regex_escape w]))"

definition resolve ::
  "('c, 'h, 'g) llama_api \<Rightarrow> sampling_params \<Rightarrow> exn + resolved_tokens" where
  "resolve api params =
     (let gs = sp_grammar params in
      case resolve_preserved api (sp_preserved_tokens params) {} of
        Inl e \<Rightarrow> Inl e
      | Inr preserved \<Rightarrow>
          (case (if gs_grammar gs \<noteq> [] \<and> \<not> gs_lazy gs \<and> gs_prefill gs \<noteq> []
                 then resolve_prefill api (gs_prefill gs) else Inr []) of
             Inl e \<Rightarrow> Inl e
           | Inr prefill \<Rightarrow>
               if gs_grammar gs = [] \<or> \<not> gs_lazy gs
               then Inr \<lparr>rt_preserved = preserved, rt_trigger_tokens = [],
                         rt_trigger_patterns = [], rt_prefill = prefill\<rparr>
               else
                 (case resolve_words api preserved (gs_trigger_words gs) [] (gs_trigger_patterns gs) of
                    Inl e \<Rightarrow> Inl e
                  | Inr (toks, pats) \<Rightarrow>
                      Inr \<lparr>rt_preserved = preserved, rt_trigger_tokens = toks,
                           rt_trigger_patterns = pats, rt_prefill = prefill\<rparr>)))"

lemma resolve_preserved_tok:
  assumes "vocab_laws api tok piece" "resolve_preserved api ts acc = Inr s" "\<forall>t\<in>set ts. fits_i32 t"
  shows "s = acc \<union> {k. \<exists>t\<in>set ts. tok t False True = [k]}"
  using assms(2,3)
proof (induction ts arbitrary: acc)
  case (Cons t ts)
  from Cons.prems have fits: "tokenize api t False True = Inr (tok t False True)"
    by (auto simp: tokenize_tok [OF assms(1)] split: if_splits)
  with Cons.prems have
    "s = (if length (tok t False True) = 1 then insert (tok t False True ! 0) acc else acc)
       \<union> {k. \<exists>t\<in>set ts. tok t False True = [k]}"
    by (intro Cons.IH) auto
  then show ?case by (auto simp: length_Suc_conv)
qed auto

lemma resolve_words_tok:
  assumes "vocab_laws api tok piece" "resolve_words api preserved ws toks pats = Inr (toks', pats')"
    "\<forall>w\<in>set ws. fits_i32 w"
  shows "set toks' = set toks \<union> {k \<in> preserved. \<exists>w\<in>set ws. tok w False True = [k]}
    \<and> set pats' = set pats \<union> regex_escape ` {w \<in> set ws. \<forall>k\<in>preserved. tok w False True \<noteq> [k]}"
  using assms(2,3)
proof (induction ws arbitrary: toks pats)
  case (Cons w ws)
  let ?ids = "tok w False True"
  from Cons.prems have fits: "tokenize api w False True = Inr ?ids"
    by (auto simp: tokenize_tok [OF assms(1)] split: if_splits)
  have ws: "\<forall>w\<in>set ws. fits_i32 w" using Cons.prems(2) by simp
  show ?case
  proof (cases "\<exists>k\<in>preserved. ?ids = [k]")
    case True
    then obtain k where k: "k \<in> preserved" "?ids = [k]" by blast
    then have "resolve_words api preserved ws (toks @ [k]) pats = Inr (toks', pats')"
      using Cons.prems fits by simp
    from Cons.IH [OF this ws] k show ?thesis by auto
  next
    case False
    then have "resolve_words api preserved ws toks (pats @ [regex_escape w]) = Inr (toks', pats')"
      using Cons.prems fits by (auto simp: length_Suc_conv split: if_splits)
    from Cons.IH [OF this ws] False show ?thesis by auto
  qed
qed auto

text \<open>
  C24. A lazy grammar loses no trigger: each trigger word starts the grammar either as a token, when
  it is one and the request preserves it, or as a pattern that matches exactly the word; the
  patterns of the request are kept, and nothing else triggers. The preserved tokens are exactly
  the preserved strings that are one token, and a lazy grammar consumes no prefill. The strings are
  those whose size leaves room in an \<open>int32_t\<close>, the only ones \<open>tokenize\<close> can hand to llama.cpp.
\<close>

theorem resolve_triggers:
  assumes "vocab_laws api tok piece" and "resolve api params = Inr r"
    and "gs_grammar (sp_grammar params) \<noteq> []" and "gs_lazy (sp_grammar params)"
    and "\<forall>s\<in>set (sp_preserved_tokens params) \<union> set (gs_trigger_words (sp_grammar params)).
           length s + 8 < 2 ^ 31"
  shows "rt_preserved r = {k. \<exists>s\<in>set (sp_preserved_tokens params). tok s False True = [k]}
    \<and> rt_prefill r = []
    \<and> set (rt_trigger_tokens r) =
        {k \<in> rt_preserved r. \<exists>w\<in>set (gs_trigger_words (sp_grammar params)). tok w False True = [k]}
    \<and> set (rt_trigger_patterns r) =
        set (gs_trigger_patterns (sp_grammar params))
        \<union> regex_escape ` {w \<in> set (gs_trigger_words (sp_grammar params)).
              \<forall>k\<in>rt_preserved r. tok w False True \<noteq> [k]}"
proof -
  obtain toks pats where r: "resolve_words api (rt_preserved r) (gs_trigger_words (sp_grammar params)) []
      (gs_trigger_patterns (sp_grammar params)) = Inr (toks, pats)"
    "r = \<lparr>rt_preserved = rt_preserved r, rt_trigger_tokens = toks, rt_trigger_patterns = pats, rt_prefill = []\<rparr>"
    and p: "resolve_preserved api (sp_preserved_tokens params) {} = Inr (rt_preserved r)"
    using assms(2-4) by (auto simp: resolve_def Let_def split: sum.splits)
  have sel: "rt_trigger_tokens r = toks" "rt_trigger_patterns r = pats" "rt_prefill r = []"
    by (subst r(2), simp)+
  have "\<forall>s\<in>set (sp_preserved_tokens params). fits_i32 s"
    "\<forall>s\<in>set (gs_trigger_words (sp_grammar params)). fits_i32 s"
    using assms(5) by (auto simp: fits_i32_def)
  with resolve_words_tok [OF assms(1) r(1)] resolve_preserved_tok [OF assms(1) p] sel
  show ?thesis by (auto simp: image_iff)
qed


definition sample_tool_params :: sampling_params where
  "sample_tool_params = default_sampling
     \<lparr>sp_grammar := \<lparr>gs_grammar = ''root'', gs_lazy = True, gs_trigger_patterns = [''x+''],
        gs_trigger_words = [''a'', ''b.'', ''c''], gs_prefill = []\<rparr>,
      sp_preserved_tokens := [''a'', ''bb'']\<rparr>"

definition sample_resolved :: resolved_tokens where
  "sample_resolved = \<lparr>rt_preserved = {1}, rt_trigger_tokens = [1],
     rt_trigger_patterns = [''x+'', ''b'' @ [CHR 0x5C] @ ''.'', ''c''], rt_prefill = []\<rparr>"

theorem resolve_triggers_witness:
  "resolve sample_api sample_tool_params = Inr sample_resolved
    \<and> set (rt_trigger_patterns sample_resolved)
      = set [''x+''] \<union> regex_escape ` (set [''a'', ''b.'', ''c''] - {''a''})"
proof -
  have run: "resolve sample_api sample_tool_params = Inr sample_resolved"
    by code_simp
  have ext: "gs_grammar (sp_grammar sample_tool_params) \<noteq> []" "gs_lazy (sp_grammar sample_tool_params)"
    "gs_trigger_patterns (sp_grammar sample_tool_params) = [''x+'']"
    "gs_trigger_words (sp_grammar sample_tool_params) = [''a'', ''b.'', ''c'']"
    "rt_preserved sample_resolved = {1}"
    "\<forall>s\<in>set (sp_preserved_tokens sample_tool_params) \<union> set (gs_trigger_words (sp_grammar sample_tool_params)).
       length s + 8 < 2 ^ 31"
    by (simp_all add: sample_tool_params_def sample_resolved_def)
  have fit: "{w \<in> set [''a'', ''b.'', ''c'']. \<forall>k\<in>{1}. map sample_token w \<noteq> [k]}
      = set [''a'', ''b.'', ''c''] - {''a''}"
    by code_simp
  from resolve_triggers [OF sample_vocab_laws run ext(1,2,6)]
  have "set (rt_trigger_patterns sample_resolved)
      = set [''x+''] \<union> regex_escape ` {w \<in> set [''a'', ''b.'', ''c''].
          \<forall>k\<in>{1}. map sample_token w \<noteq> [k]}"
    unfolding ext by blast
  with run fit show ?thesis by simp
qed

end
