(* ===== verification/Sampler.thy ===== *)
theory Sampler
  imports Tokenizer "HOL-Library.Multiset"
begin

text \<open>
  \<open>SamplerChain\<close> of src/engine.cpp: the stages of the chain, the grammar that is kept apart from
  it, the candidates it is given and the choice of one token. The chain and the grammar are
  llama.cpp's; freeing them has no counterpart here. The theory shows that giving the chain only
  the highest logits and checking the grammar afterwards is, for greedy decoding, the same as
  running both over the whole vocabulary.
\<close>

section \<open>State and construction\<close>

record ('h, 'g) sampler_chain =
  sc_n_vocab :: nat
  sc_n_selectable :: nat
  sc_chain :: 'h
  sc_grammar :: "'g option"

text \<open>The loop that advances a grammar over the prefill.\<close>

fun accept_all ::
  "('c, 'h, 'g) llama_api \<Rightarrow> 'g \<Rightarrow> token list \<Rightarrow> exn + 'g" where
  "accept_all api g [] = Inr g"
| "accept_all api g (t # ts) =
     (case api_grammar_accept api g t of
        Inl e \<Rightarrow> Inl e
      | Inr g' \<Rightarrow> accept_all api g' ts)"

lemma accept_all_append:
  "accept_all api g (xs @ ys) =
     (case accept_all api g xs of Inl e \<Rightarrow> Inl e | Inr g' \<Rightarrow> accept_all api g' ys)"
  by (induction xs arbitrary: g) (auto split: sum.splits)

definition add_grammar ::
  "('c, 'h, 'g) llama_api \<Rightarrow> sampling_params \<Rightarrow> resolved_tokens \<Rightarrow> exn + 'g" where
  "add_grammar api params resolved =
     (let gs = sp_grammar params in
      case (if gs_lazy gs
            then api_grammar_init_lazy api (c_str (gs_grammar gs)) ''root''
                   (map c_str (rt_trigger_patterns resolved)) (rt_trigger_tokens resolved)
            else api_grammar_init api (c_str (gs_grammar gs)) ''root'') of
        None \<Rightarrow> Inl (EngineError ''failed to parse the grammar'')
      | Some g \<Rightarrow>
          (case accept_all api g (rt_prefill resolved) of
             Inl e \<Rightarrow>
               (case exn_what e of
                  Some m \<Rightarrow>
                    Inl (EngineError (''the grammar does not accept the prompt's final text: '' @ m))
                | None \<Rightarrow> Inl e)
           | Inr g' \<Rightarrow> Inr g'))"

definition build ::
  "('c, 'h, 'g) llama_api \<Rightarrow> 'h \<Rightarrow> sampling_params \<Rightarrow> resolved_tokens \<Rightarrow> exn + ('h \<times> 'g option)" where
  "build api chain params resolved =
     (case (if gs_grammar (sp_grammar params) \<noteq> []
            then map_sum id Some (add_grammar api params resolved) else Inr None) of
        Inl e \<Rightarrow> Inl e
      | Inr grammar \<Rightarrow>
          if flt_le (sp_temperature params) (Fin 0)
          then Inr (api_chain_add api chain Greedy, grammar)
          else
            (let chain = (if 0 < sp_top_k params
                          then api_chain_add api chain (Top_k (sp_top_k params)) else chain);
                 chain = (if flt_lt (sp_top_p params) (Fin 1)
                          then api_chain_add api chain (Top_p (sp_top_p params)) else chain);
                 chain = (if flt_lt (Fin 0) (sp_min_p params)
                          then api_chain_add api chain (Min_p (sp_min_p params)) else chain);
                 chain = api_chain_add api chain (Temp (sp_temperature params));
                 chain = api_chain_add api chain
                           (Dist (case sp_seed params of Some s \<Rightarrow> s | None \<Rightarrow> api_default_seed api))
             in Inr (chain, grammar)))"

definition new_sampler ::
  "('c, 'h, 'g) llama_api \<Rightarrow> sampling_params \<Rightarrow> resolved_tokens \<Rightarrow> exn + ('h, 'g) sampler_chain" where
  "new_sampler api params resolved =
     (let n_vocab = api_n_vocab api;
          n_selectable = (if flt_le (sp_temperature params) (Fin 0) then 1
                          else if 0 < sp_top_k params then min (nat (sp_top_k params)) n_vocab
                          else n_vocab)
      in case api_chain_init api of
           None \<Rightarrow> Inl (EngineError ''failed to create the sampler chain'')
         | Some chain \<Rightarrow>
             (case build api chain params resolved of
                Inl e \<Rightarrow> Inl e
              | Inr (chain', grammar) \<Rightarrow>
                  Inr \<lparr>sc_n_vocab = n_vocab, sc_n_selectable = n_selectable, sc_chain = chain',
                       sc_grammar = grammar\<rparr>))"

section \<open>Choosing a token\<close>

text \<open>The view of the whole vocabulary with the logits of the last position.\<close>

definition vocab_view :: "('c, 'h, 'g) llama_api \<Rightarrow> nat \<Rightarrow> 'c \<Rightarrow> token_data list" where
  "vocab_view api n_vocab c =
     map (\<lambda>i. \<lparr>td_id = int i, td_logit = api_logits api c (int i), td_p = Fin 0\<rparr>) [0..<n_vocab]"

text \<open>\<open>std::ranges::max_element\<close> by logit, from the best element so far.\<close>

fun max_element :: "token_data \<Rightarrow> token_data list \<Rightarrow> token_data" where
  "max_element best [] = best"
| "max_element best (d # ds) =
     (if flt_lt (td_logit best) (td_logit d) then max_element d ds else max_element best ds)"

text \<open>
  \<open>std::ranges::partial_sort_copy\<close> by descending logit. The standard leaves the order of equal
  logits open; here it is the order of the tokens, and nothing proved below depends on it.
\<close>

definition partial_sort_copy :: "nat \<Rightarrow> token_data list \<Rightarrow> token_data list" where
  "partial_sort_copy n ds = take n (rev (sort_key td_logit (rev ds)))"

definition candidates ::
  "('c, 'h, 'g) llama_api \<Rightarrow> nat \<Rightarrow> 'c \<Rightarrow> nat \<Rightarrow> token_data list" where
  "candidates api n_vocab c n_best =
     (let vocab = vocab_view api n_vocab c in
      if n_best = n_vocab then vocab
      else if n_best = 1 then [max_element (hd vocab) (tl vocab)]
      else partial_sort_copy n_best vocab)"

text \<open>The array given to the chain: behind the grammar when asked.\<close>

definition candidate_array ::
  "('c, 'h, 'g) llama_api \<Rightarrow> ('h, 'g) sampler_chain \<Rightarrow> 'c \<Rightarrow> nat \<Rightarrow> bool \<Rightarrow> token_array" where
  "candidate_array api s c n_best apply_grammar =
     (let array = \<lparr>ta_data = candidates api (sc_n_vocab s) c n_best, ta_selected = - 1,
                   ta_sorted = (n_best < sc_n_vocab s)\<rparr>
      in case sc_grammar s of
           Some g \<Rightarrow> if apply_grammar then api_grammar_apply api g array else array
         | None \<Rightarrow> array)"

definition choose_token ::
  "('c, 'h, 'g) llama_api \<Rightarrow> ('h, 'g) sampler_chain \<Rightarrow> 'c \<Rightarrow> nat \<Rightarrow> bool
     \<Rightarrow> (exn + token) \<times> ('h, 'g) sampler_chain" where
  "choose_token api s c n_best apply_grammar =
     (case api_chain_apply api (sc_chain s) (candidate_array api s c n_best apply_grammar) of
        (array, chain) \<Rightarrow>
          (if ta_selected array < 0 \<or> int (length (ta_data array)) \<le> ta_selected array
           then Inl (EngineError ''the sampler chain selected no token'')
           else Inr (td_id (ta_data array ! nat (ta_selected array))),
           s\<lparr>sc_chain := chain\<rparr>))"

text \<open>Whether the grammar refuses a token: the check of \<open>sample\<close> on an array of one.\<close>

definition refused :: "('c, 'h, 'g) llama_api \<Rightarrow> 'g \<Rightarrow> token \<Rightarrow> bool" where
  "refused api g t =
     (td_logit (ta_data (api_grammar_apply api g
        \<lparr>ta_data = [\<lparr>td_id = t, td_logit = Fin 1, td_p = Fin 0\<rparr>], ta_selected = - 1,
         ta_sorted = False\<rparr>) ! 0) = NegInf)"

definition sample ::
  "('c, 'h, 'g) llama_api \<Rightarrow> ('h, 'g) sampler_chain \<Rightarrow> 'c
     \<Rightarrow> (exn + token) \<times> ('h, 'g) sampler_chain" where
  "sample api s c =
     (case choose_token api s c (sc_n_selectable s) False of
        (Inl e, s) \<Rightarrow> (Inl e, s)
      | (Inr t, s) \<Rightarrow>
          (case sc_grammar s of
             None \<Rightarrow> (Inr t, s\<lparr>sc_chain := api_chain_accept api (sc_chain s) t\<rparr>)
           | Some g \<Rightarrow>
               (case (if refused api g t then choose_token api s c (sc_n_vocab s) True else (Inr t, s)) of
                  (Inl e, s) \<Rightarrow> (Inl e, s)
                | (Inr t, s) \<Rightarrow>
                    (case api_grammar_accept api g t of
                       Inl e \<Rightarrow> (Inl e, s)
                     | Inr g' \<Rightarrow>
                         (Inr t, s\<lparr>sc_grammar := Some g',
                                   sc_chain := api_chain_accept api (sc_chain s) t\<rparr>)))))"

text \<open>What a sampled token does to the grammar: it is accepted, or there is none.\<close>

definition advance_grammar ::
  "('c, 'h, 'g) llama_api \<Rightarrow> 'g option \<Rightarrow> token list \<Rightarrow> exn + 'g option" where
  "advance_grammar api grammar ts =
     (case grammar of
        None \<Rightarrow> Inr None
      | Some g \<Rightarrow> map_sum id Some (accept_all api g ts))"

lemma advance_grammar_Nil [simp]: "advance_grammar api gr [] = Inr gr"
  by (simp add: advance_grammar_def split: option.splits)

lemma advance_grammar_Cons:
  "advance_grammar api gr [t] = Inr gr' \<Longrightarrow>
     advance_grammar api gr (t # ts) = advance_grammar api gr' ts"
  by (auto simp: advance_grammar_def split: option.splits sum.splits)

lemma choose_token_grammar [simp]:
  "choose_token api s c k gr = (r, s') \<Longrightarrow> sc_grammar s' = sc_grammar s"
  by (auto simp: choose_token_def split: prod.splits)

lemma sample_advances:
  assumes "sample api s c = (Inr t, s')"
  shows "advance_grammar api (sc_grammar s) [t] = Inr (sc_grammar s')"
proof -
  obtain r s1 where c: "choose_token api s c (sc_n_selectable s) False = (r, s1)"
    by (metis prod.exhaust)
  with assms obtain u where r: "r = Inr u" by (cases r) (auto simp: sample_def)
  have g1: "sc_grammar s1 = sc_grammar s" using c by simp
  show ?thesis
  proof (cases "sc_grammar s")
    case None
    with assms c r g1 show ?thesis by (auto simp: sample_def advance_grammar_def)
  next
    case (Some g)
    obtain r2 s2 where c2: "(if refused api g u then choose_token api s1 c (sc_n_vocab s1) True else (Inr u, s1))
        = (r2, s2)" by (metis prod.exhaust)
    with assms c r g1 Some obtain v g' where "r2 = Inr v" "api_grammar_accept api g v = Inr g'"
      "t = v" "sc_grammar s' = Some g'"
      by (cases r2) (auto simp: sample_def split: sum.splits)
    with Some show ?thesis by (simp add: advance_grammar_def)
  qed
qed

section \<open>The candidates\<close>

text \<open>Position \<open>i\<close> holds the first of the greatest elements.\<close>

definition first_max :: "'a::linorder list \<Rightarrow> nat \<Rightarrow> bool" where
  "first_max xs i \<longleftrightarrow>
     i < length xs \<and> (\<forall>j<i. xs ! j < xs ! i) \<and> (\<forall>j<length xs. xs ! j \<le> xs ! i)"

lemma first_max_unique: "first_max xs i \<Longrightarrow> first_max xs j \<Longrightarrow> i = j"
  unfolding first_max_def by (metis leD linorder_neqE_nat)

lemma first_max_single [simp]: "first_max [x] i \<longleftrightarrow> i = 0"
  by (auto simp: first_max_def)

lemma first_max_snoc:
  assumes "first_max xs i"
  shows "first_max (xs @ [y]) (if xs ! i < y then length xs else i)"
  using assms unfolding first_max_def
  by (auto simp: nth_append not_less less_Suc_eq intro: le_less_trans)

text \<open>Lowering elements other than a first maximum leaves it one.\<close>

lemma first_max_mask:
  assumes "first_max xs i" "length ys = length xs" "ys ! i = xs ! i"
    and "\<And>j. j < length xs \<Longrightarrow> ys ! j \<le> xs ! j"
  shows "first_max ys i"
  unfolding first_max_def
proof (intro conjI allI impI)
  note m = assms(1) [unfolded first_max_def]
  show "i < length ys" using m assms(2) by simp
  show "ys ! j < ys ! i" if "j < i" for j
    using m assms(3) assms(4) [of j] that by (metis le_less_trans less_trans)
  show "ys ! j \<le> ys ! i" if "j < length ys" for j
    using m assms(2,3) assms(4) [of j] that by (metis order_trans)
qed

lemma max_element_from:
  assumes "first_max (map td_logit xs) i" "\<forall>d\<in>set (xs @ ds). td_logit d \<noteq> NaN"
  shows "\<exists>j. first_max (map td_logit (xs @ ds)) j \<and> max_element (xs ! i) ds = (xs @ ds) ! j"
  using assms
proof (induction ds arbitrary: xs i)
  case Nil
  then show ?case by auto
next
  case (Cons d ds)
  let ?i = "if td_logit (xs ! i) < td_logit d then length xs else i"
  have i: "i < length xs" using Cons.prems(1) by (simp add: first_max_def)
  then have "flt_lt (td_logit (xs ! i)) (td_logit d) \<longleftrightarrow> td_logit (xs ! i) < td_logit d"
    using Cons.prems(2) by (intro flt_lt_less) auto
  then have step: "max_element (xs ! i) (d # ds) = max_element ((xs @ [d]) ! ?i) ds"
    using i by (simp add: nth_append)
  have "first_max (map td_logit (xs @ [d])) ?i"
    using first_max_snoc [OF Cons.prems(1), of "td_logit d"] i by (auto split: if_splits)
  with Cons.IH [of "xs @ [d]" ?i] Cons.prems(2) step show ?case by auto
qed

lemma max_element_first_max:
  assumes "ds \<noteq> []" "\<forall>d\<in>set ds. td_logit d \<noteq> NaN"
  shows "\<exists>j. first_max (map td_logit ds) j \<and> max_element (hd ds) (tl ds) = ds ! j"
  using max_element_from [of "[hd ds]" 0 "tl ds"] assms by (cases ds) auto

lemma length_vocab_view [simp]: "length (vocab_view api n c) = n"
  by (simp add: vocab_view_def)

lemma vocab_view_nth:
  "i < n \<Longrightarrow> vocab_view api n c ! i = \<lparr>td_id = int i, td_logit = api_logits api c (int i), td_p = Fin 0\<rparr>"
  by (simp add: vocab_view_def)

lemma map_logit_view: "map td_logit (vocab_view api n c) = map (\<lambda>i. api_logits api c (int i)) [0..<n]"
  by (simp add: vocab_view_def comp_def)

lemma distinct_vocab_view: "distinct (map td_id (vocab_view api n c))"
  by (simp add: vocab_view_def comp_def distinct_map)

lemma partial_sort_copy_spec:
  "\<exists>rest. mset (partial_sort_copy k ds) + rest = mset ds
    \<and> length (partial_sort_copy k ds) = min k (length ds)
    \<and> sorted_wrt (\<ge>) (map td_logit (partial_sort_copy k ds))
    \<and> (\<forall>d \<in># rest. \<forall>e \<in> set (partial_sort_copy k ds). td_logit d \<le> td_logit e)"
proof -
  let ?s = "rev (sort_key td_logit (rev ds))"
  have sorted: "sorted_wrt (\<ge>) (map td_logit ?s)"
    by (simp add: rev_map sorted_wrt_rev flip: rev_map)
  have "sorted_wrt (\<ge>) (map td_logit (take k ?s) @ map td_logit (drop k ?s))"
    using sorted by (metis append_take_drop_id map_append)
  then have "sorted_wrt (\<ge>) (map td_logit (take k ?s))"
    "\<forall>d\<in>set (drop k ?s). \<forall>e\<in>set (take k ?s). td_logit d \<le> td_logit e"
    by (auto simp: sorted_wrt_append)
  moreover have "mset (take k ?s) + mset (drop k ?s) = mset ds"
    by (simp flip: mset_append)
  ultimately show ?thesis
    unfolding partial_sort_copy_def by (intro exI [of _ "mset (drop k ?s)"]) auto
qed

lemma distinct_partial_sort_copy:
  "distinct (map f ds) \<Longrightarrow> distinct (map f (partial_sort_copy k ds))"
  unfolding partial_sort_copy_def take_map [symmetric]
  by (intro distinct_take) (simp add: distinct_map rev_map [symmetric])

text \<open>
  C25. The chain is given the highest logits there are: the requested number of candidates, each a
  token of the vocabulary with its logit, no token twice, and no token left out has a higher logit
  than one given. Fewer than the whole vocabulary come in descending order.
\<close>

theorem candidates_are_the_highest:
  assumes "\<And>i. api_logits api c i \<noteq> NaN" and "0 < n_best" and "n_best \<le> n_vocab"
  shows "length (candidates api n_vocab c n_best) = n_best
    \<and> set (candidates api n_vocab c n_best) \<subseteq> set (vocab_view api n_vocab c)
    \<and> distinct (map td_id (candidates api n_vocab c n_best))
    \<and> (\<forall>d\<in>set (vocab_view api n_vocab c) - set (candidates api n_vocab c n_best).
         \<forall>e\<in>set (candidates api n_vocab c n_best). flt_le (td_logit d) (td_logit e))
    \<and> (n_best < n_vocab \<longrightarrow>
         sorted_wrt (\<lambda>d e. flt_le (td_logit e) (td_logit d)) (candidates api n_vocab c n_best))"
proof -
  let ?v = "vocab_view api n_vocab c"
  have le: "flt_le (td_logit d) (td_logit e) \<longleftrightarrow> td_logit d \<le> td_logit e"
    if "d \<in> set ?v" "e \<in> set ?v" for d e
    using that assms(1) by (intro flt_le_less_eq) (auto simp: vocab_view_def)
  consider (all) "n_best = n_vocab" | (one) "n_best = 1" "n_best \<noteq> n_vocab"
    | (part) "n_best \<noteq> 1" "n_best \<noteq> n_vocab" by blast
  then show ?thesis
  proof cases
    case all
    then show ?thesis by (simp add: candidates_def distinct_vocab_view)
  next
    case one
    have "?v \<noteq> []" "\<forall>d\<in>set ?v. td_logit d \<noteq> NaN"
      using assms length_vocab_view [of api n_vocab c] by (auto simp: vocab_view_def)
    then obtain j where j: "first_max (map td_logit ?v) j" "max_element (hd ?v) (tl ?v) = ?v ! j"
      using max_element_first_max by blast
    then have "?v ! j \<in> set ?v" "\<forall>d\<in>set ?v. td_logit d \<le> td_logit (?v ! j)"
      by (auto simp: first_max_def in_set_conv_nth)
    with one j le show ?thesis by (auto simp: candidates_def)
  next
    case part
    let ?c = "partial_sort_copy n_best ?v"
    obtain rest where r: "mset ?c + rest = mset ?v" "length ?c = min n_best (length ?v)"
      "sorted_wrt (\<ge>) (map td_logit ?c)" "\<forall>d \<in># rest. \<forall>e \<in> set ?c. td_logit d \<le> td_logit e"
      using partial_sort_copy_spec by blast
    have union: "set ?v = set ?c \<union> set_mset rest" using r(1) by (metis set_mset_mset set_mset_union)
    have "sorted_wrt (\<lambda>d e. td_logit e \<le> td_logit d) ?c" using r(3) by (simp add: sorted_wrt_map)
    then have "sorted_wrt (\<lambda>d e. flt_le (td_logit e) (td_logit d)) ?c"
      by (rule sorted_wrt_mono_rel [rotated]) (use le union in auto)
    moreover have "\<forall>d\<in>set ?v - set ?c. \<forall>e\<in>set ?c. flt_le (td_logit d) (td_logit e)"
      using r(4) le union by auto
    moreover have "candidates api n_vocab c n_best = ?c" using part by (simp add: candidates_def)
    moreover have "length ?c = n_best" using r(2) assms(3) by simp
    ultimately show ?thesis
      using union distinct_partial_sort_copy [OF distinct_vocab_view [of api n_vocab c], of n_best]
      by auto
  qed
qed

lemma upt_4: "[0..<4] = [0, 1, 2, 3]"
  by code_simp

lemma sample_view:
  "vocab_view sample_api 4 [1] =
     [\<lparr>td_id = 0, td_logit = Fin 0, td_p = Fin 0\<rparr>, \<lparr>td_id = 1, td_logit = Fin 0, td_p = Fin 0\<rparr>,
      \<lparr>td_id = 2, td_logit = Fin 1, td_p = Fin 0\<rparr>, \<lparr>td_id = 3, td_logit = Fin 0, td_p = Fin 0\<rparr>]"
  by (simp add: vocab_view_def upt_4 sample_api_def)

theorem candidates_are_the_highest_witness:
  "distinct (map td_id (candidates sample_api 4 [1] 2)) \<and> length (candidates sample_api 4 [1] 2) = 2
   \<and> map td_id (candidates sample_api 4 [1] 2) = [2, 0]"
proof -
  have finite: "api_logits sample_api [1] i \<noteq> NaN" for i by (simp add: sample_api_def)
  have "map td_id (candidates sample_api 4 [1] 2) = [2, 0]"
    by (simp add: candidates_def sample_view partial_sort_copy_def less_eq_flt_def less_flt_def)
  moreover have "(0::nat) < 2" "(2::nat) \<le> 4" by simp_all
  note candidates_are_the_highest [of sample_api "[1]", OF finite this]
  ultimately show ?thesis by blast
qed

section \<open>Greedy decoding and the grammar\<close>

text \<open>
  What is relied on of llama.cpp's samplers: a grammar sampler sets the logits of the tokens it
  refuses to minus infinity and leaves everything else alone; a chain whose stage is greedy
  selects the first candidate of greatest logit. \<open>G\<close> holds of the states of such a chain.
\<close>

definition grammar_laws :: "('c, 'h, 'g) llama_api \<Rightarrow> ('g \<Rightarrow> token \<Rightarrow> bool) \<Rightarrow> bool" where
  "grammar_laws api allowed \<longleftrightarrow>
     (\<forall>g a. api_grammar_apply api g a =
        a\<lparr>ta_data := map (\<lambda>d. if allowed g (td_id d) then d else d\<lparr>td_logit := NegInf\<rparr>) (ta_data a)\<rparr>)"

definition greedy_laws :: "('c, 'h, 'g) llama_api \<Rightarrow> ('h \<Rightarrow> bool) \<Rightarrow> bool" where
  "greedy_laws api G \<longleftrightarrow>
     (\<forall>h. api_chain_init api = Some h \<longrightarrow> G (api_chain_add api h Greedy))
     \<and> (\<forall>h t. G h \<longrightarrow> G (api_chain_accept api h t))
     \<and> (\<forall>h a a' h'. G h \<longrightarrow> api_chain_apply api h a = (a', h') \<longrightarrow> G h'
          \<and> (ta_data a \<noteq> [] \<longrightarrow> NaN \<notin> td_logit ` set (ta_data a) \<longrightarrow>
               ta_data a' = ta_data a
               \<and> (\<exists>i. ta_selected a' = int i \<and> first_max (map td_logit (ta_data a)) i)))"

lemma greedy_apply:
  assumes "greedy_laws api G" "G h" "ta_data a \<noteq> []" "NaN \<notin> td_logit ` set (ta_data a)"
  obtains a' h' i where "api_chain_apply api h a = (a', h')" "G h'" "ta_data a' = ta_data a"
    "ta_selected a' = int i" "first_max (map td_logit (ta_data a)) i"
proof -
  obtain a' h' where app: "api_chain_apply api h a = (a', h')" by (metis prod.exhaust)
  from assms(1) have "G h \<longrightarrow> api_chain_apply api h a = (a', h') \<longrightarrow> G h'
          \<and> (ta_data a \<noteq> [] \<longrightarrow> NaN \<notin> td_logit ` set (ta_data a) \<longrightarrow>
               ta_data a' = ta_data a
               \<and> (\<exists>i. ta_selected a' = int i \<and> first_max (map td_logit (ta_data a)) i))"
    unfolding greedy_laws_def by blast
  with app assms that show ?thesis by blast
qed

text \<open>The logits of the vocabulary, behind a grammar or not.\<close>

definition masked_logits ::
  "('c, 'h, 'g) llama_api \<Rightarrow> ('g \<Rightarrow> token \<Rightarrow> bool) \<Rightarrow> nat \<Rightarrow> 'c \<Rightarrow> 'g option \<Rightarrow> flt list" where
  "masked_logits api allowed n c grammar =
     map (\<lambda>i. if (case grammar of None \<Rightarrow> True | Some g \<Rightarrow> allowed g (int i))
              then api_logits api c (int i) else NegInf) [0..<n]"

lemma masked_logits_None: "masked_logits api allowed n c None = map td_logit (vocab_view api n c)"
  by (simp add: masked_logits_def map_logit_view)

lemma choose_greedy:
  assumes "greedy_laws api G" "G (sc_chain s)"
    and "ta_data (candidate_array api s c k gr) = data" "data \<noteq> []" "NaN \<notin> td_logit ` set data"
  obtains h i where "choose_token api s c k gr = (Inr (td_id (data ! i)), s\<lparr>sc_chain := h\<rparr>)" "G h"
    "first_max (map td_logit data) i"
proof -
  obtain a' h i where x: "api_chain_apply api (sc_chain s) (candidate_array api s c k gr) = (a', h)"
    "G h" "ta_data a' = data" "ta_selected a' = int i" "first_max (map td_logit data) i"
    by (rule greedy_apply [OF assms(1,2), of "candidate_array api s c k gr"])
       (use assms(3-5) in simp_all)
  have "i < length data" using x(5) by (simp add: first_max_def)
  with x(1,3,4) have "choose_token api s c k gr = (Inr (td_id (data ! i)), s\<lparr>sc_chain := h\<rparr>)"
    by (simp add: choose_token_def)
  with that x(2,5) show ?thesis by blast
qed

text \<open>The cheap choice: one candidate, and no grammar.\<close>

lemma candidate_one:
  assumes "\<And>i. api_logits api c i \<noteq> NaN" "0 < n"
  obtains j where "candidates api n c 1 = [vocab_view api n c ! j]"
    "first_max (map td_logit (vocab_view api n c)) j" "j < n"
proof -
  let ?v = "vocab_view api n c"
  have v: "?v \<noteq> []" "\<forall>d\<in>set ?v. td_logit d \<noteq> NaN"
    using assms length_vocab_view [of api n c] by (auto simp: vocab_view_def)
  obtain j where j: "first_max (map td_logit ?v) j" "max_element (hd ?v) (tl ?v) = ?v ! j"
    using max_element_first_max [OF v] by blast
  have less: "j < n" using j(1) by (simp add: first_max_def)
  have "candidates api n c 1 = [?v ! j]"
  proof (cases "n = 1")
    case True
    then have "?v = [?v ! 0]" by (simp add: vocab_view_def)
    with True less show ?thesis by (simp add: candidates_def)
  next
    case False
    with j(2) show ?thesis by (simp add: candidates_def)
  qed
  with that j(1) less show ?thesis by blast
qed

lemma choose_one:
  assumes "greedy_laws api G" "G (sc_chain s)" "\<And>i. api_logits api c i \<noteq> NaN" "0 < sc_n_vocab s"
  obtains h i where "choose_token api s c 1 False = (Inr (int i), s\<lparr>sc_chain := h\<rparr>)" "G h"
    "first_max (map td_logit (vocab_view api (sc_n_vocab s) c)) i"
proof -
  obtain j where j: "candidates api (sc_n_vocab s) c 1 = [vocab_view api (sc_n_vocab s) c ! j]"
    "first_max (map td_logit (vocab_view api (sc_n_vocab s) c)) j" "j < sc_n_vocab s"
    by (rule candidate_one [OF assms(3,4)])
  let ?d = "\<lparr>td_id = int j, td_logit = api_logits api c (int j), td_p = Fin 0\<rparr>"
  have data: "ta_data (candidate_array api s c 1 False) = [?d]"
    using j(1) vocab_view_nth [OF j(3), of api c]
    by (simp add: candidate_array_def Let_def split: option.splits)
  have finite: "NaN \<notin> td_logit ` set [?d]" using assms(3) [of "int j"] by auto
  obtain h i where x: "choose_token api s c 1 False = (Inr (td_id ([?d] ! i)), s\<lparr>sc_chain := h\<rparr>)" "G h"
    "first_max (map td_logit [?d]) i"
    by (rule choose_greedy [OF assms(1,2) data _ finite]) simp_all
  from x(3) have "i = 0" by simp
  with x(1,2) j(2) that show ?thesis by simp
qed

text \<open>The retry: the whole vocabulary, behind the grammar.\<close>

lemma choose_masked:
  assumes "greedy_laws api G" "grammar_laws api allowed" "G (sc_chain s)" "sc_grammar s = Some g"
    and "\<And>i. api_logits api c i \<noteq> NaN" "0 < sc_n_vocab s"
  obtains h i where
    "choose_token api s c (sc_n_vocab s) True = (Inr (int i), s\<lparr>sc_chain := h\<rparr>)" "G h"
    "first_max (masked_logits api allowed (sc_n_vocab s) c (Some g)) i"
proof -
  let ?n = "sc_n_vocab s"
  define data where "data =
    map (\<lambda>d. if allowed g (td_id d) then d else d\<lparr>td_logit := NegInf\<rparr>) (vocab_view api ?n c)"
  have a: "ta_data (candidate_array api s c ?n True) = data"
    using assms(2,4) by (simp add: grammar_laws_def candidates_def candidate_array_def data_def)
  have logits: "map td_logit data = masked_logits api allowed ?n c (Some g)"
    by (simp add: masked_logits_def vocab_view_def data_def)
  have finite: "NaN \<notin> td_logit ` set data"
    using assms(5) by (auto simp: data_def vocab_view_def) metis
  have len: "length data = ?n" by (simp add: data_def)
  then have "data \<noteq> []" using assms(6) by auto
  then obtain h i where x: "choose_token api s c ?n True = (Inr (td_id (data ! i)), s\<lparr>sc_chain := h\<rparr>)"
    "G h" "first_max (map td_logit data) i"
    by (rule choose_greedy [OF assms(1,3) a _ finite])
  then have "i < ?n" using len by (simp add: first_max_def)
  then have "td_id (data ! i) = int i" by (simp add: data_def vocab_view_nth)
  with that x logits show ?thesis by metis
qed

text \<open>
  C18. Greedy decoding picks the most likely token the grammar allows, the first of several equally
  likely ones: giving the chain a single candidate and asking the grammar about that token alone
  is the same as running the grammar over the whole vocabulary before the chain. The grammar then
  has to accept the token, or the generation fails with its error.
\<close>

theorem greedy_sampling_is_grammar_first:
  assumes "greedy_laws api G" and "grammar_laws api allowed" and "G (sc_chain s)"
    and "sc_n_selectable s = 1" and "0 < sc_n_vocab s" and "\<And>i. api_logits api c i \<noteq> NaN"
  shows "\<exists>i s'. first_max (masked_logits api allowed (sc_n_vocab s) c (sc_grammar s)) i
    \<and> G (sc_chain s')
    \<and> sample api s c =
        (case sc_grammar s of
           None \<Rightarrow> (Inr (int i), s')
         | Some g \<Rightarrow>
             (case api_grammar_accept api g (int i) of
                Inl e \<Rightarrow> (Inl e, s')
              | Inr g' \<Rightarrow> (Inr (int i), s'\<lparr>sc_grammar := Some g'\<rparr>)))"
proof -
  let ?n = "sc_n_vocab s" and ?v = "vocab_view api (sc_n_vocab s) c"
  have accept: "G (api_chain_accept api h t)" if "G h" for h t
    using assms(1) that unfolding greedy_laws_def by blast
  obtain h i where one: "choose_token api s c 1 False = (Inr (int i), s\<lparr>sc_chain := h\<rparr>)" "G h"
    "first_max (map td_logit ?v) i"
    by (rule choose_one [OF assms(1,3,6,5)])
  show ?thesis
  proof (cases "sc_grammar s")
    case None
    with one assms(4) accept show ?thesis
      by (intro exI [of _ i] exI [of _ "s\<lparr>sc_chain := api_chain_accept api h (int i)\<rparr>"])
         (simp add: sample_def masked_logits_None)
  next
    case (Some g)
    have refused: "refused api g t \<longleftrightarrow> \<not> allowed g t" for t
      using assms(2) by (simp add: refused_def grammar_laws_def)
    show ?thesis
    proof (cases "allowed g (int i)")
      case True
      have "first_max (masked_logits api allowed ?n c (Some g)) i"
        using one(3) True NegInf_least [OF assms(6)]
        by (intro first_max_mask [OF one(3)]) (auto simp: masked_logits_def map_logit_view first_max_def)
      with one Some True refused assms(4) accept show ?thesis
        by (intro exI [of _ i]
              exI [of _ "s\<lparr>sc_chain := if is_ok (api_grammar_accept api g (int i))
                then api_chain_accept api h (int i) else h\<rparr>"])
           (auto simp: sample_def split: sum.splits)
    next
      case False
      let ?s = "s\<lparr>sc_chain := h\<rparr>"
      obtain h' j where two: "choose_token api ?s c ?n True = (Inr (int j), s\<lparr>sc_chain := h'\<rparr>)" "G h'"
        "first_max (masked_logits api allowed ?n c (Some g)) j"
        by (rule choose_masked [OF assms(1,2), of ?s g c])
           (use one(2) Some assms(5,6) in simp_all)
      with one Some False refused assms(4) accept show ?thesis
        by (intro exI [of _ j]
              exI [of _ "s\<lparr>sc_chain := if is_ok (api_grammar_accept api g (int j))
                then api_chain_accept api h' (int j) else h'\<rparr>"])
           (auto simp: sample_def split: sum.splits)
    qed
  qed
qed

lemma best_index_first_max:
  assumes "first_max xs best" "hi = xs ! best" "n = length xs" "NaN \<notin> set xs \<union> td_logit ` set ds"
  shows "first_max (xs @ map td_logit ds) (best_index ds n best hi)"
  using assms
proof (induction ds arbitrary: xs n best hi)
  case Nil
  then show ?case by simp
next
  case (Cons d ds)
  have b: "best < length xs" using Cons.prems(1) by (simp add: first_max_def)
  then have "hi \<noteq> NaN" using Cons.prems(2,4) nth_mem by fastforce
  then have lt: "flt_lt hi (td_logit d) \<longleftrightarrow> xs ! best < td_logit d"
    using Cons.prems(2) flt_lt_less by simp
  show ?case
    using Cons.IH [of "xs @ [td_logit d]" "if xs ! best < td_logit d then length xs else best"
        "if xs ! best < td_logit d then td_logit d else hi" "Suc n"]
      first_max_snoc [OF Cons.prems(1), of "td_logit d"] b lt Cons.prems
    by (auto simp: nth_append split: if_splits)
qed

lemma sample_greedy_laws: "greedy_laws sample_api (\<lambda>_. True)"
proof -
  have "first_max (map td_logit ds) (best_index ds 0 0 NegInf)"
    if "ds \<noteq> []" "NaN \<notin> td_logit ` set ds" for ds
  proof (cases ds)
    case (Cons d ds')
    with that have "td_logit d \<noteq> NaN" by auto
    then have "best_index ds 0 0 NegInf = best_index ds' 1 0 (td_logit d)"
      using Cons by (cases "td_logit d") auto
    with best_index_first_max [of "[td_logit d]" 0 "td_logit d" 1 ds'] Cons that
    show ?thesis by simp
  qed (use that in simp)
  then show ?thesis by (simp add: greedy_laws_def sample_api_def)
qed

lemma sample_grammar_laws: "grammar_laws sample_api (\<lambda>g t. t \<in> set g)"
  by (simp add: grammar_laws_def sample_api_def)

definition sample_greedy :: "(sampler list, token list) sampler_chain" where
  "sample_greedy =
     \<lparr>sc_n_vocab = 4, sc_n_selectable = 1, sc_chain = [Greedy], sc_grammar = Some [1, 0]\<rparr>"

theorem greedy_sampling_is_grammar_first_witness:
  "fst (sample sample_api sample_greedy [1]) = Inr 0"
proof -
  have m: "masked_logits sample_api (\<lambda>g t. t \<in> set g) 4 [1] (Some [1, 0]) = [Fin 0, Fin 0, NegInf, NegInf]"
    by (simp add: masked_logits_def upt_4 sample_api_def)
  have "first_max [Fin 0, Fin 0, NegInf, NegInf] 0"
    by (auto simp: first_max_def less_Suc_eq numeral_eq_Suc less_eq_flt_def less_flt_def)
  then have first: "i = 0" if "first_max [Fin 0, Fin 0, NegInf, NegInf] i" for i
    using first_max_unique that by blast
  have finite: "api_logits sample_api [1] i \<noteq> NaN" for i by (simp add: sample_api_def)
  obtain i s' where i: "first_max (masked_logits sample_api (\<lambda>g t. t \<in> set g) 4 [1] (Some [1, 0])) i"
    "sample sample_api sample_greedy [1] =
       (case api_grammar_accept sample_api [1, 0] (int i) of
          Inl e \<Rightarrow> (Inl e, s') | Inr g' \<Rightarrow> (Inr (int i), s'\<lparr>sc_grammar := Some g'\<rparr>))"
    using greedy_sampling_is_grammar_first [OF sample_greedy_laws sample_grammar_laws _ _ _ finite,
        of sample_greedy]
    by (auto simp: sample_greedy_def)
  then have "i = 0" using first by (simp add: m)
  with i(2) show ?thesis by (simp add: sample_api_def)
qed

section \<open>What the constructor builds\<close>

text \<open>The stages a request asks for, in the order they run.\<close>

definition stages_of :: "('c, 'h, 'g) llama_api \<Rightarrow> sampling_params \<Rightarrow> sampler list" where
  "stages_of api params =
     (if flt_le (sp_temperature params) (Fin 0) then [Greedy]
      else [Top_k k. k \<leftarrow> [sp_top_k params], 0 < k]
        @ [Top_p p. p \<leftarrow> [sp_top_p params], flt_lt p (Fin 1)]
        @ [Min_p p. p \<leftarrow> [sp_min_p params], flt_lt (Fin 0) p]
        @ [Temp (sp_temperature params),
           Dist (case sp_seed params of Some s \<Rightarrow> s | None \<Rightarrow> api_default_seed api)])"

definition eager_start :: "('c, 'h, 'g) llama_api \<Rightarrow> sampling_params \<Rightarrow> 'g option" where
  "eager_start api params = api_grammar_init api (c_str (gs_grammar (sp_grammar params))) ''root''"

lemma build_chain:
  "build api h params r = Inr (h', gr) \<Longrightarrow> h' = foldl (api_chain_add api) h (stages_of api params)"
  by (auto simp: build_def stages_of_def Let_def split: sum.splits if_splits)

lemma build_grammar:
  assumes "build api h params r = Inr (h', gr)"
  shows "gs_grammar (sp_grammar params) = [] \<and> gr = None
    \<or> (gs_grammar (sp_grammar params) \<noteq> [] \<and> (\<exists>g. gr = Some g \<and> add_grammar api params r = Inr g))"
  using assms by (cases "add_grammar api params r") (auto simp: build_def Let_def split: sum.splits if_splits)

text \<open>
  C26. A sampler that was built always ends in a stage that selects, and never gets fewer
  candidates than its top-k stage keeps, nor none at all while there is a vocabulary. A request
  without a grammar gets none; an eager grammar starts past the text the template already wrote.
\<close>

theorem built_sampler:
  assumes "new_sampler api params r = Inr s" and "api_chain_init api = Some h"
  shows "sc_chain s = foldl (api_chain_add api) h (stages_of api params)
    \<and> (last (stages_of api params) = Greedy \<or> (\<exists>seed. last (stages_of api params) = Dist seed))
    \<and> sc_n_selectable s \<le> max 1 (sc_n_vocab s)
    \<and> (0 < sc_n_vocab s \<longrightarrow> 0 < sc_n_selectable s)
    \<and> (\<forall>k. Top_k k \<in> set (stages_of api params) \<longrightarrow> min k (int (sc_n_vocab s)) = int (sc_n_selectable s))
    \<and> (sc_grammar s = None \<longleftrightarrow> gs_grammar (sp_grammar params) = [])
    \<and> (\<forall>g. sc_grammar s = Some g \<and> \<not> gs_lazy (sp_grammar params) \<longrightarrow>
         (\<exists>g0. eager_start api params = Some g0 \<and> accept_all api g0 (rt_prefill r) = Inr g))"
proof -
  obtain h' gr where b: "build api h params r = Inr (h', gr)" "sc_chain s = h'" "sc_grammar s = gr"
    "sc_n_vocab s = api_n_vocab api"
    "sc_n_selectable s = (if flt_le (sp_temperature params) (Fin 0) then 1
                          else if 0 < sp_top_k params then min (nat (sp_top_k params)) (api_n_vocab api)
                          else api_n_vocab api)"
    using assms by (auto simp: new_sampler_def Let_def split: sum.splits)
  have chain: "sc_chain s = foldl (api_chain_add api) h (stages_of api params)"
    using build_chain [OF b(1)] b(2) by simp
  have stage: "last (stages_of api params) = Greedy \<or> (\<exists>seed. last (stages_of api params) = Dist seed)"
    by (simp add: stages_of_def)
  have sel: "sc_n_selectable s \<le> max 1 (sc_n_vocab s)" "0 < sc_n_vocab s \<longrightarrow> 0 < sc_n_selectable s"
    using b(4,5) by auto
  have top: "\<forall>k. Top_k k \<in> set (stages_of api params) \<longrightarrow> min k (int (sc_n_vocab s)) = int (sc_n_selectable s)"
    using b(4,5) by (auto simp: stages_of_def)
  have none: "sc_grammar s = None \<longleftrightarrow> gs_grammar (sp_grammar params) = []"
    using build_grammar [OF b(1)] b(3) by auto
  have eager: "\<exists>g0. eager_start api params = Some g0 \<and> accept_all api g0 (rt_prefill r) = Inr g"
    if "sc_grammar s = Some g" "\<not> gs_lazy (sp_grammar params)" for g
  proof -
    have "add_grammar api params r = Inr g" using build_grammar [OF b(1)] b(3) that(1) by auto
    with that(2) show ?thesis
      by (auto simp: add_grammar_def eager_start_def Let_def split: option.splits sum.splits)
  qed
  show ?thesis using chain stage sel top none eager by blast
qed

definition sample_params :: sampling_params where
  "sample_params = default_sampling
     \<lparr>sp_temperature := Fin 1, sp_top_k := 3, sp_top_p := Fin 1, sp_min_p := Fin 0\<rparr>"

definition sample_drawing :: "(sampler list, token list) sampler_chain" where
  "sample_drawing =
     \<lparr>sc_n_vocab = 4, sc_n_selectable = 3, sc_chain = [Top_k 3, Temp (Fin 1), Dist 0],
      sc_grammar = None\<rparr>"

theorem built_sampler_witness:
  "new_sampler sample_api sample_params sample_resolved = Inr sample_drawing
   \<and> min 3 (int (sc_n_vocab sample_drawing)) = int (sc_n_selectable sample_drawing)"
proof -
  have run: "new_sampler sample_api sample_params sample_resolved = Inr sample_drawing"
    by (simp add: new_sampler_def build_def sample_params_def sample_drawing_def sample_api_def
        default_sampling_def no_grammar_def Let_def)
  have top: "Top_k 3 \<in> set (stages_of sample_api sample_params)"
    by (simp add: stages_of_def sample_params_def default_sampling_def)
  have "api_chain_init sample_api = Some []" by (simp add: sample_api_def)
  from built_sampler [OF run this] top run show ?thesis by blast
qed

end
