(* ===== verification/Generate.thy ===== *)
theory Generate
  imports Kv_Cache Sampler Stream_Filter
begin

text \<open>
  \<open>Engine::generate\<close> of src/engine.cpp as one function of the engine's state: a call runs from one state
  to the next with no other call between, which Concurrency shows is what the context mutex makes of it.
  The two clock readings are parameters. The theory shows that a generation always returns, that
  the cache agrees with llama.cpp's memory afterwards whatever happened, that budget and context
  bounds are kept, and that what the client receives is the stream filter's output for the pieces
  of tokens the sampler chose and the grammar accepted.
\<close>

section \<open>One iteration\<close>

text \<open>What the loop changes; \<open>g_sink\<close> is the state of the receiver.\<close>

record ('c, 'h, 'g, 'w) gen =
  g_impl :: "'c impl"
  g_sampler :: "('h, 'g) sampler_chain"
  g_filter :: stream_filter
  g_sink :: 'w
  g_completion :: int

text \<open>The loop goes on, ends with a reason (and whether the tail is flushed), or throws.\<close>

datatype verdict = Next | Finish finish_reason bool | Fail exn

definition budget_used :: "sampling_params \<Rightarrow> int \<Rightarrow> bool" where
  "budget_used params n \<longleftrightarrow> 0 \<le> sp_max_tokens params \<and> sp_max_tokens params \<le> n"

text \<open>
  From the piece of a token that is not the end of generation to the next decode. The counter is an
  \<open>int32_t\<close>; generation_is_bounded shows that with the prompt it is at most one more than the context
  holds, so it does not wrap for a context below \<open>2 ^ 31\<close> tokens.
\<close>

definition gen_token ::
  "('c, 'h, 'g) llama_api \<Rightarrow> 'w chunk_callback \<Rightarrow> sampling_params \<Rightarrow> token set \<Rightarrow> token
     \<Rightarrow> ('c, 'h, 'g, 'w) gen \<Rightarrow> verdict \<times> ('c, 'h, 'g, 'w) gen" where
  "gen_token api on_chunk params preserved t g =
     (let g = g\<lparr>g_completion := g_completion g + 1\<rparr> in
      case token_to_piece api t (t \<in> preserved) of
        Inl e \<Rightarrow> (Fail e, g)
      | Inr piece \<Rightarrow>
          (case push on_chunk (g_sink g) (g_filter g) piece of
             (r, f, w) \<Rightarrow>
               (let g = g\<lparr>g_filter := f, g_sink := w\<rparr> in
                case r of
                  Inl e \<Rightarrow> (Fail e, g)
                | Inr Status_Stopped \<Rightarrow> (Finish Stop False, g)
                | Inr Status_Cancelled \<Rightarrow> (Finish Cancelled False, g)
                | Inr Status_Continue \<Rightarrow>
                    if budget_used params (g_completion g) then (Finish Length True, g)
                    else if n_ctx_seq (g_impl g) < length (cached (g_impl g)) + 1
                    then (Finish Length True, g)
                    else
                      (case decode api (g_impl g) [t] of
                         (r, st) \<Rightarrow>
                           (let g = g\<lparr>g_impl := st\<rparr> in
                            case r of
                              Inl e \<Rightarrow> (Fail e, g)
                            | Inr ret \<Rightarrow>
                                if ret \<noteq> 0
                                then (if 0 < ret then (Finish Length True, g)
                                      else (Fail (EngineError (''llama_decode failed while generating (code ''
                                              @ dec_int ret @ '')'')), g))
                                else (Next, g))))))"

definition gen_step ::
  "('c, 'h, 'g) llama_api \<Rightarrow> 'w chunk_callback \<Rightarrow> sampling_params \<Rightarrow> token set
     \<Rightarrow> ('c, 'h, 'g, 'w) gen \<Rightarrow> verdict \<times> ('c, 'h, 'g, 'w) gen" where
  "gen_step api on_chunk params preserved g =
     (if budget_used params (g_completion g) then (Finish Length True, g)
      else
        (case sample api (g_sampler g) (ctx (g_impl g)) of
           (r, s) \<Rightarrow>
             (let g = g\<lparr>g_sampler := s\<rparr> in
              case r of
                Inl e \<Rightarrow> (Fail e, g)
              | Inr t \<Rightarrow>
                  if api_is_eog api t then (Finish Eog True, g)
                  else gen_token api on_chunk params preserved t g)))"

lemma gen_token_Next:
  assumes "gen_token api on_chunk params preserved t g = (Next, g')"
  obtains piece f w st where
    "token_to_piece api t (t \<in> preserved) = Inr piece"
    "push on_chunk (g_sink g) (g_filter g) piece = (Inr Status_Continue, f, w)"
    "\<not> budget_used params (g_completion g + 1)"
    "length (cached (g_impl g)) + 1 \<le> n_ctx_seq (g_impl g)"
    "decode api (g_impl g) [t] = (Inr 0, st)"
    "g' = g\<lparr>g_completion := g_completion g + 1, g_filter := f, g_sink := w, g_impl := st\<rparr>"
  using assms
  by (auto simp: gen_token_def Let_def split: sum.splits status.splits prod.splits if_splits)

lemma gen_step_Next:
  assumes "gen_step api on_chunk params preserved g = (Next, g')"
  obtains t s where "sample api (g_sampler g) (ctx (g_impl g)) = (Inr t, s)"
    "\<not> api_is_eog api t" "\<not> budget_used params (g_completion g)"
    "gen_token api on_chunk params preserved t (g\<lparr>g_sampler := s\<rparr>) = (Next, g')"
  using assms by (auto simp: gen_step_def Let_def split: sum.splits prod.splits if_splits)

lemma gen_step_grows:
  assumes "gen_step api on_chunk params preserved g = (Next, g')"
  shows "length (cached (g_impl g')) = length (cached (g_impl g)) + 1
    \<and> length (cached (g_impl g')) \<le> n_ctx_seq (g_impl g')
    \<and> n_ctx_seq (g_impl g') = n_ctx_seq (g_impl g)"
  using assms
proof (cases rule: gen_step_Next)
  case (1 t s)
  from 1(4) show ?thesis
  proof (cases rule: gen_token_Next)
    case (1 piece f w st)
    from 1(5) show ?thesis
      by (cases rule: decode_cases) (use 1 in auto)
  qed
qed

function gen_loop ::
  "('c, 'h, 'g) llama_api \<Rightarrow> 'w chunk_callback \<Rightarrow> sampling_params \<Rightarrow> token set
     \<Rightarrow> ('c, 'h, 'g, 'w) gen \<Rightarrow> verdict \<times> ('c, 'h, 'g, 'w) gen" where
  "gen_loop api on_chunk params preserved g =
     (case gen_step api on_chunk params preserved g of
        (Next, g') \<Rightarrow> gen_loop api on_chunk params preserved g'
      | done_with \<Rightarrow> done_with)"
  by pat_completeness auto
termination
proof (relation "measure (\<lambda>(api, cb, params, p, g). n_ctx_seq (g_impl g) - length (cached (g_impl g)))",
    goal_cases)
  case 1
  then show ?case by simp
next
  case (2 api cb params p g v g')
  then have "gen_step api cb params p g = (Next, g')" by simp
  from gen_step_grows [OF this]
  have "n_ctx_seq (g_impl g') - length (cached (g_impl g')) < n_ctx_seq (g_impl g) - length (cached (g_impl g))"
    by linarith
  then show ?case by simp
qed

declare gen_loop.simps [simp del]

section \<open>The operation\<close>

definition prompt_error :: "int \<Rightarrow> exn" where
  "prompt_error ret = EngineError (''llama_decode failed on the prompt (code '' @ dec_int ret @ '')'')"

text \<open>What follows the loop: the flush of what was held back, and the result.\<close>

definition gen_end ::
  "'w chunk_callback \<Rightarrow> (nat \<Rightarrow> flt) \<Rightarrow> generate_stats \<Rightarrow> verdict \<Rightarrow> ('c, 'h, 'g, 'w) gen
     \<Rightarrow> (exn + generate_result) \<times> 'c impl \<times> 'w" where
  "gen_end on_chunk clock stats v g =
     (case v of
        Finish reason flush_tail \<Rightarrow>
          (case (if flush_tail then flush on_chunk (g_sink g) (g_filter g)
                 else (Inr (), g_filter g, g_sink g)) of
             (Inl e, f, w) \<Rightarrow> (Inl e, g_impl g, w)
           | (Inr _, f, w) \<Rightarrow>
               (Inr \<lparr>res_reason = reason,
                     res_stats = stats\<lparr>st_completion_tokens := g_completion g,
                                       st_completion_ms := clock 1\<rparr>\<rparr>,
                g_impl g, w))
      | Fail e \<Rightarrow> (Inl e, g_impl g, g_sink g)
      | Next \<Rightarrow> (Inl OtherException, g_impl g, g_sink g))"

text \<open>The second half of a call: generation from an empty filter.\<close>

definition gen_reply ::
  "('c, 'h, 'g) llama_api \<Rightarrow> 'w chunk_callback \<Rightarrow> (nat \<Rightarrow> flt) \<Rightarrow> sampling_params \<Rightarrow> token set
     \<Rightarrow> generate_stats \<Rightarrow> ('h, 'g) sampler_chain \<Rightarrow> 'c impl \<Rightarrow> 'w
     \<Rightarrow> (exn + generate_result) \<times> 'c impl \<times> 'w" where
  "gen_reply api on_chunk clock params preserved stats s st w =
     (let g = \<lparr>g_impl = st, g_sampler = s, g_filter = new_filter (sp_stop params), g_sink = w,
               g_completion = st_completion_tokens stats\<rparr>
      in case gen_loop api on_chunk params preserved g of
           (v, g) \<Rightarrow> gen_end on_chunk clock stats v g)"

text \<open>What the context mutex covers.\<close>

definition generate_locked ::
  "('c, 'h, 'g) llama_api \<Rightarrow> 'w chunk_callback \<Rightarrow> (nat \<Rightarrow> flt) \<Rightarrow> bytes \<Rightarrow> sampling_params
     \<Rightarrow> 'c impl \<Rightarrow> 'w \<Rightarrow> ((exn + generate_result) \<times> 'c impl \<times> 'w) option" where
  "generate_locked api on_chunk clock prompt params st w =
     (case tokenize api prompt True True of
        Inl e \<Rightarrow> Some (Inl e, st, w)
      | Inr tokens \<Rightarrow>
          if tokens = []
          then Some (Inl (EngineError ''the prompt tokenized to zero tokens''), st, w)
          else if n_ctx_seq st \<le> length tokens
          then Some (Inl (EngineError (''prompt is too long: '' @ dec_nat (length tokens)
                   @ '' tokens for a context of '' @ dec_nat (n_ctx_seq st))), st, w)
          else
            (case resolve api params of
               Inl e \<Rightarrow> Some (Inl e, st, w)
             | Inr resolved \<Rightarrow>
                 (case new_sampler api params resolved of
                    Inl e \<Rightarrow> Some (Inl e, st, w)
                  | Inr s \<Rightarrow>
                      (case keep_prefix api st tokens of
                         (kept, st) \<Rightarrow>
                           (case prompt_loop (decode api) (n_batch st) tokens kept st of
                              None \<Rightarrow> None
                            | Some (Inl e, st) \<Rightarrow> Some (Inl e, st, w)
                            | Some (Inr ret, st) \<Rightarrow>
                                if ret \<noteq> 0 then Some (Inl (prompt_error ret), st, w)
                                else
                                  (let st = st\<lparr>ctx := api_synchronize api (ctx st)\<rparr>;
                                       stats = default_stats
                                         \<lparr>st_prompt_tokens := i32 (length tokens),
                                          st_cached_prompt_tokens := i32 kept,
                                          st_prompt_ms := clock 0\<rparr>
                                   in Some (gen_reply api on_chunk clock params
                                              (rt_preserved resolved) stats s st w)))))))"

definition generate ::
  "('c, 'h, 'g) llama_api \<Rightarrow> 'w chunk_callback \<Rightarrow> (nat \<Rightarrow> flt) \<Rightarrow> bytes \<Rightarrow> sampling_params
     \<Rightarrow> 'c impl \<Rightarrow> 'w \<Rightarrow> ((exn + generate_result) \<times> 'c impl \<times> 'w) option" where
  "generate api on_chunk clock prompt params st w =
     (if embeddings st
      then Some (Inl (EngineError ''the model is an embedding model: it cannot generate text''), st, w)
      else generate_locked api on_chunk clock prompt params st w)"

section \<open>Runs of the loop\<close>

lemma gen_loop_run [consumes 1, case_names stop go]:
  assumes "gen_loop api cb params p g = (v, g')"
    and "\<And>g v g'. gen_step api cb params p g = (v, g') \<Longrightarrow> v \<noteq> Next \<Longrightarrow> R g v g'"
    and "\<And>g g1 v g'. gen_step api cb params p g = (Next, g1) \<Longrightarrow> R g1 v g' \<Longrightarrow> R g v g'"
  shows "R g v g'"
  using assms
proof (induction api cb params p g rule: gen_loop.induct)
  case (1 api cb params p g)
  obtain v1 g1 where s: "gen_step api cb params p g = (v1, g1)" by (metis prod.exhaust)
  show ?case
  proof (cases "v1 = Next")
    case True
    with "1.prems"(1) s have "gen_loop api cb params p g1 = (v, g')"
      by (subst (asm) gen_loop.simps) simp
    then have "R g1 v g'" using "1.IH" [OF s [symmetric] True] "1.prems"(2,3) by blast
    with True s "1.prems"(3) show ?thesis by blast
  next
    case False
    with "1.prems"(1) s have "g' = g1 \<and> v = v1"
      by (subst (asm) gen_loop.simps) (cases v1; simp)
    with "1.prems"(2) s False show ?thesis by blast
  qed
qed

lemma gen_loop_not_Next: "gen_loop api cb params p g = (v, g') \<Longrightarrow> v \<noteq> Next"
  by (induction rule: gen_loop_run) auto

text \<open>A step leaves the engine alone or decodes one token for which there is room.\<close>

lemma gen_step_impl:
  assumes "gen_step api cb params p g = (v, g')"
  shows "g_impl g' = g_impl g
    \<or> (\<exists>t r. decode api (g_impl g) [t] = (r, g_impl g')
         \<and> length (cached (g_impl g)) + 1 \<le> n_ctx_seq (g_impl g))"
  using assms
  by (auto simp: gen_step_def gen_token_def Let_def split: prod.splits sum.splits status.splits if_splits)

definition same_shape :: "'c impl \<Rightarrow> 'c impl \<Rightarrow> bool" where
  "same_shape st st' \<longleftrightarrow> n_ctx st' = n_ctx st \<and> n_ctx_seq st' = n_ctx_seq st
     \<and> n_batch st' = n_batch st \<and> embeddings st' = embeddings st
     \<and> max_embed_tokens st' = max_embed_tokens st"

lemma same_shape_refl [simp]: "same_shape st st"
  by (simp add: same_shape_def)

lemma same_shape_trans: "same_shape a b \<Longrightarrow> same_shape b c \<Longrightarrow> same_shape a c"
  by (simp add: same_shape_def)

lemma same_shape_clear [simp]: "same_shape st (clear_cache api st)"
  "same_shape st (clear_cache api (st\<lparr>ctx := c\<rparr>))"
  by (simp_all add: same_shape_def clear_cache_def)

lemma same_shape_update [simp]: "same_shape st (st\<lparr>ctx := c\<rparr>)"
  "same_shape st (st\<lparr>ctx := c, cached := x\<rparr>)"
  by (simp_all add: same_shape_def)

lemma same_shape_decode: "decode api st xs = (r, st') \<Longrightarrow> same_shape st st'"
  by (auto simp: decode_def split: prod.splits sum.splits if_splits)

lemma same_shape_keep: "keep_prefix api st p = (k, st') \<Longrightarrow> same_shape st st'"
  by (auto simp: keep_prefix_def Let_def split: prod.splits if_splits)

lemma same_shape_prompt_loop:
  assumes "prompt_loop (decode api) b tokens off st = Some (r, st')" "0 < b"
  shows "same_shape st st'"
  using assms
  by (rule prompt_loop_invariant) (auto dest: same_shape_decode intro: same_shape_trans)

lemma same_shape_gen_loop: "gen_loop api cb params p g = (v, g') \<Longrightarrow> same_shape (g_impl g) (g_impl g')"
proof (induction rule: gen_loop_run)
  case (stop g v g')
  from gen_step_impl [OF stop(1)] show ?case by (auto dest: same_shape_decode)
next
  case (go g g1 v g')
  from gen_step_impl [OF go(1)] have "same_shape (g_impl g) (g_impl g1)"
    by (auto dest: same_shape_decode)
  then show ?case using go(2) by (rule same_shape_trans)
qed

text \<open>The record of cached tokens agrees with the memory and fits the context.\<close>

definition engine_inv :: "('c, 'h, 'g) llama_api \<Rightarrow> ('c \<Rightarrow> token list) \<Rightarrow> 'c impl \<Rightarrow> bool" where
  "engine_inv api seq st \<longleftrightarrow> kv_inv api seq st \<and> length (cached st) \<le> n_ctx_seq st"

lemma engine_inv_decode:
  assumes "engine_inv api seq st" "decode api st [t] = (r, st')" "length (cached st) + 1 \<le> n_ctx_seq st"
  shows "engine_inv api seq st'"
proof (cases "r = Inr 0")
  case True
  with assms decode_ok [of api seq st "[t]" st'] same_shape_decode [OF assms(2)] show ?thesis
    by (simp add: engine_inv_def same_shape_def)
next
  case False
  with assms decode_fail [of api seq st "[t]" r st'] show ?thesis by (simp add: engine_inv_def)
qed

lemma engine_inv_gen_step:
  assumes "engine_inv api seq (g_impl g)" "gen_step api cb params p g = (v, g')"
  shows "engine_inv api seq (g_impl g')"
  using gen_step_impl [OF assms(2)] engine_inv_decode [OF assms(1)] assms(1) by metis

lemma engine_inv_gen_loop:
  assumes "gen_loop api cb params p g = (v, g')" "engine_inv api seq (g_impl g)"
  shows "engine_inv api seq (g_impl g')"
  using assms by (induction rule: gen_loop_run) (blast intro: engine_inv_gen_step)+

section \<open>The phases of a call\<close>

text \<open>
  A call either ends before it touches the engine, or goes through the prompt phase, which leaves
  the prompt or nothing in the cache, and then, if the prompt was decoded, through the loop.
\<close>

lemma generate_phases:
  assumes "generate api cb clock prompt params st w = Some (r, st', w')" "0 < n_batch st"
  obtains (refused) e where "r = Inl e" "st' = st" "w' = w"
  | (prompt_failed) tokens kept st1 r1 where "tokens \<noteq> []" "length tokens < n_ctx_seq st"
      "keep_prefix api st tokens = (kept, st1)"
      "prompt_loop (decode api) (n_batch st) tokens kept st1 = Some (r1, st')" "r1 \<noteq> Inr 0"
      "\<not> is_ok r" "w' = w"
  | (replied) tokens kept st1 st2 resolved s stats where
      "tokenize api prompt True True = Inr tokens" "tokens \<noteq> []" "length tokens < n_ctx_seq st"
      "resolve api params = Inr resolved" "new_sampler api params resolved = Inr s"
      "keep_prefix api st tokens = (kept, st1)"
      "prompt_loop (decode api) (n_batch st) tokens kept st1 = Some (Inr 0, st2)"
      "stats = default_stats\<lparr>st_prompt_tokens := i32 (length tokens),
         st_cached_prompt_tokens := i32 kept, st_prompt_ms := clock 0\<rparr>"
      "gen_reply api cb clock params (rt_preserved resolved) stats s
         (st2\<lparr>ctx := api_synchronize api (ctx st2)\<rparr>) w = (r, st', w')"
proof -
  consider (a) "embeddings st" | (b) e where "tokenize api prompt True True = Inl e"
    | (c) tokens where "\<not> embeddings st" "tokenize api prompt True True = Inr tokens"
        "tokens = [] \<or> n_ctx_seq st \<le> length tokens"
    | (d) tokens e where "\<not> embeddings st" "tokenize api prompt True True = Inr tokens"
        "resolve api params = Inl e \<or> (\<exists>x. resolve api params = Inr x \<and> new_sampler api params x = Inl e)"
    | (e) tokens x s where "\<not> embeddings st" "tokenize api prompt True True = Inr tokens"
        "tokens \<noteq> []" "length tokens < n_ctx_seq st"
        "resolve api params = Inr x" "new_sampler api params x = Inr s"
    by (metis linorder_not_less sum.exhaust)
  then show thesis
  proof cases
    case e
    obtain kept st1 where k: "keep_prefix api st tokens = (kept, st1)" by (metis prod.exhaust)
    then have b: "n_batch st1 = n_batch st" using same_shape_keep same_shape_def by metis
    obtain r1 st2 where l: "prompt_loop (decode api) (n_batch st) tokens kept st1 = Some (r1, st2)"
      using prompt_loop_returns [OF assms(2)] by (metis prod.exhaust)
    show thesis
    proof (cases "r1 = Inr 0")
      case True
      with e k l b assms(1) show thesis
        by (intro replied [OF e(2,3,4,5,6) k]) (auto simp: generate_def generate_locked_def Let_def)
    next
      case False
      with e k l b assms(1) show thesis
        by (intro prompt_failed [OF e(3,4) k]) (auto simp: generate_def generate_locked_def split: sum.splits if_splits)
    qed
  qed (use assms(1) in \<open>auto simp: generate_def generate_locked_def intro!: refused split: if_splits\<close>)
qed

section \<open>Every call returns, and leaves a cache that can be trusted\<close>

lemma generate_total:
  assumes "0 < n_batch st"
  shows "\<exists>r st' w'. generate api cb clock prompt params st w = Some (r, st', w')"
proof -
  have loop: "\<exists>x. prompt_loop (decode api) (n_batch s) toks k s = Some x" if "same_shape st s" for s toks k
    using that assms by (intro prompt_loop_returns) (simp add: same_shape_def)
  obtain x where "generate api cb clock prompt params st w = Some x"
  proof (cases "generate api cb clock prompt params st w")
    case None
    then obtain toks k s where "keep_prefix api st toks = (k, s)"
      "prompt_loop (decode api) (n_batch s) toks k s = None"
      by (auto simp: generate_def generate_locked_def Let_def split: sum.splits prod.splits option.splits if_splits)
    with loop [OF same_shape_keep] show ?thesis by (metis option.distinct(1))
  qed
  then show ?thesis by (metis prod_cases3)
qed

text \<open>
  C27. A call always returns: whatever the sampler, the callback and llama.cpp do, neither the
  prompt loop nor the generation loop runs forever, given the positive batch size that the
  constructor insists on.
\<close>

theorem generate_returns:
  assumes "0 < n_batch st"
  shows "\<exists>r st' w'. generate api cb clock prompt params st w = Some (r, st', w')"
  by (rule generate_total [OF assms])

theorem generate_returns_witness:
  "\<exists>r st' w'. generate sample_api collect (\<lambda>_. Fin 0) ''ab'' sample_params (sample_impl [1]) []
     = Some (r, st', w')"
  by (rule generate_returns) (simp add: sample_impl_def)

text \<open>
  A run of the small instance: greedy decoding after \<open>a\<close> gives \<open>b\<close> and then the stop string \<open>c\<close>.
\<close>

definition sample_request :: "bytes list \<Rightarrow> bytes \<Rightarrow> sampling_params" where
  "sample_request ss grammar =
     \<lparr>sp_temperature = Fin 0, sp_top_k = 0, sp_top_p = Fin 1, sp_min_p = Fin 0, sp_seed = None,
      sp_max_tokens = 3, sp_stop = ss, sp_grammar = no_grammar\<lparr>gs_grammar := grammar\<rparr>,
      sp_preserved_tokens = []\<rparr>"

definition sample_run :: "bytes list \<Rightarrow> bytes \<Rightarrow> ((exn + generate_result) \<times> token list impl \<times> bytes list) option" where
  "sample_run ss grammar =
     generate sample_api collect (\<lambda>_. Fin 0) ''a'' (sample_request ss grammar) (sample_impl [3]) []"

definition summary ::
  "((exn + generate_result) \<times> 'c impl \<times> 'w) option \<Rightarrow> (finish_reason \<times> int \<times> token list \<times> 'w) option" where
  "summary x =
     (case x of
        Some (Inr res, st, w) \<Rightarrow>
          Some (res_reason res, st_completion_tokens (res_stats res), cached st, w)
      | _ \<Rightarrow> None)"

lemma summary_run:
  assumes "summary x = Some (reason, n, c, w)"
  obtains res st where "x = Some (Inr res, st, w)" "res_reason res = reason"
    "st_completion_tokens (res_stats res) = n" "cached st = c"
  using assms by (auto simp: summary_def split: option.splits sum.splits prod.splits)

lemma sample_run_stop: "summary (sample_run [''c''] []) = Some (Stop, 2, [1, 2], [''b''])"
  by code_simp

lemma sample_run_grammar: "summary (sample_run [] ''ab'') = Some (Length, 3, [1, 2, 1], [''b'', ''a'', ''b''])"
  by code_simp

lemma kv_inv_synchronize:
  "kv_inv api seq st \<Longrightarrow> kv_inv api seq (st\<lparr>ctx := api_synchronize api (ctx st)\<rparr>)"
  by (simp add: kv_inv_def memory_laws_def)

lemma gen_reply_impl:
  assumes "gen_reply api cb clock params p stats s st w = (r, st', w')"
  obtains g v where "gen_loop api cb params p
      \<lparr>g_impl = st, g_sampler = s, g_filter = new_filter (sp_stop params), g_sink = w,
       g_completion = st_completion_tokens stats\<rparr> = (v, g)" "st' = g_impl g"
  using assms by (auto simp: gen_reply_def gen_end_def Let_def split: prod.splits verdict.splits sum.splits if_splits)

lemma prefill_engine:
  assumes "kv_inv api seq st" "tokens \<noteq> []" "length tokens < n_ctx_seq st" "n_ctx_seq st \<le> 2 ^ 31"
    and "keep_prefix api st tokens = (kept, st1)" "0 < n_batch st"
    and "prompt_loop (decode api) (n_batch st) tokens kept st1 = Some (r, st2)"
  shows "engine_inv api seq st2 \<and> same_shape st st2 \<and> cached st2 = (if r = Inr 0 then tokens else [])"
proof -
  have "kv_fits tokens" using assms(3,4) by (simp add: kv_fits_def)
  from kv.prefill [OF assms(6,1) this assms(2,5)] assms(7)
  have kv: "kv_inv api seq st2" "cached st2 = (if r = Inr 0 then tokens else [])" by auto
  have "same_shape st st2"
    using same_shape_trans [OF same_shape_keep [OF assms(5)] same_shape_prompt_loop [OF assms(7,6)]] .
  with kv assms(3) show ?thesis by (auto simp: engine_inv_def same_shape_def)
qed

lemma generate_inv:
  assumes "engine_inv api seq st" "0 < n_batch st" "n_ctx_seq st \<le> 2 ^ 31"
    and "generate api cb clock prompt params st w = Some (r, st', w')"
  shows "engine_inv api seq st' \<and> same_shape st st'"
  using assms(4,2)
proof (cases rule: generate_phases)
  case refused
  with assms(1) show ?thesis by simp
next
  case (prompt_failed tokens kept st1 r1)
  have kv: "kv_inv api seq st" using assms(1) by (simp add: engine_inv_def)
  from prefill_engine [OF kv prompt_failed(1,2) assms(3) prompt_failed(3) assms(2) prompt_failed(4)]
  show ?thesis by simp
next
  case (replied tokens kept st1 st2 resolved s stats)
  let ?st = "st2\<lparr>ctx := api_synchronize api (ctx st2)\<rparr>"
  have kv: "kv_inv api seq st" using assms(1) by (simp add: engine_inv_def)
  from prefill_engine [OF kv replied(2,3) assms(3) replied(6) assms(2) replied(7)]
  have "engine_inv api seq ?st" "same_shape st ?st"
    using kv_inv_synchronize by (auto simp: engine_inv_def same_shape_def)
  with replied(9) show ?thesis
    using engine_inv_gen_loop same_shape_gen_loop same_shape_trans
    by (elim gen_reply_impl) fastforce
qed

text \<open>
  After any call, whether it succeeded, was refused, was cancelled or ended in an error or an
  exception of the callback, at any point, the record of cached tokens is exactly what llama.cpp's
  memory holds, and no more than the context has room for. The sizes of the engine never change.
\<close>

theorem generate_keeps_the_cache_in_step:
  assumes "memory_laws api seq" and "cached st = seq (ctx st)" and "length (cached st) \<le> n_ctx_seq st"
    and "0 < n_batch st" and "n_ctx_seq st \<le> 2 ^ 31"
    and "generate api cb clock prompt params st w = Some (r, st', w')"
  shows "cached st' = seq (ctx st') \<and> length (cached st') \<le> n_ctx_seq st' \<and> same_shape st st'"
proof -
  have "engine_inv api seq st" using assms(1-3) by (simp add: engine_inv_def kv_inv_def)
  from generate_inv [OF this assms(4-6)] show ?thesis unfolding engine_inv_def kv_inv_def by metis
qed

theorem generate_keeps_the_cache_in_step_witness:
  "\<exists>r st' w'. sample_run [''c''] [] = Some (r, st', w') \<and> cached st' = [1, 2] \<and> ctx st' = [1, 2]"
proof -
  obtain res st' where run: "sample_run [''c''] [] = Some (Inr res, st', [''b''])" "cached st' = [1, 2]"
    using sample_run_stop by (rule summary_run)
  from generate_keeps_the_cache_in_step [OF sample_memory_laws _ _ _ _ run(1) [unfolded sample_run_def]] run
  show ?thesis by (simp add: sample_impl_def)
qed

section \<open>What a receiver sees\<close>

text \<open>
  Through the loop and the flush, a receiver is called only while it is live: after it declined or
  failed it is left alone.
\<close>

context receiver
begin

lemma receiver_gen_token:
  assumes "live (g_sink g)" "gen_token api (Some call) params p t g = (v, g')"
  shows "grows (g_sink g) (g_sink g')
    \<and> (v = Next \<or> (\<exists>reason. v = Finish reason True) \<longrightarrow> live (g_sink g'))"
proof (cases "token_to_piece api t (t \<in> p)")
  case (Inl e)
  with assms(2) grows_refl show ?thesis by (auto simp: gen_token_def)
next
  case (Inr piece)
  obtain r f w where u: "push (Some call) (g_sink g) (g_filter g) piece = (r, f, w)" by (metis prod_cases3)
  have "g_sink g' = w"
    using assms(2) Inr u
    by (auto simp: gen_token_def Let_def split: sum.splits status.splits prod.splits if_splits)
  moreover have "v = Next \<or> (\<exists>reason. v = Finish reason True) \<Longrightarrow> r = Inr Status_Continue"
    using assms(2) Inr u by (auto simp: gen_token_def Let_def split: sum.splits status.splits)
  ultimately show ?thesis using receiver_push [OF assms(1) u] by blast
qed

lemma receiver_gen_step:
  assumes "live (g_sink g)" "gen_step api (Some call) params p g = (v, g')"
  shows "grows (g_sink g) (g_sink g')
    \<and> (v = Next \<or> (\<exists>reason. v = Finish reason True) \<longrightarrow> live (g_sink g'))"
proof -
  obtain r s where s: "sample api (g_sampler g) (ctx (g_impl g)) = (r, s)" by (metis prod.exhaust)
  have "g_sink g' = g_sink g \<or> (\<exists>t. gen_token api (Some call) params p t (g\<lparr>g_sampler := s\<rparr>) = (v, g'))"
    using assms(2) s by (auto simp: gen_step_def Let_def split: sum.splits if_splits)
  then show ?thesis
    using assms(1) grows_refl receiver_gen_token [of "g\<lparr>g_sampler := s\<rparr>"] by fastforce
qed

lemma receiver_gen_loop:
  assumes "gen_loop api (Some call) params p g = (v, g')" "live (g_sink g)"
  shows "grows (g_sink g) (g_sink g') \<and> ((\<exists>reason. v = Finish reason True) \<longrightarrow> live (g_sink g'))"
  using assms
proof (induction rule: gen_loop_run)
  case (stop g v g')
  from receiver_gen_step [OF stop(3,1)] show ?case by blast
next
  case (go g g1 v g')
  from receiver_gen_step [OF go(3,1)] go(2) grows_trans show ?case by blast
qed

lemma receiver_gen_reply:
  assumes "live w" "gen_reply api (Some call) clock params p stats s st w = (r, st', w')"
  shows "grows w w'"
proof -
  let ?g = "\<lparr>g_impl = st, g_sampler = s, g_filter = new_filter (sp_stop params), g_sink = w,
    g_completion = st_completion_tokens stats\<rparr>"
  obtain v g where loop: "gen_loop api (Some call) params p ?g = (v, g)" by (metis prod.exhaust)
  have g: "grows w (g_sink g) \<and> ((\<exists>reason. v = Finish reason True) \<longrightarrow> live (g_sink g))"
    using receiver_gen_loop [OF loop] assms(1) by simp
  show ?thesis
  proof (cases v)
    case (Finish reason fl)
    obtain fr ff fw where f: "(if fl then flush (Some call) (g_sink g) (g_filter g)
        else (Inr (), g_filter g, g_sink g)) = (fr, ff, fw)" by (metis prod_cases3)
    have "w' = fw" using assms(2) loop Finish f by (auto simp: gen_reply_def gen_end_def Let_def split: sum.splits)
    moreover have "grows (g_sink g) fw"
      using f g Finish receiver_flush grows_refl by (cases fl) auto
    ultimately show ?thesis using g grows_trans by blast
  qed (use assms(2) loop g in \<open>auto simp: gen_reply_def gen_end_def Let_def\<close>)
qed

lemma receiver_generate:
  assumes "generate api (Some call) clock prompt params st w = Some (r, st', w')" "live w" "0 < n_batch st"
  shows "grows w w'"
  using assms(1,3)
proof (cases rule: generate_phases)
  case (replied tokens kept st1 st2 resolved s stats)
  from receiver_gen_reply [OF assms(2) replied(9)] show ?thesis .
qed (use grows_refl in simp_all)

end

section \<open>What was generated\<close>

definition status_of :: "finish_reason \<Rightarrow> status" where
  "status_of reason =
     (case reason of Stop \<Rightarrow> Status_Stopped | Cancelled \<Rightarrow> Status_Cancelled | _ \<Rightarrow> Status_Continue)"

text \<open>
  \<open>toks\<close> are the tokens of a run that ended with a reason: none of them ends the generation, the
  grammar accepted them in turn (and the end token, if that ended the run), their pieces went
  through the filter, and they are what was decoded: all of them or all but the last, unless a failed
  decode emptied the record.
\<close>

definition decoded_after :: "token list \<Rightarrow> token list \<Rightarrow> token list \<Rightarrow> bool" where
  "decoded_after before toks after \<longleftrightarrow>
     (\<exists>d. prefix d toks \<and> length toks \<le> length d + 1 \<and> after \<in> {[], before @ d})"

lemma decoded_after_short: "length toks \<le> 1 \<Longrightarrow> after \<in> {[], before} \<Longrightarrow> decoded_after before toks after"
  unfolding decoded_after_def by (intro exI [of _ "[]"]) auto

lemma decoded_after_Cons: "decoded_after (before @ [t]) toks after \<Longrightarrow> decoded_after before (t # toks) after"
proof -
  assume "decoded_after (before @ [t]) toks after"
  then obtain d where "prefix d toks" "length toks \<le> length d + 1" "after \<in> {[], (before @ [t]) @ d}"
    unfolding decoded_after_def by blast
  then show ?thesis unfolding decoded_after_def by (intro exI [of _ "t # d"]) auto
qed

definition generated ::
  "('c, 'h, 'g) llama_api \<Rightarrow> 'w chunk_callback \<Rightarrow> token set \<Rightarrow> ('c, 'h, 'g, 'w) gen \<Rightarrow> token list
     \<Rightarrow> finish_reason \<Rightarrow> ('c, 'h, 'g, 'w) gen \<Rightarrow> bool" where
  "generated api cb p g toks reason g' \<longleftrightarrow>
     (\<exists>pieces. map_result (\<lambda>t. token_to_piece api t (t \<in> p)) toks = Inr pieces
        \<and> push_all cb (g_sink g) (g_filter g) pieces = (Inr (status_of reason), g_filter g', g_sink g'))
     \<and> g_completion g' = g_completion g + int (length toks)
     \<and> list_all (\<lambda>t. \<not> api_is_eog api t) toks
     \<and> decoded_after (cached (g_impl g)) toks (cached (g_impl g'))
     \<and> (\<exists>end_tok. advance_grammar api (sc_grammar (g_sampler g)) (toks @ end_tok) = Inr (sc_grammar (g_sampler g'))
          \<and> (if reason = Eog then \<exists>t. end_tok = [t] \<and> api_is_eog api t else end_tok = []))"

lemma gen_token_Finish:
  assumes "gen_token api cb params p t g = (Finish reason fl, g')"
  obtains piece where "token_to_piece api t (t \<in> p) = Inr piece"
    "push cb (g_sink g) (g_filter g) piece = (Inr (status_of reason), g_filter g', g_sink g')"
    "g_completion g' = g_completion g + 1" "g_sampler g' = g_sampler g"
    "reason \<noteq> Eog" "fl \<longleftrightarrow> reason \<noteq> Stop \<and> reason \<noteq> Cancelled"
    "cached (g_impl g') \<in> {[], cached (g_impl g)}"
    "reason = Length \<longrightarrow> budget_used params (g_completion g')
       \<or> n_ctx_seq (g_impl g') < length (cached (g_impl g')) + 1
       \<or> cached (g_impl g') = []"
  using assms
  by (fastforce simp: gen_token_def Let_def status_of_def decode_def
      split: sum.splits status.splits prod.splits if_splits)

lemma gen_step_generated:
  assumes "gen_step api cb params p g = (Finish reason fl, g')"
  shows "(\<exists>toks. generated api cb p g toks reason g')
    \<and> (fl \<longleftrightarrow> reason \<noteq> Stop \<and> reason \<noteq> Cancelled)
    \<and> (reason = Length \<longrightarrow> budget_used params (g_completion g')
         \<or> n_ctx_seq (g_impl g') < length (cached (g_impl g')) + 1 \<or> cached (g_impl g') = [])"
proof (cases "budget_used params (g_completion g)")
  case True
  with assms have "reason = Length" "fl" "g' = g" by (auto simp: gen_step_def)
  with True show ?thesis
    by (auto simp: generated_def status_of_def decoded_after_short intro!: exI [of _ "[]"])
next
  case False
  obtain r s where s: "sample api (g_sampler g) (ctx (g_impl g)) = (r, s)" by (metis prod.exhaust)
  with False assms obtain t where r: "r = Inr t" by (cases r) (auto simp: gen_step_def)
  have adv: "advance_grammar api (sc_grammar (g_sampler g)) [t] = Inr (sc_grammar s)"
    using sample_advances [of api "g_sampler g"] s r by blast
  show ?thesis
  proof (cases "api_is_eog api t")
    case True
    with False assms s r have "reason = Eog" "fl" "g' = g\<lparr>g_sampler := s\<rparr>"
      by (auto simp: gen_step_def)
    then have "generated api cb p g [] reason g'"
      using True adv by (auto simp: generated_def status_of_def decoded_after_short intro!: exI [of _ "[t]"])
    with \<open>reason = Eog\<close> \<open>fl\<close> show ?thesis by auto
  next
    case go: False
    with False assms s r have "gen_token api cb params p t (g\<lparr>g_sampler := s\<rparr>) = (Finish reason fl, g')"
      by (simp add: gen_step_def)
    then show ?thesis
      by (rule gen_token_Finish)
         (use adv go in \<open>auto simp: generated_def status_of_def decoded_after_short split: status.splits finish_reason.splits
            intro!: exI [of _ "[t]"]\<close>)
  qed
qed

lemma generated_Cons:
  assumes "gen_step api cb params p g = (Next, g1)" "generated api cb p g1 toks reason g'"
  shows "\<exists>t. generated api cb p g (t # toks) reason g'"
  using assms(1)
proof (cases rule: gen_step_Next)
  case (1 t s)
  have adv: "advance_grammar api (sc_grammar (g_sampler g)) [t] = Inr (sc_grammar s)"
    using sample_advances 1(1) .
  from 1(4) show ?thesis
  proof (cases rule: gen_token_Next)
    case (1 piece f w st)
    from assms(2) obtain pieces end_tok where rest:
      "map_result (\<lambda>t. token_to_piece api t (t \<in> p)) toks = Inr pieces"
      "push_all cb w f pieces = (Inr (status_of reason), g_filter g', g_sink g')"
      "g_completion g' = g_completion g + 1 + int (length toks)"
      "list_all (\<lambda>t. \<not> api_is_eog api t) toks"
      "decoded_after (cached st) toks (cached (g_impl g'))"
      "advance_grammar api (sc_grammar s) (toks @ end_tok) = Inr (sc_grammar (g_sampler g'))"
      "if reason = Eog then \<exists>t. end_tok = [t] \<and> api_is_eog api t else end_tok = []"
      unfolding generated_def 1(6) by auto
    have "advance_grammar api (sc_grammar (g_sampler g)) (t # toks @ end_tok) = Inr (sc_grammar (g_sampler g'))"
      using advance_grammar_Cons [OF adv] rest(6) by simp
    moreover have "decoded_after (cached (g_impl g)) (t # toks) (cached (g_impl g'))"
      using rest(5) decode_record(1) [OF 1(5)] by (intro decoded_after_Cons) simp
    ultimately show ?thesis using 1(1,2) rest(1-4,7) \<open>\<not> api_is_eog api t\<close>
      unfolding generated_def
      by (intro exI [of _ t]) (auto simp: generated_def)
  qed
qed

lemma gen_loop_generated:
  assumes "gen_loop api cb params p g = (Finish reason fl, g')"
  shows "(\<exists>toks. generated api cb p g toks reason g')
    \<and> (fl \<longleftrightarrow> reason \<noteq> Stop \<and> reason \<noteq> Cancelled)
    \<and> (reason = Length \<longrightarrow> budget_used params (g_completion g')
         \<or> n_ctx_seq (g_impl g') < length (cached (g_impl g')) + 1 \<or> cached (g_impl g') = [])"
  using assms
proof (induction g v\<equiv>"Finish reason fl" g' rule: gen_loop_run)
  case (stop g g')
  then show ?case using gen_step_generated by blast
next
  case (go g g1 g')
  then show ?case using generated_Cons by blast
qed

lemma gen_step_completion:
  assumes "gen_step api cb params p g = (v, g')"
  shows "g_completion g' = g_completion g
    \<or> (g_completion g' = g_completion g + 1 \<and> \<not> budget_used params (g_completion g))"
  using assms
  by (auto simp: gen_step_def gen_token_def Let_def split: prod.splits sum.splits status.splits if_splits)

lemma gen_loop_budget:
  assumes "gen_loop api cb params p g = (v, g')"
    and "0 \<le> sp_max_tokens params \<longrightarrow> g_completion g \<le> sp_max_tokens params"
  shows "0 \<le> sp_max_tokens params \<longrightarrow> g_completion g' \<le> sp_max_tokens params"
  using assms
proof (induction rule: gen_loop_run)
  case (stop g v g')
  with gen_step_completion [OF stop(1)] show ?case by (auto simp: budget_used_def)
next
  case (go g g1 v g')
  with gen_step_completion [OF go(1)] show ?case by (auto simp: budget_used_def)
qed

text \<open>Each generated token but the last takes a place in the context.\<close>

lemma gen_loop_context:
  assumes "gen_loop api cb params p g = (v, g')" "length (cached (g_impl g)) \<le> n_ctx_seq (g_impl g)"
  shows "g_completion g' + int (length (cached (g_impl g)))
    \<le> g_completion g + int (n_ctx_seq (g_impl g)) + 1 \<and> g_completion g \<le> g_completion g'"
  using assms
proof (induction rule: gen_loop_run)
  case (stop g v g')
  with gen_step_completion [OF stop(1)] show ?case by auto
next
  case (go g g1 v g')
  have "g_completion g1 = g_completion g + 1"
    using go(1) by (auto elim!: gen_step_Next gen_token_Next)
  with gen_step_grows [OF go(1)] go(2) show ?case by auto
qed

lemma gen_reply_Inr:
  assumes "gen_reply api cb clock params p stats s st w = (Inr res, st', w')"
  obtains g fl f where "gen_loop api cb params p
      \<lparr>g_impl = st, g_sampler = s, g_filter = new_filter (sp_stop params), g_sink = w,
       g_completion = st_completion_tokens stats\<rparr> = (Finish (res_reason res) fl, g)"
    "st' = g_impl g"
    "(if fl then flush cb (g_sink g) (g_filter g) else (Inr (), g_filter g, g_sink g)) = (Inr (), f, w')"
    "res_stats res = stats\<lparr>st_completion_tokens := g_completion g, st_completion_ms := clock 1\<rparr>"
  using assms by (auto simp: gen_reply_def gen_end_def Let_def split: prod.splits verdict.splits sum.splits)

lemma generate_Inr:
  assumes "generate api cb clock prompt params st w = Some (Inr res, st', w')" "0 < n_batch st"
  obtains tokens kept st1 st2 resolved s g fl f where
    "tokenize api prompt True True = Inr tokens" "tokens \<noteq> []" "length tokens < n_ctx_seq st"
    "resolve api params = Inr resolved" "new_sampler api params resolved = Inr s"
    "keep_prefix api st tokens = (kept, st1)"
    "prompt_loop (decode api) (n_batch st) tokens kept st1 = Some (Inr 0, st2)"
    "gen_loop api cb params (rt_preserved resolved)
      \<lparr>g_impl = st2\<lparr>ctx := api_synchronize api (ctx st2)\<rparr>, g_sampler = s,
       g_filter = new_filter (sp_stop params), g_sink = w, g_completion = 0\<rparr> = (Finish (res_reason res) fl, g)"
    "st' = g_impl g"
    "(if fl then flush cb (g_sink g) (g_filter g) else (Inr (), g_filter g, g_sink g)) = (Inr (), f, w')"
    "res_stats res = default_stats\<lparr>st_prompt_tokens := i32 (length tokens),
       st_completion_tokens := g_completion g, st_prompt_ms := clock 0, st_completion_ms := clock 1,
       st_cached_prompt_tokens := i32 kept\<rparr>"
  using assms
proof (cases rule: generate_phases)
  case (replied tokens kept st1 st2 resolved s stats)
  from replied(9) show thesis
  proof (cases rule: gen_reply_Inr)
    case (1 g fl f)
    from 1(1) have run: "gen_loop api cb params (rt_preserved resolved)
      \<lparr>g_impl = st2\<lparr>ctx := api_synchronize api (ctx st2)\<rparr>, g_sampler = s,
       g_filter = new_filter (sp_stop params), g_sink = w, g_completion = 0\<rparr> = (Finish (res_reason res) fl, g)"
      by (simp add: replied(8) default_stats_def)
    show thesis
      by (rule that [OF replied(1-7) run 1(2,3)]) (simp add: 1(4) replied(8))
  qed
qed auto

text \<open>
  C4. What a client that never cancels receives is the filter's output for the pieces of the
  generated tokens, and nothing else: the run ended on a stop string exactly when the filter found
  one, the number of tokens reported is the number of pieces, none of them ends the generation,
  and the reason is never a cancellation.
\<close>

theorem generation_is_filtered_text:
  assumes "0 < n_batch st"
    and "generate api collect clock prompt params st [] = Some (Inr res, st', chunks)"
  shows "\<exists>resolved toks pieces. resolve api params = Inr resolved
    \<and> map_result (\<lambda>t. token_to_piece api t (t \<in> rt_preserved resolved)) toks = Inr pieces
    \<and> run_filter (sp_stop params) pieces = (res_reason res = Stop, chunks)
    \<and> st_completion_tokens (res_stats res) = int (length toks)
    \<and> list_all (\<lambda>t. \<not> api_is_eog api t) toks \<and> res_reason res \<noteq> Cancelled"
  using assms(2,1)
proof (cases rule: generate_Inr)
  case (1 tokens kept st1 st2 resolved s g fl f)
  from gen_loop_generated [OF 1(8)] obtain toks pieces where
    toks: "map_result (\<lambda>t. token_to_piece api t (t \<in> rt_preserved resolved)) toks = Inr pieces"
    "push_all collect [] (new_filter (sp_stop params)) pieces
       = (Inr (status_of (res_reason res)), g_filter g, g_sink g)"
    "g_completion g = int (length toks)" "list_all (\<lambda>t. \<not> api_is_eog api t) toks"
    "fl \<longleftrightarrow> res_reason res \<noteq> Stop \<and> res_reason res \<noteq> Cancelled"
    unfolding generated_def by auto
  have "status_of (res_reason res) \<noteq> Status_Cancelled"
    using toks(2) by (cases "sp_stop params" pieces rule: run_filter_cases) auto
  then have "res_reason res \<noteq> Cancelled" by (auto simp: status_of_def)
  moreover from this have "run_filter (sp_stop params) pieces = (res_reason res = Stop, chunks)"
    using toks(2,5) 1(10)
    by (cases "res_reason res") (simp_all add: run_filter_def status_of_def)
  ultimately show ?thesis using 1(4,11) toks(1,3,4) by auto
qed

theorem generation_is_filtered_text_witness:
  "\<exists>toks pieces. run_filter [''c''] pieces = (True, [''b'']) \<and> length (toks :: token list) = 2
    \<and> map_result (\<lambda>t. token_to_piece sample_api t False) toks = Inr pieces"
proof -
  obtain res st' where run: "sample_run [''c''] [] = Some (Inr res, st', [''b''])" "res_reason res = Stop"
    "st_completion_tokens (res_stats res) = 2"
    using sample_run_stop by (rule summary_run)
  have "resolve sample_api (sample_request [''c''] []) =
      Inr \<lparr>rt_preserved = {}, rt_trigger_tokens = [], rt_trigger_patterns = [], rt_prefill = []\<rparr>"
    by code_simp
  with generation_is_filtered_text [OF _ run(1) [unfolded sample_run_def]] run(2,3)
  show ?thesis by (auto simp: sample_impl_def sample_request_def)
qed

text \<open>
  C19. Every reply to a request with an eager grammar satisfies the grammar: started at the root, it
  accepts the text the template already wrote, then every token of the reply in order, and the end
  of generation where the model chose to end. The tokens of the reply are those whose pieces were
  given to the filter, and through it to the receiver, and that were decoded after the prompt (all, or
  all but the last; a failed decode empties the record). No token gets past the grammar, whatever the
  client does.
\<close>

theorem reply_satisfies_the_grammar:
  assumes "0 < n_batch st" and "gs_grammar (sp_grammar params) \<noteq> []" and "\<not> gs_lazy (sp_grammar params)"
    and "generate api cb clock prompt params st w = Some (Inr res, st', w')"
  shows "\<exists>resolved g0 toks end_tok g pieces f w1 tokens d. resolve api params = Inr resolved
    \<and> eager_start api params = Some g0
    \<and> accept_all api g0 (rt_prefill resolved @ toks @ end_tok) = Inr g
    \<and> int (length toks) = st_completion_tokens (res_stats res)
    \<and> (if res_reason res = Eog then \<exists>t. end_tok = [t] \<and> api_is_eog api t else end_tok = [])
    \<and> map_result (\<lambda>t. token_to_piece api t (t \<in> rt_preserved resolved)) toks = Inr pieces
    \<and> push_all cb w (new_filter (sp_stop params)) pieces = (Inr (status_of (res_reason res)), f, w1)
    \<and> (if res_reason res = Stop \<or> res_reason res = Cancelled then w' = w1
       else fst (flush cb w1 f) = Inr () \<and> snd (snd (flush cb w1 f)) = w')
    \<and> tokenize api prompt True True = Inr tokens
    \<and> prefix d toks \<and> length toks \<le> length d + 1 \<and> cached st' \<in> {[], tokens @ d}"
  using assms(4,1)
proof (cases rule: generate_Inr)
  case (1 tokens kept st1 st2 resolved s g fl f)
  from gen_loop_generated [OF 1(8)] obtain toks end_tok pieces where
    toks: "g_completion g = int (length toks)"
    "advance_grammar api (sc_grammar s) (toks @ end_tok) = Inr (sc_grammar (g_sampler g))"
    "if res_reason res = Eog then \<exists>t. end_tok = [t] \<and> api_is_eog api t else end_tok = []"
    and sent: "map_result (\<lambda>t. token_to_piece api t (t \<in> rt_preserved resolved)) toks = Inr pieces"
    "push_all cb w (new_filter (sp_stop params)) pieces
       = (Inr (status_of (res_reason res)), g_filter g, g_sink g)"
    and "decoded_after (cached st2) toks (cached (g_impl g))"
    and fl: "fl \<longleftrightarrow> res_reason res \<noteq> Stop \<and> res_reason res \<noteq> Cancelled"
    unfolding generated_def by auto
  moreover have "cached st2 = tokens" using prefill_recorded [OF 1(2) assms(1) 1(6,7)] .
  ultimately obtain d where d: "prefix d toks" "length toks \<le> length d + 1" "cached st' \<in> {[], tokens @ d}"
    using 1(9) unfolding decoded_after_def by auto
  have out: "if res_reason res = Stop \<or> res_reason res = Cancelled then w' = g_sink g
      else fst (flush cb (g_sink g) (g_filter g)) = Inr () \<and> snd (snd (flush cb (g_sink g) (g_filter g))) = w'"
    using 1(10) fl by (auto split: if_splits)
  have "api_chain_init api \<noteq> None" using 1(5) by (auto simp: new_sampler_def Let_def split: option.splits)
  then obtain h h' where "build api h params resolved = Inr (h', sc_grammar s)"
    using 1(5) by (auto simp: new_sampler_def Let_def split: sum.splits)
  from build_grammar [OF this] assms(2) obtain g1 where
    g1: "sc_grammar s = Some g1" "add_grammar api params resolved = Inr g1" by blast
  from g1(2) assms(3) obtain g0 where
    g0: "eager_start api params = Some g0" "accept_all api g0 (rt_prefill resolved) = Inr g1"
    by (auto simp: add_grammar_def eager_start_def Let_def split: option.splits sum.splits)
  from toks(2) g1(1) obtain g2 where "accept_all api g1 (toks @ end_tok) = Inr g2"
    by (cases "accept_all api g1 (toks @ end_tok)") (auto simp: advance_grammar_def)
  with g0(2) have "accept_all api g0 (rt_prefill resolved @ toks @ end_tok) = Inr g2"
    by (simp add: accept_all_append)
  moreover have "int (length toks) = st_completion_tokens (res_stats res)" using 1(11) toks(1) by simp
  ultimately show ?thesis
    by (intro exI conjI) (rule 1(4) g0(1) toks(3) sent out 1(1) d | assumption)+
qed

theorem reply_satisfies_the_grammar_witness:
  "\<exists>toks end_tok g pieces f w1. accept_all sample_api [1, 2] (toks @ end_tok) = Inr g \<and> length toks = 3
    \<and> end_tok = [] \<and> map_result (\<lambda>t. token_to_piece sample_api t False) toks = Inr pieces
    \<and> push_all collect [] (new_filter []) pieces = (Inr Status_Continue, f, w1)
    \<and> snd (snd (flush collect w1 f)) = [''b'', ''a'', ''b'']"
proof -
  obtain res st' where run: "sample_run [] ''ab'' = Some (Inr res, st', [''b'', ''a'', ''b''])"
    "res_reason res = Length" "st_completion_tokens (res_stats res) = 3"
    using sample_run_grammar by (rule summary_run)
  have resolved: "resolve sample_api (sample_request [] ''ab'') =
      Inr \<lparr>rt_preserved = {}, rt_trigger_tokens = [], rt_trigger_patterns = [], rt_prefill = []\<rparr>"
    by code_simp
  have start: "eager_start sample_api (sample_request [] ''ab'') = Some [1, 2]" by code_simp
  have g: "gs_grammar (sp_grammar (sample_request [] ''ab'')) \<noteq> []"
    "\<not> gs_lazy (sp_grammar (sample_request [] ''ab''))"
    by code_simp+
  have ends: "sp_stop (sample_request [] ''ab'') = []" "status_of Length = Status_Continue" by code_simp+
  from reply_satisfies_the_grammar [OF _ g run(1) [unfolded sample_run_def]] run(2,3) resolved start ends
  show ?thesis by (simp add: sample_impl_def) blast
qed

text \<open>
  C28. The budget and the context are kept: no more tokens than \<open>max_tokens\<close> where it is set, and
  together with the prompt at most one more than the context holds (the last token is never
  decoded). A generation that stopped for its length used up the budget, or filled the context, or
  met a context without room for the next token, which empties the cache.
\<close>

theorem generation_is_bounded:
  assumes "memory_laws api seq" and "cached st = seq (ctx st)" and "0 < n_batch st"
    and "n_ctx_seq st \<le> 2 ^ 31"
    and "generate api cb clock prompt params st w = Some (Inr res, st', w')"
  shows "0 \<le> st_completion_tokens (res_stats res)
    \<and> (0 \<le> sp_max_tokens params \<longrightarrow> st_completion_tokens (res_stats res) \<le> sp_max_tokens params)
    \<and> st_prompt_tokens (res_stats res) + st_completion_tokens (res_stats res) \<le> int (n_ctx_seq st) + 1
    \<and> 0 \<le> st_cached_prompt_tokens (res_stats res)
    \<and> st_cached_prompt_tokens (res_stats res) < st_prompt_tokens (res_stats res)
    \<and> (res_reason res = Length \<longrightarrow>
         st_completion_tokens (res_stats res) = sp_max_tokens params
         \<or> length (cached st') = n_ctx_seq st' \<or> cached st' = [])"
  using assms(5,3)
proof (cases rule: generate_Inr)
  case (1 tokens kept st1 st2 resolved s g fl f)
  let ?g = "\<lparr>g_impl = st2\<lparr>ctx := api_synchronize api (ctx st2)\<rparr>, g_sampler = s,
    g_filter = new_filter (sp_stop params), g_sink = w, g_completion = 0\<rparr>"
  have kv: "kv_inv api seq st" using assms(1,2) by (simp add: kv_inv_def)
  from prefill_engine [OF kv 1(2,3) assms(4) 1(6) assms(3) 1(7)]
  have st2: "engine_inv api seq st2" "same_shape st st2" "cached st2 = tokens" by simp_all
  then have inv: "engine_inv api seq (g_impl ?g)"
    using kv_inv_synchronize by (auto simp: engine_inv_def)
  have "kept < length tokens"
    using keep_prefix_spec [OF kv _ 1(2,6)] 1(3) assms(4) by (simp add: kv_fits_def)
  then have i32: "i32 (length tokens) = int (length tokens)" "i32 kept = int kept" "kept < length tokens"
    using 1(3) assms(4) by (simp_all add: i32_small)
  have budget: "0 \<le> sp_max_tokens params \<longrightarrow> g_completion g \<le> sp_max_tokens params"
    by (rule gen_loop_budget [OF 1(8)]) simp
  have "g_completion g + int (length tokens) \<le> int (n_ctx_seq st) + 1 \<and> 0 \<le> g_completion g"
    using gen_loop_context [OF 1(8)] st2 1(3) by (simp add: same_shape_def)
  moreover have "g_completion g = sp_max_tokens params
      \<or> length (cached st') = n_ctx_seq st' \<or> cached st' = []" if "res_reason res = Length"
    using gen_loop_generated [OF 1(8)] that budget engine_inv_gen_loop [OF 1(8) inv] 1(9)
    by (auto simp: budget_used_def engine_inv_def)
  ultimately show ?thesis using 1(11) budget i32 by auto
qed

theorem generation_is_bounded_witness:
  "\<exists>res st' w'. sample_run [] ''ab'' = Some (Inr res, st', w')
    \<and> st_completion_tokens (res_stats res) \<le> sp_max_tokens (sample_request [] ''ab'')
    \<and> res_reason res = Length"
proof -
  obtain res st' where run: "sample_run [] ''ab'' = Some (Inr res, st', [''b'', ''a'', ''b''])"
    "res_reason res = Length"
    using sample_run_grammar by (rule summary_run)
  have "0 \<le> sp_max_tokens (sample_request [] ''ab'')" by (simp add: sample_request_def)
  with generation_is_bounded [OF sample_memory_laws _ _ _ run(1) [unfolded sample_run_def]] run
  show ?thesis by (simp add: sample_impl_def)
qed

text \<open>
  C29. A request that is refused before its prompt runs (the wrong kind of model, text that does not
  tokenize, a prompt that is empty or does not fit, strings that do not resolve, a grammar that
  does not parse) ends in an error that leaves the engine, its cache included, and the receiver as
  they were.
\<close>

theorem refused_request_touches_nothing:
  assumes "embeddings st
      \<or> (case tokenize api prompt True True of
           Inl e \<Rightarrow> True
         | Inr tokens \<Rightarrow> tokens = [] \<or> n_ctx_seq st \<le> length tokens)
      \<or> (case resolve api params of
           Inl e \<Rightarrow> True
         | Inr r \<Rightarrow> \<not> is_ok (new_sampler api params r))"
  shows "\<exists>e. generate api cb clock prompt params st w = Some (Inl e, st, w)"
proof -
  consider (a) "embeddings st" | (b) e where "\<not> embeddings st" "tokenize api prompt True True = Inl e"
    | (c) tokens where "\<not> embeddings st" "tokenize api prompt True True = Inr tokens"
        "tokens = [] \<or> n_ctx_seq st \<le> length tokens"
    | (d) tokens e where "\<not> embeddings st" "tokenize api prompt True True = Inr tokens"
        "tokens \<noteq> []" "length tokens < n_ctx_seq st" "resolve api params = Inl e"
    | (e) tokens r e where "\<not> embeddings st" "tokenize api prompt True True = Inr tokens"
        "tokens \<noteq> []" "length tokens < n_ctx_seq st" "resolve api params = Inr r"
        "new_sampler api params r = Inl e"
    using assms by (auto simp: is_ok_iff split: sum.splits) (metis linorder_not_less sum.exhaust)+
  then show ?thesis
    by cases (auto simp: generate_def generate_locked_def)
qed

theorem refused_request_touches_nothing_witness:
  "\<exists>e. generate sample_api collect (\<lambda>_. Fin 0) [] (sample_request [] []) (sample_impl [1, 2]) [''x'']
     = Some (Inl e, sample_impl [1, 2], [''x''])"
  by (rule refused_request_touches_nothing) code_simp

end
