(* ===== verification/Wire.thy ===== *)
theory Wire
  imports Engine_Types
begin

text \<open>
  The messages of src/proto/llamad/v1/llamad.proto as far as the handlers use them, and the
  conversions of src/wire.cpp between them and the engine's and chat layer's types. A proto field
  with presence is an option, a \<open>oneof\<close> is a datatype. Theorems: what the daemon sends comes back
  unchanged when a client echoes it, and a finish chunk carries tool calls exactly when it says so.
\<close>

section \<open>Messages\<close>

record v1_sampling_params =
  v1_temperature :: "flt option"
  v1_top_k :: "int option"
  v1_top_p :: "flt option"
  v1_min_p :: "flt option"
  v1_seed :: "u32 option"
  v1_max_tokens :: "int option"
  v1_stop :: "bytes list"

record v1_tool =
  v1_tool_name :: bytes
  v1_tool_description :: bytes
  v1_tool_schema :: bytes

record v1_tool_call =
  v1_call_id :: bytes
  v1_call_name :: bytes
  v1_call_arguments :: bytes

record v1_chat_message =
  v1_role :: bytes
  v1_content :: bytes
  v1_tool_calls :: "v1_tool_call list"
  v1_tool_call_id :: bytes

record v1_model_info =
  v1_description :: bytes
  v1_n_params :: u64
  v1_size_bytes :: u64
  v1_n_ctx :: u32
  v1_n_ctx_train :: u32
  v1_has_chat_template :: bool
  v1_n_embd :: u32
  v1_serves_embeddings :: bool

datatype v1_finish_reason =
    FINISH_REASON_UNSPECIFIED
  | FINISH_REASON_EOG
  | FINISH_REASON_LENGTH
  | FINISH_REASON_STOP
  | FINISH_REASON_CANCELLED
  | FINISH_REASON_TOOL_CALLS

record v1_generate_stats =
  v1_prompt_tokens :: int
  v1_completion_tokens :: int
  v1_prompt_ms :: flt
  v1_completion_ms :: flt
  v1_cached_prompt_tokens :: int

record v1_finish =
  v1_reason :: v1_finish_reason
  v1_stats :: v1_generate_stats
  v1_finish_calls :: "v1_tool_call list"

datatype generate_chunk = Text_chunk bytes | Finish_chunk v1_finish

record v1_embed_response =
  v1_embeddings :: "flt list list"
  v1_input_tokens :: int

section \<open>Conversions\<close>

fun reason_to_proto :: "finish_reason \<Rightarrow> v1_finish_reason" where
  "reason_to_proto Eog = FINISH_REASON_EOG"
| "reason_to_proto Length = FINISH_REASON_LENGTH"
| "reason_to_proto Stop = FINISH_REASON_STOP"
| "reason_to_proto Cancelled = FINISH_REASON_CANCELLED"

definition stats_to_proto :: "generate_stats \<Rightarrow> v1_generate_stats" where
  "stats_to_proto stats =
     \<lparr>v1_prompt_tokens = st_prompt_tokens stats,
      v1_completion_tokens = st_completion_tokens stats,
      v1_prompt_ms = st_prompt_ms stats,
      v1_completion_ms = st_completion_ms stats,
      v1_cached_prompt_tokens = st_cached_prompt_tokens stats\<rparr>"

definition call_to_proto :: "tool_call \<Rightarrow> v1_tool_call" where
  "call_to_proto call =
     \<lparr>v1_call_id = call_id call, v1_call_name = call_name call,
      v1_call_arguments = call_arguments_json call\<rparr>"

definition sampling_from_proto :: "v1_sampling_params \<Rightarrow> sampling_params" where
  "sampling_from_proto params =
     (let out = default_sampling;
          out = (case v1_temperature params of Some x \<Rightarrow> out\<lparr>sp_temperature := x\<rparr> | None \<Rightarrow> out);
          out = (case v1_top_k params of Some x \<Rightarrow> out\<lparr>sp_top_k := x\<rparr> | None \<Rightarrow> out);
          out = (case v1_top_p params of Some x \<Rightarrow> out\<lparr>sp_top_p := x\<rparr> | None \<Rightarrow> out);
          out = (case v1_min_p params of Some x \<Rightarrow> out\<lparr>sp_min_p := x\<rparr> | None \<Rightarrow> out);
          out = (case v1_seed params of Some x \<Rightarrow> out\<lparr>sp_seed := Some x\<rparr> | None \<Rightarrow> out);
          out = (case v1_max_tokens params of Some x \<Rightarrow> out\<lparr>sp_max_tokens := x\<rparr> | None \<Rightarrow> out)
      in out\<lparr>sp_stop := v1_stop params\<rparr>)"

definition call_from_proto :: "v1_tool_call \<Rightarrow> tool_call" where
  "call_from_proto call =
     \<lparr>call_id = v1_call_id call, call_name = v1_call_name call,
      call_arguments_json = v1_call_arguments call\<rparr>"

definition message_from_proto :: "v1_chat_message \<Rightarrow> chat_message" where
  "message_from_proto message =
     \<lparr>msg_role = v1_role message, msg_content = v1_content message,
      msg_tool_calls = map call_from_proto (v1_tool_calls message),
      msg_tool_call_id = v1_tool_call_id message\<rparr>"

definition tool_from_proto :: "v1_tool \<Rightarrow> tool" where
  "tool_from_proto t =
     \<lparr>tool_name = v1_tool_name t, tool_description = v1_tool_description t,
      tool_parameters_json_schema = v1_tool_schema t\<rparr>"

definition info_to_proto :: "model_info \<Rightarrow> v1_model_info" where
  "info_to_proto info =
     \<lparr>v1_description = mi_description info, v1_n_params = mi_n_params info,
      v1_size_bytes = mi_size_bytes info, v1_n_ctx = mi_n_ctx info,
      v1_n_ctx_train = mi_n_ctx_train info, v1_has_chat_template = mi_has_chat_template info,
      v1_n_embd = mi_n_embd info, v1_serves_embeddings = mi_serves_embeddings info\<rparr>"

definition embed_to_proto :: "embed_result \<Rightarrow> v1_embed_response" where
  "embed_to_proto result =
     \<lparr>v1_embeddings = er_embeddings result, v1_input_tokens = er_input_tokens result\<rparr>"

definition finish_chunk :: "finish_reason \<Rightarrow> generate_stats \<Rightarrow> tool_call list \<Rightarrow> generate_chunk" where
  "finish_chunk reason stats tool_calls =
     (let ran_to_completion = (reason = Eog \<or> reason = Stop);
          tool_calls = (if \<not> ran_to_completion then [] else tool_calls)
      in Finish_chunk
           \<lparr>v1_reason = (if tool_calls = [] then reason_to_proto reason else FINISH_REASON_TOOL_CALLS),
            v1_stats = stats_to_proto stats,
            v1_finish_calls = map call_to_proto tool_calls\<rparr>)"

section \<open>What the wire keeps\<close>

lemma call_echo [simp]: "call_from_proto (call_to_proto c) = c"
  by (simp add: call_from_proto_def call_to_proto_def)

lemma call_reply [simp]: "call_to_proto (call_from_proto c) = c"
  by (simp add: call_from_proto_def call_to_proto_def)

lemma reason_to_proto_iff [simp]:
  "reason_to_proto r = FINISH_REASON_EOG \<longleftrightarrow> r = Eog"
  "reason_to_proto r = FINISH_REASON_LENGTH \<longleftrightarrow> r = Length"
  "reason_to_proto r = FINISH_REASON_STOP \<longleftrightarrow> r = Stop"
  "reason_to_proto r = FINISH_REASON_CANCELLED \<longleftrightarrow> r = Cancelled"
  by (cases r; simp)+

lemma reason_to_proto_inj: "reason_to_proto a = reason_to_proto b \<Longrightarrow> a = b"
  by (cases a; cases b) simp_all

lemma reason_to_proto_plain [simp]:
  "reason_to_proto r \<noteq> FINISH_REASON_TOOL_CALLS" "reason_to_proto r \<noteq> FINISH_REASON_UNSPECIFIED"
  by (cases r; simp)+

text \<open>
  C15. The contract of the last chunk: its tool calls are non-empty if and only if its reason is
  \<open>TOOL_CALLS\<close>; that happens only for a generation that ran to completion, and then the calls are
  all of the parser's, in order, and echoing them gives them back unchanged. Otherwise the reason
  is the engine's own, which can be read off it. The unspecified reason is never sent.
\<close>

theorem finish_chunk_contract:
  "case finish_chunk reason stats calls of
     Text_chunk t \<Rightarrow> False
   | Finish_chunk fin \<Rightarrow>
       (v1_finish_calls fin \<noteq> [] \<longleftrightarrow> v1_reason fin = FINISH_REASON_TOOL_CALLS)
       \<and> (v1_reason fin = FINISH_REASON_TOOL_CALLS \<longleftrightarrow> (reason = Eog \<or> reason = Stop) \<and> calls \<noteq> [])
       \<and> map call_from_proto (v1_finish_calls fin) = (if reason = Eog \<or> reason = Stop then calls else [])
       \<and> (v1_reason fin = FINISH_REASON_TOOL_CALLS \<or> (\<forall>r. reason_to_proto r = v1_reason fin \<longleftrightarrow> r = reason))
       \<and> v1_reason fin \<noteq> FINISH_REASON_UNSPECIFIED"
  by (auto simp: finish_chunk_def Let_def comp_def dest: reason_to_proto_inj)

end
