(* ===== verification/Chat_Lib.thy ===== *)
theory Chat_Lib
  imports Engine_Types
begin

text \<open>
  The part of llama.cpp's common library and of nlohmann::json that src/chat_format.cpp calls. Both
  come with the llama.cpp submodule, so their functions are parameters: one record of operations.
  \<open>'x\<close> stands for the fields of \<open>common_chat_msg\<close> the sources never mention, \<open>'t\<close> for compiled
  templates, \<open>'f\<close> for a format identifier, \<open>'q\<close> for a loaded parser, \<open>'r\<close> for a random generator.
\<close>

section \<open>Messages, tools and inputs\<close>

record common_tool_call =
  cc_name :: bytes
  cc_arguments :: bytes
  cc_id :: bytes

record 'x common_msg =
  cm_role :: bytes
  cm_content :: bytes
  cm_tool_calls :: "common_tool_call list"
  cm_tool_call_id :: bytes
  cm_rest :: 'x

record common_tool =
  ct_name :: bytes
  ct_description :: bytes
  ct_parameters :: bytes

datatype reasoning_format = Reasoning_none | Reasoning_auto

datatype tool_choice = Tool_choice_auto | Tool_choice_required | Tool_choice_none

record 'x chat_inputs =
  in_messages :: "'x common_msg list"
  in_tools :: "common_tool list"
  in_json_schema :: bytes
  in_use_jinja :: bool
  in_add_generation_prompt :: bool
  in_tool_choice :: tool_choice
  in_parallel_tool_calls :: bool
  in_reasoning :: reasoning_format
  in_enable_thinking :: bool

section \<open>Results of a render\<close>

datatype trigger_type = Trigger_token | Trigger_word | Trigger_pattern | Trigger_pattern_full

record grammar_trigger =
  gt_type :: trigger_type
  gt_value :: bytes

record 'f chat_params =
  cp_prompt :: bytes
  cp_grammar :: bytes
  cp_grammar_lazy :: bool
  cp_generation_prompt :: bytes
  cp_preserved_tokens :: "bytes list"
  cp_additional_stops :: "bytes list"
  cp_grammar_triggers :: "grammar_trigger list"
  cp_format :: 'f
  cp_parser :: bytes

text \<open>\<open>common_chat_parser_params\<close>; no parser is the default, before one is loaded.\<close>

record ('f, 'q) parser_params =
  pp_format :: 'f
  pp_generation_prompt :: bytes
  pp_reasoning :: reasoning_format
  pp_parse_tool_calls :: bool
  pp_parser :: "'q option"

text \<open>What the sources ask of a parsed JSON value: is it an object, and with how many members.\<close>

datatype json_value = Json_object nat | Json_other

record ('x, 't, 'f, 'q, 'r) chat_lib =
  lib_json_accept :: "bytes \<Rightarrow> bool"
  lib_json_parse :: "bytes \<Rightarrow> json_value option"
  lib_templates_init :: "bytes \<Rightarrow> bytes \<Rightarrow> bytes \<Rightarrow> exn + 't"
  lib_templates_caps :: "'t \<Rightarrow> bytes \<Rightarrow> bool option"
  lib_templates_apply :: "'t \<Rightarrow> 'x chat_inputs \<Rightarrow> exn + 'f chat_params"
  lib_parser_load :: "bytes \<Rightarrow> exn + 'q"
  lib_parse :: "bytes \<Rightarrow> bool \<Rightarrow> ('f, 'q) parser_params \<Rightarrow> exn + 'x common_msg"
  lib_msg_empty :: "'x common_msg \<Rightarrow> bool"
  lib_set_call_ids :: "('r \<Rightarrow> bytes \<times> 'r) \<Rightarrow> 'r \<Rightarrow> bytes list \<Rightarrow> 'x common_msg
      \<Rightarrow> 'x common_msg \<times> bytes list \<times> 'r"
  lib_default_rest :: 'x
  lib_pick :: "'r \<Rightarrow> nat \<Rightarrow> nat \<Rightarrow> nat \<times> 'r"

end
