(* ===== verification/Sample_Chat.thy ===== *)
theory Sample_Chat
  imports Chat_Lib
begin

text \<open>
  A small instance of the chat library, on which the properties with hypotheses about it are
  applied: the text up to a \<open>#\<close> is visible content, what follows is the name of a tool call without
  arguments, and a reply with a \<open>!\<close> in it is rejected at the end. A value in braces is a JSON object
  with as many members as it has characters between them.
\<close>

definition sample_json :: "bytes \<Rightarrow> json_value option" where
  "sample_json s =
     (if s = [] then None
      else if hd s = CHR ''{'' \<and> last s = CHR ''}'' then Some (Json_object (length s - 2))
      else if hd s = CHR ''['' then Some Json_other else None)"

definition sample_parse :: "bytes \<Rightarrow> bool \<Rightarrow> exn + unit common_msg" where
  "sample_parse t is_partial =
     (if \<not> is_partial \<and> CHR ''!'' \<in> set t then Inl (StdException ''no match'')
      else Inr \<lparr>cm_role = ''assistant'', cm_content = takeWhile (\<lambda>c. c \<noteq> CHR ''#'') t,
                cm_tool_calls =
                  (case dropWhile (\<lambda>c. c \<noteq> CHR ''#'') t of
                     [] \<Rightarrow> []
                   | c # name \<Rightarrow> [\<lparr>cc_name = name, cc_arguments = [], cc_id = []\<rparr>]),
                cm_tool_call_id = [], cm_rest = ()\<rparr>)"

definition sample_chat :: "(unit, bytes, unit, bytes, nat) chat_lib" where
  "sample_chat =
     \<lparr>lib_json_accept = (\<lambda>s. sample_json s \<noteq> None),
      lib_json_parse = sample_json,
      lib_templates_init = (\<lambda>src bos eos. if src = ''bad'' then Inl (StdException ''syntax'') else Inr src),
      lib_templates_caps = (\<lambda>t cap. Some True),
      lib_templates_apply = (\<lambda>t inputs.
        Inr \<lparr>cp_prompt = concat (map cm_content (in_messages inputs)), cp_grammar = [],
             cp_grammar_lazy = False, cp_generation_prompt = [], cp_preserved_tokens = [],
             cp_additional_stops = [''c''], cp_grammar_triggers = [], cp_format = (), cp_parser = []\<rparr>),
      lib_parser_load = (\<lambda>p. Inr p),
      lib_parse = (\<lambda>t is_partial params. sample_parse t is_partial),
      lib_msg_empty = (\<lambda>m. cm_content m = [] \<and> cm_tool_calls m = []),
      lib_set_call_ids = (\<lambda>gen rng ids m.
        if length ids < length (cm_tool_calls m)
        then (case gen rng of (i, rng) \<Rightarrow>
               (m\<lparr>cm_tool_calls := map (\<lambda>c. c\<lparr>cc_id := i\<rparr>) (cm_tool_calls m)\<rparr>, [i], rng))
        else (m\<lparr>cm_tool_calls := map (\<lambda>c. c\<lparr>cc_id := hd ids\<rparr>) (cm_tool_calls m)\<rparr>, ids, rng)),
      lib_default_rest = (),
      lib_pick = (\<lambda>rng lo hi. (lo + rng mod (hi - lo + 1), rng + 7))\<rparr>"

end
