(* ===== verification/Chat_Format.thy ===== *)
theory Chat_Format
  imports Sample_Chat
begin

text \<open>
  src/chat_format.cpp: rendering a conversation through the model's template, and the stream that
  parses what the model generates. What the theory shows: which conversations are refused and what
  the template is given for the others, that no grammar trigger is lost, that a stream never takes
  back nor repeats what it has shown, and that tool calls come whole or not at all.
\<close>

section \<open>Identifiers\<close>

definition alnum :: bytes where
  "alnum = ''0123456789ABCDEFGHIJKLMNOPQRSTUVWXYZabcdefghijklmnopqrstuvwxyz''"

text \<open>
  The loop over the characters of the identifier. \<open>sizeof(alnum) - 2\<close> counts the terminating NUL
  out, and the upper bound of the distribution is inclusive.
\<close>

fun gen_id_chars :: "('x, 't, 'f, 'q, 'r) chat_lib \<Rightarrow> nat \<Rightarrow> 'r \<Rightarrow> bytes \<times> 'r" where
  "gen_id_chars lib 0 rng = ([], rng)"
| "gen_id_chars lib (Suc n) rng =
     (case lib_pick lib rng 0 (length alnum + 1 - 2) of
        (i, rng) \<Rightarrow>
          (case gen_id_chars lib n rng of (cs, rng) \<Rightarrow> (alnum ! i # cs, rng)))"

definition gen_tool_call_id :: "('x, 't, 'f, 'q, 'r) chat_lib \<Rightarrow> 'r \<Rightarrow> bytes \<times> 'r" where
  "gen_tool_call_id lib rng = gen_id_chars lib 32 rng"

section \<open>Conversions\<close>

definition call_to_common :: "tool_call \<Rightarrow> common_tool_call" where
  "call_to_common call =
     \<lparr>cc_name = call_name call, cc_arguments = call_arguments_json call, cc_id = call_id call\<rparr>"

definition message_to_common :: "('x, 't, 'f, 'q, 'r) chat_lib \<Rightarrow> chat_message \<Rightarrow> 'x common_msg" where
  "message_to_common lib message =
     \<lparr>cm_role = msg_role message, cm_content = msg_content message,
      cm_tool_calls = map call_to_common (msg_tool_calls message),
      cm_tool_call_id = msg_tool_call_id message, cm_rest = lib_default_rest lib\<rparr>"

definition tool_to_common :: "('x, 't, 'f, 'q, 'r) chat_lib \<Rightarrow> tool \<Rightarrow> exn + common_tool" where
  "tool_to_common lib t =
     (let schema = tool_parameters_json_schema t in
      if schema \<noteq> [] \<and> \<not> lib_json_accept lib schema
      then Inl (ChatFormatError (''tool '' @ quoted (tool_name t)
             @ '': parameters_json_schema is not valid JSON''))
      else Inr \<lparr>ct_name = tool_name t, ct_description = tool_description t,
                ct_parameters = (if schema = [] then ''{}'' else schema)\<rparr>)"

definition call_from_common :: "common_tool_call \<Rightarrow> tool_call" where
  "call_from_common call =
     \<lparr>call_id = cc_id call, call_name = cc_name call,
      call_arguments_json = (if cc_arguments call = [] then ''{}'' else cc_arguments call)\<rparr>"

definition is_complete :: "('x, 't, 'f, 'q, 'r) chat_lib \<Rightarrow> common_tool_call \<Rightarrow> bool" where
  "is_complete lib call \<longleftrightarrow>
     cc_name call \<noteq> [] \<and> (cc_arguments call = [] \<or> lib_json_accept lib (cc_arguments call))"

text \<open>\<open>PATTERN_FULL\<close>: the pattern anchored at both ends.\<close>

definition anchored :: "bytes \<Rightarrow> bytes" where
  "anchored pattern =
     (if pattern = [] then ''^$''
      else (if hd pattern \<noteq> CHR ''^'' then ''^'' else []) @ pattern
           @ (if last pattern \<noteq> CHR ''$'' then ''$'' else []))"

fun split_triggers :: "grammar_trigger list \<Rightarrow> grammar_spec \<Rightarrow> grammar_spec" where
  "split_triggers [] spec = spec"
| "split_triggers (t # ts) spec =
     split_triggers ts
       (case gt_type t of
          Trigger_word \<Rightarrow> spec\<lparr>gs_trigger_words := gs_trigger_words spec @ [gt_value t]\<rparr>
        | Trigger_pattern \<Rightarrow> spec\<lparr>gs_trigger_patterns := gs_trigger_patterns spec @ [gt_value t]\<rparr>
        | Trigger_pattern_full \<Rightarrow>
            spec\<lparr>gs_trigger_patterns := gs_trigger_patterns spec @ [anchored (gt_value t)]\<rparr>
        | Trigger_token \<Rightarrow>
            if gt_value t \<noteq> []
            then spec\<lparr>gs_trigger_words := gs_trigger_words spec @ [gt_value t]\<rparr> else spec)"

section \<open>The format\<close>

record 't chat_format =
  cf_templates :: 't
  cf_parallel_tool_calls :: bool

text \<open>A call inside \<open>try\<close> whose standard exceptions come out as chat format errors.\<close>

definition chat_error :: "bytes \<Rightarrow> exn + 'a \<Rightarrow> exn + 'a" where
  "chat_error what r =
     (case r of
        Inl e \<Rightarrow> (case exn_what e of Some m \<Rightarrow> Inl (ChatFormatError (what @ m)) | None \<Rightarrow> Inl e)
      | Inr x \<Rightarrow> Inr x)"

definition new_chat_format ::
  "('x, 't, 'f, 'q, 'r) chat_lib \<Rightarrow> bytes \<Rightarrow> bytes \<Rightarrow> bytes \<Rightarrow> exn + 't chat_format" where
  "new_chat_format lib template_source bos_token eos_token =
     (if template_source = [] then Inl (ChatFormatError ''the model has no chat template'')
      else
        (case chat_error ''failed to parse the chat template: ''
                (lib_templates_init lib template_source bos_token eos_token) of
           Inl e \<Rightarrow> Inl e
         | Inr templates \<Rightarrow>
             Inr \<lparr>cf_templates = templates,
                  cf_parallel_tool_calls =
                    (lib_templates_caps lib templates ''supports_parallel_tool_calls'' = Some True)\<rparr>))"

record ('f, 'q) rendered_chat =
  rc_prompt :: bytes
  rc_grammar :: grammar_spec
  rc_preserved_tokens :: "bytes list"
  rc_additional_stops :: "bytes list"
  rc_parse_state :: "('f, 'q) parser_params option"

text \<open>The checks on a response schema at the start of \<open>render\<close>.\<close>

definition check_schema ::
  "('x, 't, 'f, 'q, 'r) chat_lib \<Rightarrow> tool list \<Rightarrow> bytes \<Rightarrow> exn + unit" where
  "check_schema lib tools schema =
     (if schema = [] then Inr ()
      else if tools \<noteq> []
      then Inl (ChatFormatError ''tools and response_json_schema cannot be used together'')
      else
        (case lib_json_parse lib schema of
           None \<Rightarrow> Inl (ChatFormatError ''response_json_schema is not valid JSON'')
         | Some Json_other \<Rightarrow> Inl (ChatFormatError ''response_json_schema is not a JSON object'')
         | Some (Json_object n) \<Rightarrow>
             if n = 0
             then Inl (ChatFormatError ''response_json_schema is an empty object, which constrains nothing'')
             else Inr ()))"

definition schema_instruction :: "bytes \<Rightarrow> bytes" where
  "schema_instruction schema =
     ''Reply with a single JSON object that matches this JSON Schema:'' @ [CHR 0x0A] @ schema"

text \<open>The instruction put on the copy of the history.\<close>

definition add_instruction ::
  "('x, 't, 'f, 'q, 'r) chat_lib \<Rightarrow> bytes \<Rightarrow> 'x common_msg list \<Rightarrow> 'x common_msg list" where
  "add_instruction lib instruction messages =
     (case messages of
        m # ms \<Rightarrow>
          if cm_role m = ''system''
          then m\<lparr>cm_content := cm_content m @ [CHR 0x0A, CHR 0x0A] @ instruction\<rparr> # ms
          else \<lparr>cm_role = ''system'', cm_content = instruction, cm_tool_calls = [],
                cm_tool_call_id = [], cm_rest = lib_default_rest lib\<rparr> # messages
      | [] \<Rightarrow>
          [\<lparr>cm_role = ''system'', cm_content = instruction, cm_tool_calls = [],
            cm_tool_call_id = [], cm_rest = lib_default_rest lib\<rparr>])"

definition chat_inputs_for ::
  "('x, 't, 'f, 'q, 'r) chat_lib \<Rightarrow> 't chat_format \<Rightarrow> chat_message list \<Rightarrow> common_tool list \<Rightarrow> bytes
     \<Rightarrow> 'x chat_inputs" where
  "chat_inputs_for lib cf messages tools schema =
     (let schema_turn = (schema \<noteq> []);
          msgs = map (message_to_common lib) messages
      in \<lparr>in_messages = (if schema_turn then add_instruction lib (schema_instruction schema) msgs else msgs),
          in_tools = tools,
          in_json_schema = schema,
          in_use_jinja = True,
          in_add_generation_prompt = True,
          in_tool_choice = Tool_choice_auto,
          in_parallel_tool_calls = cf_parallel_tool_calls cf,
          in_reasoning = (if schema_turn then Reasoning_auto else Reasoning_none),
          in_enable_thinking = (\<not> schema_turn)\<rparr>)"

definition render ::
  "('x, 't, 'f, 'q, 'r) chat_lib \<Rightarrow> 't chat_format \<Rightarrow> chat_message list \<Rightarrow> tool list \<Rightarrow> bytes
     \<Rightarrow> exn + ('f, 'q) rendered_chat" where
  "render lib cf messages tools schema =
     (case check_schema lib tools schema of
        Inl e \<Rightarrow> Inl e
      | Inr _ \<Rightarrow>
          (case map_result (tool_to_common lib) tools of
             Inl e \<Rightarrow> Inl e
           | Inr common_tools \<Rightarrow>
               (let inputs = chat_inputs_for lib cf messages common_tools schema in
                case chat_error ''failed to render the chat template: ''
                       (lib_templates_apply lib (cf_templates cf) inputs) of
                  Inl e \<Rightarrow> Inl e
                | Inr params \<Rightarrow>
                    (let grammar = split_triggers (cp_grammar_triggers params)
                           (no_grammar\<lparr>gs_grammar := cp_grammar params, gs_lazy := cp_grammar_lazy params,
                                       gs_prefill := cp_generation_prompt params\<rparr>);
                         state = \<lparr>pp_format = cp_format params,
                                  pp_generation_prompt = cp_generation_prompt params,
                                  pp_reasoning = in_reasoning inputs, pp_parse_tool_calls = True,
                                  pp_parser = None\<rparr>
                     in case (if cp_parser params \<noteq> []
                              then chat_error ''failed to load the chat parser: ''
                                     (map_sum id Some (lib_parser_load lib (cp_parser params)))
                              else Inr None) of
                          Inl e \<Rightarrow> Inl e
                        | Inr parser \<Rightarrow>
                            Inr \<lparr>rc_prompt = cp_prompt params, rc_grammar = grammar,
                                 rc_preserved_tokens = cp_preserved_tokens params,
                                 rc_additional_stops = cp_additional_stops params,
                                 rc_parse_state = Some (state\<lparr>pp_parser := parser\<rparr>)\<rparr>))))"

section \<open>The stream\<close>

text \<open>\<open>ChatFormat::Stream::Impl\<close>, with the generator of the thread that runs it.\<close>

record ('x, 'f, 'q, 'r) chat_stream =
  cs_state :: "('f, 'q) parser_params"
  cs_accumulated :: bytes
  cs_parsed :: "'x common_msg"
  cs_call_ids :: "bytes list"
  cs_emitted :: bytes
  cs_rng :: 'r

definition new_stream ::
  "('x, 't, 'f, 'q, 'r) chat_lib \<Rightarrow> ('f, 'q) rendered_chat \<Rightarrow> 'r \<Rightarrow> exn + ('x, 'f, 'q, 'r) chat_stream" where
  "new_stream lib rendered rng =
     (case rc_parse_state rendered of
        None \<Rightarrow> Inl (ChatFormatError
          ''RenderedChat has no parser state (not produced by ChatFormat::render)'')
      | Some state \<Rightarrow>
          Inr \<lparr>cs_state = state, cs_accumulated = [],
               cs_parsed = \<lparr>cm_role = [], cm_content = [], cm_tool_calls = [], cm_tool_call_id = [],
                            cm_rest = lib_default_rest lib\<rparr>,
               cs_call_ids = [], cs_emitted = [], cs_rng = rng\<rparr>)"

text \<open>\<open>Impl::advance\<close>: whether the parser accepted, and what became visible.\<close>

definition advance ::
  "('x, 't, 'f, 'q, 'r) chat_lib \<Rightarrow> bool \<Rightarrow> ('x, 'f, 'q, 'r) chat_stream
     \<Rightarrow> (exn + bool \<times> bytes) \<times> ('x, 'f, 'q, 'r) chat_stream" where
  "advance lib is_partial s =
     (case lib_parse lib (cs_accumulated s) is_partial (cs_state s) of
        Inl e \<Rightarrow> (if exn_what e \<noteq> None then (Inr (False, []), s) else (Inl e, s))
      | Inr next_msg \<Rightarrow>
          if lib_msg_empty lib next_msg then (Inr (True, []), s)
          else
            (case lib_set_call_ids lib (gen_tool_call_id lib) (cs_rng s) (cs_call_ids s) next_msg of
               (msg, ids, rng) \<Rightarrow>
                 (let s = s\<lparr>cs_parsed := msg, cs_call_ids := ids, cs_rng := rng\<rparr>;
                      content = cm_content msg
                  in if length (cs_emitted s) < length content
                        \<and> take (length (cs_emitted s)) content = cs_emitted s
                     then (let delta = drop (length (cs_emitted s)) content
                           in (Inr (True, delta), s\<lparr>cs_emitted := cs_emitted s @ delta\<rparr>))
                     else (Inr (True, []), s))))"

definition raw_offset_after_emitted :: "('x, 'f, 'q, 'r) chat_stream \<Rightarrow> nat option" where
  "raw_offset_after_emitted s =
     (if cs_emitted s = [] then Some 0
      else map_option (\<lambda>pos. pos + length (cs_emitted s)) (str_find (cs_accumulated s) (cs_emitted s)))"

definition stream_push ::
  "('x, 't, 'f, 'q, 'r) chat_lib \<Rightarrow> ('x, 'f, 'q, 'r) chat_stream \<Rightarrow> bytes
     \<Rightarrow> (exn + bytes) \<times> ('x, 'f, 'q, 'r) chat_stream" where
  "stream_push lib s t =
     (if t = [] then (Inr [], s)
      else
        (case advance lib True (s\<lparr>cs_accumulated := cs_accumulated s @ t\<rparr>) of
           (Inl e, s) \<Rightarrow> (Inl e, s)
         | (Inr (ok, delta), s) \<Rightarrow> (Inr delta, s)))"

record final =
  fin_content_tail :: bytes
  fin_tool_calls :: "tool_call list"

definition stream_finish ::
  "('x, 't, 'f, 'q, 'r) chat_lib \<Rightarrow> ('x, 'f, 'q, 'r) chat_stream
     \<Rightarrow> (exn + final) \<times> ('x, 'f, 'q, 'r) chat_stream" where
  "stream_finish lib s =
     (case advance lib False s of
        (Inl e, s) \<Rightarrow> (Inl e, s)
      | (Inr (ok, delta), s) \<Rightarrow>
          if \<not> ok
          then (case raw_offset_after_emitted s of
                  Some offset \<Rightarrow>
                    if offset < length (cs_accumulated s)
                    then (let tail = drop offset (cs_accumulated s)
                          in (Inr \<lparr>fin_content_tail = tail, fin_tool_calls = []\<rparr>,
                              s\<lparr>cs_emitted := cs_emitted s @ tail\<rparr>))
                    else (Inr \<lparr>fin_content_tail = delta, fin_tool_calls = []\<rparr>, s)
                | None \<Rightarrow> (Inr \<lparr>fin_content_tail = delta, fin_tool_calls = []\<rparr>, s))
          else if list_all (is_complete lib) (cm_tool_calls (cs_parsed s))
          then (Inr \<lparr>fin_content_tail = delta,
                     fin_tool_calls = map call_from_common (cm_tool_calls (cs_parsed s))\<rparr>, s)
          else (Inr \<lparr>fin_content_tail = delta, fin_tool_calls = []\<rparr>, s))"

section \<open>Identifiers and triggers\<close>

text \<open>What \<open>std::uniform_int_distribution\<close> promises.\<close>

definition pick_law :: "('x, 't, 'f, 'q, 'r) chat_lib \<Rightarrow> bool" where
  "pick_law lib \<longleftrightarrow> (\<forall>rng lo hi. lo \<le> hi \<longrightarrow> lo \<le> fst (lib_pick lib rng lo hi) \<and> fst (lib_pick lib rng lo hi) \<le> hi)"

lemma gen_id_chars_spec:
  assumes "pick_law lib" "gen_id_chars lib n rng = (cs, rng')"
  shows "length cs = n \<and> set cs \<subseteq> set alnum"
  using assms(2)
proof (induction n arbitrary: rng cs)
  case (Suc n)
  obtain i rng1 where p: "lib_pick lib rng 0 61 = (i, rng1)" by (metis prod.exhaust)
  have a: "length alnum = 62" by (simp add: alnum_def)
  have "fst (lib_pick lib rng 0 61) \<le> 61" using assms(1) unfolding pick_law_def by blast
  then have i: "i < length alnum" using p a by simp
  obtain ds rng2 where "gen_id_chars lib n rng1 = (ds, rng2)" by (metis prod.exhaust)
  with Suc p a have g: "gen_id_chars lib n rng1 = (ds, rng')" "cs = alnum ! i # ds" by auto
  with Suc.IH [OF g(1)] i show ?case by simp
qed auto

text \<open>
  An identifier is 32 characters, every one a letter or a digit: no draw reads past the table,
  not even its terminating NUL.
\<close>

theorem tool_call_id_shape:
  assumes "pick_law lib"
  shows "length (fst (gen_tool_call_id lib rng)) = 32 \<and> set (fst (gen_tool_call_id lib rng)) \<subseteq> set alnum"
  using gen_id_chars_spec [OF assms, of 32 rng] by (simp add: gen_tool_call_id_def prod_eq_iff)

lemma sample_pick_law: "pick_law sample_chat"
  by (auto simp: pick_law_def sample_chat_def) (metis add_diff_cancel_left' le_add_diff_inverse less_Suc_eq_le mod_less_divisor nat_add_left_cancel_le zero_less_Suc)

theorem tool_call_id_shape_witness:
  "length (fst (gen_tool_call_id sample_chat 5)) = 32
   \<and> set (fst (gen_tool_call_id sample_chat 5)) \<subseteq> set alnum"
  using tool_call_id_shape [OF sample_pick_law, of 5] .

lemma anchored_ends: "hd (anchored p) = CHR ''^''" "last (anchored p) = CHR ''$''"
  by (auto simp: anchored_def last_append)

lemma anchored_spec:
  "\<forall>p. hd (anchored p) = CHR ''^'' \<and> last (anchored p) = CHR ''$''
     \<and> (\<exists>a b. anchored p = a @ p @ b \<and> set a \<subseteq> {CHR ''^'', CHR ''$''} \<and> set b \<subseteq> {CHR ''$''})"
proof (intro allI conjI anchored_ends)
  fix p
  show "\<exists>a b. anchored p = a @ p @ b \<and> set a \<subseteq> {CHR ''^'', CHR ''$''} \<and> set b \<subseteq> {CHR ''$''}"
  proof (cases "p = []")
    case True
    then show ?thesis by (simp add: anchored_def) (rule exI [of _ "''^$''"], simp)
  next
    case False
    show ?thesis
      by (rule exI [of _ "if hd p \<noteq> CHR ''^'' then ''^'' else []"],
          rule exI [of _ "if last p \<noteq> CHR ''$'' then ''$'' else []"])
         (auto simp: anchored_def False)
  qed
qed

lemma split_triggers_spec:
  "gs_grammar (split_triggers ts spec) = gs_grammar spec
   \<and> gs_lazy (split_triggers ts spec) = gs_lazy spec
   \<and> gs_prefill (split_triggers ts spec) = gs_prefill spec
   \<and> set (gs_trigger_words (split_triggers ts spec)) =
       set (gs_trigger_words spec)
       \<union> {gt_value t | t. t \<in> set ts
            \<and> (gt_type t = Trigger_word \<or> gt_type t = Trigger_token \<and> gt_value t \<noteq> [])}
   \<and> set (gs_trigger_patterns (split_triggers ts spec)) =
       set (gs_trigger_patterns spec)
       \<union> {gt_value t | t. t \<in> set ts \<and> gt_type t = Trigger_pattern}
       \<union> {anchored (gt_value t) | t. t \<in> set ts \<and> gt_type t = Trigger_pattern_full}"
proof (induction ts arbitrary: spec)
  case (Cons t ts)
  show ?case
    by (cases "gt_type t") (auto simp: Cons.IH)
qed auto

text \<open>
  No trigger of a template is lost or changed in kind: words stay words, a token that has a
  text becomes a word, patterns stay patterns, and a full pattern is anchored at both ends and
  otherwise kept. The grammar, its laziness and its prefill pass through.
\<close>

theorem triggers_are_kept:
  "gs_grammar (split_triggers ts spec) = gs_grammar spec
   \<and> gs_lazy (split_triggers ts spec) = gs_lazy spec
   \<and> gs_prefill (split_triggers ts spec) = gs_prefill spec
   \<and> set (gs_trigger_words (split_triggers ts spec)) =
       set (gs_trigger_words spec)
       \<union> {gt_value t | t. t \<in> set ts
            \<and> (gt_type t = Trigger_word \<or> gt_type t = Trigger_token \<and> gt_value t \<noteq> [])}
   \<and> set (gs_trigger_patterns (split_triggers ts spec)) =
       set (gs_trigger_patterns spec)
       \<union> {gt_value t | t. t \<in> set ts \<and> gt_type t = Trigger_pattern}
       \<union> {anchored (gt_value t) | t. t \<in> set ts \<and> gt_type t = Trigger_pattern_full}
   \<and> (\<forall>p. hd (anchored p) = CHR ''^'' \<and> last (anchored p) = CHR ''$''
        \<and> (\<exists>a b. anchored p = a @ p @ b \<and> set a \<subseteq> {CHR ''^'', CHR ''$''} \<and> set b \<subseteq> {CHR ''$''}))"
  using split_triggers_spec [of ts spec] anchored_spec
  by (elim conjE) (intro conjI; assumption)

section \<open>Schema turns\<close>

lemma check_schema_ok:
  "is_ok (check_schema lib tools schema) \<longleftrightarrow>
     schema = [] \<or> tools = [] \<and> (\<exists>n. lib_json_parse lib schema = Some (Json_object n) \<and> n \<noteq> 0)"
  by (auto simp: check_schema_def split: option.splits json_value.splits)

lemma render_checked: "render lib cf messages tools schema = Inr r \<Longrightarrow> is_ok (check_schema lib tools schema)"
  by (auto simp: render_def is_ok_iff split: sum.splits)

lemma add_instruction_spec:
  "\<exists>m k. add_instruction lib i ms = m # drop k ms \<and> k \<le> 1 \<and> cm_role m = ''system''
    \<and> suffix i (cm_content m)
    \<and> (k = 1 \<longrightarrow> ms \<noteq> [] \<and> cm_role (hd ms) = ''system'' \<and> prefix (cm_content (hd ms)) (cm_content m))"
proof (cases ms)
  case Nil
  then show ?thesis by (intro exI [of _ _] exI [of _ 0]) (auto simp: add_instruction_def)
next
  case (Cons a as)
  show ?thesis
  proof (cases "cm_role a = ''system''")
    case True
    with Cons show ?thesis
      by (intro exI [of _ "a\<lparr>cm_content := cm_content a @ [CHR 0x0A, CHR 0x0A] @ i\<rparr>"] exI [of _ 1])
         (auto simp: add_instruction_def suffix_def)
  next
    case False
    with Cons show ?thesis
      by (intro exI [of _ _] exI [of _ 0]) (auto simp: add_instruction_def)
  qed
qed

text \<open>
  A response schema is honoured or refused, never dropped. Rendering under one succeeds only
  without tools and for a JSON object that has members; the template then sees a system message
  first that ends in the instruction with the whole schema and starts with the caller's own system
  text if there is one, followed by every other message of the caller, in order and untouched.
\<close>

theorem schema_reaches_the_template:
  assumes "schema \<noteq> []" and "render lib cf messages tools schema = Inr r"
  shows "tools = [] \<and> (\<exists>n. lib_json_parse lib schema = Some (Json_object n) \<and> n \<noteq> 0)
    \<and> (\<exists>m k params. in_messages (chat_inputs_for lib cf messages [] schema)
             = m # drop k (map (message_to_common lib) messages)
         \<and> k \<le> 1 \<and> cm_role m = ''system'' \<and> suffix (schema_instruction schema) (cm_content m)
         \<and> (k = 1 \<longrightarrow> prefix (msg_content (hd messages)) (cm_content m) \<and> msg_role (hd messages) = ''system'')
         \<and> lib_templates_apply lib (cf_templates cf) (chat_inputs_for lib cf messages [] schema) = Inr params
         \<and> rc_prompt r = cp_prompt params)"
proof -
  have tools: "tools = []" and obj: "\<exists>n. lib_json_parse lib schema = Some (Json_object n) \<and> n \<noteq> 0"
    using render_checked [OF assms(2)] assms(1) by (auto simp: check_schema_ok)
  let ?ms = "map (message_to_common lib) messages"
  obtain m k where mk: "add_instruction lib (schema_instruction schema) ?ms = m # drop k ?ms" "k \<le> 1"
    "cm_role m = ''system''" "suffix (schema_instruction schema) (cm_content m)"
    "k = 1 \<longrightarrow> ?ms \<noteq> [] \<and> cm_role (hd ?ms) = ''system'' \<and> prefix (cm_content (hd ?ms)) (cm_content m)"
    using add_instruction_spec [of lib "schema_instruction schema" ?ms] by blast
  have sys: "k = 1 \<longrightarrow> prefix (msg_content (hd messages)) (cm_content m) \<and> msg_role (hd messages) = ''system''"
    using mk(5) by (cases messages) (auto simp: message_to_common_def)
  have msgs: "in_messages (chat_inputs_for lib cf messages [] schema) = m # drop k ?ms"
    using assms(1) mk(1) by (simp add: chat_inputs_for_def Let_def)
  obtain params where "lib_templates_apply lib (cf_templates cf) (chat_inputs_for lib cf messages [] schema) = Inr params"
    "rc_prompt r = cp_prompt params"
    using assms(2) tools
    by (auto simp: render_def Let_def chat_error_def split: sum.splits option.splits)
  with tools obj msgs mk(2-4) sys show ?thesis by blast
qed

definition sample_format :: "bytes chat_format" where
  "sample_format = \<lparr>cf_templates = ''t'', cf_parallel_tool_calls = True\<rparr>"

definition sample_history :: "chat_message list" where
  "sample_history =
     [\<lparr>msg_role = ''system'', msg_content = ''brief'', msg_tool_calls = [], msg_tool_call_id = []\<rparr>,
      \<lparr>msg_role = ''user'', msg_content = ''hi'', msg_tool_calls = [], msg_tool_call_id = []\<rparr>]"

theorem schema_reaches_the_template_witness:
  "\<exists>r m. render sample_chat sample_format sample_history [] ''{x}'' = Inr r
    \<and> in_messages (chat_inputs_for sample_chat sample_format sample_history [] ''{x}'')
        = m # drop 1 (map (message_to_common sample_chat) sample_history)
    \<and> prefix ''brief'' (cm_content m) \<and> suffix ''{x}'' (cm_content m)"
proof -
  have "is_ok (render sample_chat sample_format sample_history [] ''{x}'')" by code_simp
  then obtain r where r: "render sample_chat sample_format sample_history [] ''{x}'' = Inr r"
    by (auto simp: is_ok_iff)
  from schema_reaches_the_template [OF _ r] obtain m k where
    m: "in_messages (chat_inputs_for sample_chat sample_format sample_history [] ''{x}'')
        = m # drop k (map (message_to_common sample_chat) sample_history)"
      "k \<le> 1" "suffix (schema_instruction ''{x}'') (cm_content m)"
      "k = 1 \<longrightarrow> prefix (msg_content (hd sample_history)) (cm_content m)" by auto
  have "length (in_messages (chat_inputs_for sample_chat sample_format sample_history [] ''{x}'')) = 2"
    by code_simp
  with m(1,2) have k: "k = 1" by (auto simp: sample_history_def)
  have "suffix ''{x}'' (schema_instruction ''{x}'')" by code_simp
  then have "suffix ''{x}'' (cm_content m)" using m(3) suffix_order.order_trans by blast
  with r m(1,4) k show ?thesis by (auto simp: sample_history_def)
qed

section \<open>What a stream shows\<close>

fun push_each :: "('s \<Rightarrow> bytes \<Rightarrow> (exn + bytes) \<times> 's) \<Rightarrow> 's \<Rightarrow> bytes list \<Rightarrow> (exn + bytes list) \<times> 's" where
  "push_each push s [] = (Inr [], s)"
| "push_each push s (t # ts) =
     (case push s t of
        (Inl e, s) \<Rightarrow> (Inl e, s)
      | (Inr d, s) \<Rightarrow>
          (case push_each push s ts of
             (Inl e, s) \<Rightarrow> (Inl e, s)
           | (Inr ds, s) \<Rightarrow> (Inr (d # ds), s)))"

text \<open>
  The contract between the chat service and its parser: what a push or the end returns is what the
  stream records as shown, and the pushed text is all kept.
\<close>

locale visible_stream =
  fixes push :: "'s \<Rightarrow> bytes \<Rightarrow> (exn + bytes) \<times> 's"
    and shown :: "'s \<Rightarrow> bytes"
    and received :: "'s \<Rightarrow> bytes"
  assumes push_shown: "push s t = (Inr d, s') \<Longrightarrow> shown s' = shown s @ d"
    and push_failed: "push s t = (Inl e, s') \<Longrightarrow> shown s' = shown s"
    and push_received: "push s t = (r, s') \<Longrightarrow> received s' = received s @ t"
begin

lemma push_each_shown:
  "push_each push s ts = (Inr ds, s') \<Longrightarrow> shown s' = shown s @ concat ds \<and> received s' = received s @ concat ts"
proof (induction ts arbitrary: s ds)
  case (Cons t ts)
  then obtain d s1 ds1 where "push s t = (Inr d, s1)" "push_each push s1 ts = (Inr ds1, s')" "ds = d # ds1"
    by (auto split: prod.splits sum.splits)
  with Cons.IH [of s1 ds1] push_shown push_received show ?case by simp
qed simp

lemma push_each_take:
  "push_each push s ts = (Inr ds, s') \<Longrightarrow> \<exists>u. push_each push s (take n ts) = (Inr (take n ds), u)"
proof (induction ts arbitrary: s ds n)
  case (Cons t ts)
  then obtain d s1 ds1 where p: "push s t = (Inr d, s1)" "push_each push s1 ts = (Inr ds1, s')" "ds = d # ds1"
    by (auto split: prod.splits sum.splits)
  show ?case
  proof (cases n)
    case (Suc k)
    obtain u where "push_each push s1 (take k ts) = (Inr (take k ds1), u)" using Cons.IH [OF p(2)] by blast
    with p Suc show ?thesis by simp
  qed simp
qed simp

end

lemma advance_shown:
  assumes "advance lib b s = (r, s')"
  shows "cs_accumulated s' = cs_accumulated s \<and> cs_state s' = cs_state s
    \<and> cs_emitted s' = cs_emitted s @ (case r of Inr (ok, d) \<Rightarrow> d | Inl e \<Rightarrow> [])
    \<and> (\<forall>d. r = Inr (False, d) \<longrightarrow> d = [] \<and> s' = s)"
  using assms by (auto simp: advance_def Let_def split: sum.splits prod.splits if_splits)

interpretation chat: visible_stream "stream_push lib" cs_emitted cs_accumulated
  for lib :: "('x, 't, 'f, 'q, 'r) chat_lib"
proof unfold_locales
  fix s s' :: "('x, 'f, 'q, 'r) chat_stream" and t d :: bytes and e r
  show "stream_push lib s t = (Inr d, s') \<Longrightarrow> cs_emitted s' = cs_emitted s @ d"
    by (auto simp: stream_push_def split: prod.splits sum.splits if_splits dest!: advance_shown)
  show "stream_push lib s t = (Inl e, s') \<Longrightarrow> cs_emitted s' = cs_emitted s"
    by (auto simp: stream_push_def split: prod.splits sum.splits if_splits dest!: advance_shown)
  show "stream_push lib s t = (r, s') \<Longrightarrow> cs_accumulated s' = cs_accumulated s @ t"
    by (auto simp: stream_push_def split: prod.splits sum.splits if_splits dest!: advance_shown)
qed

lemma stream_finish_cases:
  assumes "stream_finish lib s = (Inr fin, s')"
  obtains (accepted) d where "advance lib False s = (Inr (True, d), s')" "fin_content_tail fin = d"
      "fin_tool_calls fin =
         (if list_all (is_complete lib) (cm_tool_calls (cs_parsed s'))
          then map call_from_common (cm_tool_calls (cs_parsed s')) else [])"
  | (rejected) "advance lib False s = (Inr (False, []), s)" "fin_tool_calls fin = []"
      "fin_content_tail fin =
         (case raw_offset_after_emitted s of
            Some n \<Rightarrow> if n < length (cs_accumulated s) then drop n (cs_accumulated s) else []
          | None \<Rightarrow> [])"
      "cs_emitted s' = cs_emitted s @ fin_content_tail fin" "cs_accumulated s' = cs_accumulated s"
proof -
  obtain r s1 where adv: "advance lib False s = (r, s1)" by (metis prod.exhaust)
  with assms obtain ok d where r: "r = Inr (ok, d)" by (cases r) (auto simp: stream_finish_def)
  show thesis
  proof (cases ok)
    case True
    with adv r assms show thesis
      by (intro accepted [of d]) (auto simp: stream_finish_def split: if_splits)
  next
    case False
    with advance_shown [OF adv] r have "d = []" "s1 = s" by simp_all
    with adv r assms False show thesis
      by (intro rejected) (auto simp: stream_finish_def Let_def split: option.splits if_splits)
  qed
qed

lemma stream_finish_shown:
  assumes "stream_finish lib s = (Inr fin, s')"
  shows "cs_emitted s' = cs_emitted s @ fin_content_tail fin \<and> cs_accumulated s' = cs_accumulated s"
  using assms
proof (cases rule: stream_finish_cases)
  case (accepted d)
  with advance_shown [OF accepted(1)] show ?thesis by simp
next
  case rejected
  then show ?thesis by simp
qed

text \<open>
  A stream never repeats and never takes back: whatever the parser makes of the text, and
  however often it changes its mind, the pieces returned by the pushes and the tail returned at the
  end, put together, are exactly the text recorded as shown, and every byte pushed has been kept for
  the parser.
\<close>

theorem shown_is_what_was_returned:
  assumes "new_stream lib rendered rng = Inr s"
    and "push_each (stream_push lib) s texts = (Inr deltas, s1)" and "stream_finish lib s1 = (Inr fin, s2)"
  shows "concat deltas @ fin_content_tail fin = cs_emitted s2 \<and> cs_accumulated s2 = concat texts
    \<and> (\<forall>n. \<exists>ds s3. push_each (stream_push lib) s (take n texts) = (Inr ds, s3) \<and> ds = take n deltas
         \<and> cs_emitted s3 = concat ds)"
proof -
  have s: "cs_emitted s = []" "cs_accumulated s = []"
    using assms(1) by (auto simp: new_stream_def split: option.splits)
  have "\<exists>ds s3. push_each (stream_push lib) s (take n texts) = (Inr ds, s3) \<and> ds = take n deltas
         \<and> cs_emitted s3 = concat ds" for n
    using chat.push_each_take [OF assms(2), of n] chat.push_each_shown s by fastforce
  with chat.push_each_shown [OF assms(2)] stream_finish_shown [OF assms(3)] s show ?thesis by simp
qed

text \<open>
  Which parse the calls of a finished stream are taken from: none when the parser rejects the whole
  output, otherwise that of the whole output with its identifiers filled in; but an empty one replaces
  nothing, and leaves the last parse that was not empty. Of that parse all calls count, if each has a
  name and arguments that are absent or valid JSON, and otherwise none.
\<close>

definition final_parse ::
  "('x, 't, 'f, 'q, 'r) chat_lib \<Rightarrow> ('x, 'f, 'q, 'r) chat_stream \<Rightarrow> 'x common_msg option" where
  "final_parse lib s =
     (case lib_parse lib (cs_accumulated s) False (cs_state s) of
        Inl e \<Rightarrow> None
      | Inr m \<Rightarrow>
          if lib_msg_empty lib m then Some (cs_parsed s)
          else Some (fst (lib_set_call_ids lib (gen_tool_call_id lib) (cs_rng s) (cs_call_ids s) m)))"

definition final_calls ::
  "('x, 't, 'f, 'q, 'r) chat_lib \<Rightarrow> ('x, 'f, 'q, 'r) chat_stream \<Rightarrow> common_tool_call list" where
  "final_calls lib s =
     (case final_parse lib s of
        None \<Rightarrow> []
      | Some m \<Rightarrow>
          if \<exists>c\<in>set (cm_tool_calls m). cc_name c = [] \<or> cc_arguments c \<noteq> [] \<and> \<not> lib_json_accept lib (cc_arguments c)
          then [] else cm_tool_calls m)"

text \<open>A call as it leaves: that of the parse, where absent arguments are an empty object.\<close>

definition same_call :: "tool_call \<Rightarrow> common_tool_call \<Rightarrow> bool" where
  "same_call call c \<longleftrightarrow>
     call_id call = cc_id c \<and> call_name call = cc_name c
     \<and> call_arguments_json call = (if cc_arguments c = [] then ''{}'' else cc_arguments c)"

lemma same_call_from_common: "same_call (call_from_common c) c"
  by (simp add: same_call_def call_from_common_def)

lemma finish_calls:
  assumes "stream_finish lib s = (Inr fin, s')"
  shows "list_all2 same_call (fin_tool_calls fin) (final_calls lib s)"
  using assms
proof (cases rule: stream_finish_cases)
  case (accepted d)
  then have "final_parse lib s = Some (cs_parsed s')"
    by (auto simp: advance_def final_parse_def Let_def split: sum.splits prod.splits if_splits)
  moreover have "(\<exists>c\<in>set cs. cc_name c = [] \<or> cc_arguments c \<noteq> [] \<and> \<not> lib_json_accept lib (cc_arguments c))
      \<longleftrightarrow> \<not> list_all (is_complete lib) cs" for cs
    by (auto simp: list_all_iff is_complete_def)
  ultimately have "final_calls lib s =
      (if list_all (is_complete lib) (cm_tool_calls (cs_parsed s')) then cm_tool_calls (cs_parsed s') else [])"
    by (simp add: final_calls_def)
  then show ?thesis
    by (simp add: accepted(3) list_all2_map1 list_all2_same same_call_from_common)
next
  case rejected
  then have "final_parse lib s = None"
    by (auto simp: advance_def final_parse_def Let_def split: sum.splits prod.splits if_splits)
  with rejected(2) show ?thesis by (simp add: final_calls_def)
qed

lemma same_calls_ok:
  assumes "list_all2 same_call calls (final_calls lib s)" "lib_json_accept lib ''{}''"
  shows "\<forall>call\<in>set calls. call_name call \<noteq> [] \<and> lib_json_accept lib (call_arguments_json call)"
proof -
  have "\<forall>c\<in>set (final_calls lib s). cc_name c \<noteq> [] \<and> (cc_arguments c = [] \<or> lib_json_accept lib (cc_arguments c))"
    by (auto simp: final_calls_def split: option.splits if_splits)
  then show ?thesis
    using assms by (fastforce simp: same_call_def list_all2_conv_all_nth in_set_conv_nth split: if_splits)
qed

definition sample_rendered :: "(unit, bytes) rendered_chat" where
  "sample_rendered =
     \<lparr>rc_prompt = [], rc_grammar = no_grammar, rc_preserved_tokens = [], rc_additional_stops = [],
      rc_parse_state = Some \<lparr>pp_format = (), pp_generation_prompt = [], pp_reasoning = Reasoning_none,
        pp_parse_tool_calls = True, pp_parser = None\<rparr>\<rparr>"

definition sample_stream :: "bytes \<Rightarrow> bytes \<Rightarrow> (unit, unit, bytes, nat) chat_stream" where
  "sample_stream accumulated emitted =
     \<lparr>cs_state = \<lparr>pp_format = (), pp_generation_prompt = [], pp_reasoning = Reasoning_none,
        pp_parse_tool_calls = True, pp_parser = None\<rparr>,
      cs_accumulated = accumulated,
      cs_parsed = \<lparr>cm_role = [], cm_content = [], cm_tool_calls = [], cm_tool_call_id = [], cm_rest = ()\<rparr>,
      cs_call_ids = [], cs_emitted = emitted, cs_rng = 0\<rparr>"

lemma sample_new_stream: "new_stream sample_chat sample_rendered 0 = Inr (sample_stream [] [])"
  by (simp add: new_stream_def sample_rendered_def sample_stream_def sample_chat_def)

theorem shown_is_what_was_returned_witness:
  "\<exists>s1 fin s2. push_each (stream_push sample_chat) (sample_stream [] []) [''he'', ''y#f'', ''oo'']
        = (Inr [''he'', ''y'', []], s1)
    \<and> stream_finish sample_chat s1 = (Inr fin, s2) \<and> ''hey'' @ fin_content_tail fin = cs_emitted s2"
proof -
  have "case push_each (stream_push sample_chat) (sample_stream [] []) [''he'', ''y#f'', ''oo''] of
      (r, s1) \<Rightarrow> r = Inr [''he'', ''y'', []] \<and> is_ok (fst (stream_finish sample_chat s1))" by code_simp
  then obtain s1 fin s2 where
    run: "push_each (stream_push sample_chat) (sample_stream [] []) [''he'', ''y#f'', ''oo'']
        = (Inr [''he'', ''y'', []], s1)" "stream_finish sample_chat s1 = (Inr fin, s2)"
    by (auto simp: is_ok_iff split: prod.splits) (metis prod.collapse)
  from shown_is_what_was_returned [OF sample_new_stream run] run show ?thesis by auto
qed

text \<open>
  C13. Tool calls are all or nothing. At the end, when the parser rejects the output no call is handed
  out. Otherwise the calls are those of the parse of the whole output (if that parse is empty, of the
  last one that was not): either every one of them, in order and whole, with its identifier, its name
  and its arguments, or none, which happens exactly if one of them has no name or arguments that are
  no JSON. Absent arguments go out as an empty object, so whatever is handed out has a name and valid
  JSON arguments.
\<close>

theorem tool_calls_all_or_nothing:
  assumes "lib_json_accept lib ''{}''" and "stream_finish lib s = (Inr fin, s')"
  shows "(case (case lib_parse lib (cs_accumulated s) False (cs_state s) of
            Inl e \<Rightarrow> None
          | Inr m \<Rightarrow>
              if lib_msg_empty lib m then Some (cs_parsed s)
              else Some (fst (lib_set_call_ids lib (gen_tool_call_id lib) (cs_rng s) (cs_call_ids s) m))) of
       None \<Rightarrow> fin_tool_calls fin = []
     | Some m \<Rightarrow>
         if \<exists>c\<in>set (cm_tool_calls m).
              cc_name c = [] \<or> cc_arguments c \<noteq> [] \<and> \<not> lib_json_accept lib (cc_arguments c)
         then fin_tool_calls fin = []
         else list_all2
                (\<lambda>call c. call_id call = cc_id c \<and> call_name call = cc_name c
                   \<and> call_arguments_json call = (if cc_arguments c = [] then ''{}'' else cc_arguments c))
                (fin_tool_calls fin) (cm_tool_calls m))
    \<and> (\<forall>call\<in>set (fin_tool_calls fin).
         call_name call \<noteq> [] \<and> lib_json_accept lib (call_arguments_json call))"
proof (rule conjI)
  note calls = finish_calls [OF assms(2)]
  from same_calls_ok [OF calls assms(1)]
  show "\<forall>call\<in>set (fin_tool_calls fin). call_name call \<noteq> [] \<and> lib_json_accept lib (call_arguments_json call)" .
  have whole: "same_call = (\<lambda>call c. call_id call = cc_id c \<and> call_name call = cc_name c
      \<and> call_arguments_json call = (if cc_arguments c = [] then ''{}'' else cc_arguments c))"
    by (intro ext) (simp add: same_call_def)
  from calls show "case (case lib_parse lib (cs_accumulated s) False (cs_state s) of
            Inl e \<Rightarrow> None
          | Inr m \<Rightarrow>
              if lib_msg_empty lib m then Some (cs_parsed s)
              else Some (fst (lib_set_call_ids lib (gen_tool_call_id lib) (cs_rng s) (cs_call_ids s) m))) of
       None \<Rightarrow> fin_tool_calls fin = []
     | Some m \<Rightarrow>
         if \<exists>c\<in>set (cm_tool_calls m).
              cc_name c = [] \<or> cc_arguments c \<noteq> [] \<and> \<not> lib_json_accept lib (cc_arguments c)
         then fin_tool_calls fin = []
         else list_all2
                (\<lambda>call c. call_id call = cc_id c \<and> call_name call = cc_name c
                   \<and> call_arguments_json call = (if cc_arguments c = [] then ''{}'' else cc_arguments c))
                (fin_tool_calls fin) (cm_tool_calls m)"
    unfolding final_parse_def [symmetric] whole [symmetric] final_calls_def
    by (cases "final_parse lib s")
      (simp_all only: option.case list_all2_Nil2 if_distrib [of "list_all2 same_call (fin_tool_calls fin)"])
qed

theorem tool_calls_all_or_nothing_witness:
  "\<exists>fin s'. stream_finish sample_chat (sample_stream ''hey#foo'' ''hey'') = (Inr fin, s')
    \<and> map call_name (fin_tool_calls fin) = [''foo'']
    \<and> list_all (\<lambda>c. lib_json_accept sample_chat (call_arguments_json c)) (fin_tool_calls fin)"
proof -
  have json: "lib_json_accept sample_chat ''{}''" by code_simp
  have "case stream_finish sample_chat (sample_stream ''hey#foo'' ''hey'') of (r, s') \<Rightarrow>
      (case r of Inl e \<Rightarrow> False | Inr fin \<Rightarrow> map call_name (fin_tool_calls fin) = [''foo''])" by code_simp
  then obtain fin s' where run: "stream_finish sample_chat (sample_stream ''hey#foo'' ''hey'') = (Inr fin, s')"
    "map call_name (fin_tool_calls fin) = [''foo'']"
    by (auto split: prod.splits sum.splits)
  from tool_calls_all_or_nothing [OF json run(1)] run show ?thesis by (auto simp: list_all_iff)
qed

text \<open>
  A parse of the whole output that is accepted and empty hands out the calls of an earlier, partial
  parse: the record of the last parse is then not, as its comment says, that of the last successful
  one.
\<close>

lemma empty_parse_keeps_earlier_calls:
  assumes "stream_finish lib s = (Inr fin, s')"
    and "lib_parse lib (cs_accumulated s) False (cs_state s) = Inr m" and "lib_msg_empty lib m"
  shows "cs_parsed s' = cs_parsed s
    \<and> fin_tool_calls fin =
        (if list_all (is_complete lib) (cm_tool_calls (cs_parsed s))
         then map call_from_common (cm_tool_calls (cs_parsed s)) else [])"
proof -
  have "advance lib False s = (Inr (True, []), s)" using assms(2,3) by (simp add: advance_def)
  with assms(1) show ?thesis by (auto simp: stream_finish_def split: if_splits)
qed

text \<open>
  C30. When the parser rejects the whole output, nothing generated is dropped silently: if the text
  already shown can be found in the output, the tail is exactly what follows its first occurrence,
  so shown text and tail are adjacent in the output and reach its end; otherwise nothing is added.
\<close>

theorem rejected_output_is_not_lost:
  assumes "stream_finish lib s = (Inr fin, s')" and "lib_parse lib (cs_accumulated s) False (cs_state s) = Inl e"
    and "exn_what e \<noteq> None"
  shows "fin_tool_calls fin = []
    \<and> (case str_find (cs_accumulated s) (cs_emitted s) of
         Some p \<Rightarrow> cs_emitted s \<noteq> [] \<and> cs_accumulated s = take p (cs_accumulated s) @ cs_emitted s @ fin_content_tail fin
           \<or> cs_emitted s = [] \<and> fin_content_tail fin = cs_accumulated s
       | None \<Rightarrow> fin_content_tail fin = [])"
proof -
  have "advance lib False s = (Inr (False, []), s)" using assms(2,3) by (simp add: advance_def)
  with assms(1) have fin: "fin_tool_calls fin = []" "fin_content_tail fin =
      (case raw_offset_after_emitted s of
         Some n \<Rightarrow> if n < length (cs_accumulated s) then drop n (cs_accumulated s) else []
       | None \<Rightarrow> [])"
    by (auto elim!: stream_finish_cases)
  show ?thesis
  proof (cases "cs_emitted s = []")
    case True
    then have "str_find (cs_accumulated s) (cs_emitted s) = Some 0"
      by (cases "cs_accumulated s") simp_all
    with True fin show ?thesis by (simp add: raw_offset_after_emitted_def)
  next
    case False
    show ?thesis
    proof (cases "str_find (cs_accumulated s) (cs_emitted s)")
      case None
      with False fin show ?thesis by (simp add: raw_offset_after_emitted_def)
    next
      case (Some p)
      then have "prefix (cs_emitted s) (drop p (cs_accumulated s))"
        by (simp add: str_find_Some_iff occurs_at_def)
      then obtain rest where rest: "drop p (cs_accumulated s) = cs_emitted s @ rest"
        by (auto simp: prefix_def)
      then have d: "drop (p + length (cs_emitted s)) (cs_accumulated s) = rest"
        by (metis add.commute append_eq_conv_conj drop_drop)
      have "fin_content_tail fin = rest"
        using fin(2) Some False d by (auto simp: raw_offset_after_emitted_def)
      moreover have "cs_accumulated s = take p (cs_accumulated s) @ cs_emitted s @ rest"
        by (simp only: rest [symmetric] append_take_drop_id)
      ultimately show ?thesis
        unfolding Some option.case using False fin(1) by blast
    qed
  qed
qed

theorem rejected_output_is_not_lost_witness:
  "\<exists>fin s'. stream_finish sample_chat (sample_stream '' ab#c!'' ''ab'') = (Inr fin, s')
    \<and> '' ab#c!'' = '' '' @ ''ab'' @ fin_content_tail fin \<and> fin_tool_calls fin = []"
proof -
  have "is_ok (fst (stream_finish sample_chat (sample_stream '' ab#c!'' ''ab'')))" by code_simp
  then obtain fin s' where run: "stream_finish sample_chat (sample_stream '' ab#c!'' ''ab'') = (Inr fin, s')"
    by (auto simp: is_ok_iff) (metis prod.collapse)
  have parse: "lib_parse sample_chat (cs_accumulated (sample_stream '' ab#c!'' ''ab'')) False
      (cs_state (sample_stream '' ab#c!'' ''ab'')) = Inl (StdException ''no match'')"
    by code_simp
  have "str_find '' ab#c!'' ''ab'' = Some 1" by code_simp
  with rejected_output_is_not_lost [OF run parse] run show ?thesis
    by (auto simp: sample_stream_def)
qed

text \<open>
  What is asked of a parser for streaming to be exact: on the way to the final text, what it shows of
  a part is a prefix of what it shows of the whole (or it asks for more input), and numbering the
  tool calls leaves the content alone.
\<close>

definition monotone_parse ::
  "('x, 't, 'f, 'q, 'r) chat_lib \<Rightarrow> ('f, 'q) parser_params \<Rightarrow> bytes \<Rightarrow> bytes \<Rightarrow> bool" where
  "monotone_parse lib state t content \<longleftrightarrow>
     (\<forall>p. prefix p t \<longrightarrow>
        (case lib_parse lib p True state of
           Inl e \<Rightarrow> exn_what e \<noteq> None
         | Inr m \<Rightarrow> prefix (cm_content m) content))
     \<and> (\<forall>gen rng ids m m' ids' rng'.
          lib_set_call_ids lib gen rng ids m = (m', ids', rng') \<longrightarrow> cm_content m' = cm_content m)"

lemma monotone_push:
  assumes "monotone_parse lib (cs_state s) t content" "prefix (cs_accumulated s @ x) t"
    and "prefix (cs_emitted s) content"
  obtains d s' where "stream_push lib s x = (Inr d, s')" "cs_state s' = cs_state s"
    "prefix (cs_emitted s') content"
proof (cases "x = []")
  case True
  with assms(3) that show ?thesis by (simp add: stream_push_def)
next
  case False
  let ?s = "s\<lparr>cs_accumulated := cs_accumulated s @ x\<rparr>"
  have "case lib_parse lib (cs_accumulated s @ x) True (cs_state s) of
      Inl e \<Rightarrow> exn_what e \<noteq> None | Inr m \<Rightarrow> prefix (cm_content m) content"
    using assms(1,2) unfolding monotone_parse_def by blast
  moreover have "cm_content m' = cm_content m"
    if "lib_set_call_ids lib gen rng ids m = (m', ids', rng')" for gen rng ids m m' ids' rng'
    using assms(1) that unfolding monotone_parse_def by blast
  ultimately have "\<exists>ok d s'. advance lib True ?s = (Inr (ok, d), s') \<and> cs_state s' = cs_state s
      \<and> prefix (cs_emitted s') content"
    using assms(3)
    by (auto simp: advance_def Let_def split: sum.splits prod.splits)
       (metis append_take_drop_id)+
  with False that show ?thesis by (auto simp: stream_push_def)
qed

lemma monotone_push_each:
  assumes "monotone_parse lib (cs_state s) t content" "prefix (cs_accumulated s @ concat xs) t"
    and "prefix (cs_emitted s) content"
  shows "\<exists>ds s'. push_each (stream_push lib) s xs = (Inr ds, s') \<and> cs_state s' = cs_state s
    \<and> prefix (cs_emitted s') content"
  using assms
proof (induction xs arbitrary: s)
  case (Cons x xs)
  have "prefix (cs_accumulated s @ x) t"
    using Cons.prems(2) by (metis append.assoc append_prefixD concat.simps(2))
  then obtain d s1 where p: "stream_push lib s x = (Inr d, s1)" "cs_state s1 = cs_state s"
    "prefix (cs_emitted s1) content"
    using monotone_push Cons.prems(1,3) by metis
  have "cs_accumulated s1 = cs_accumulated s @ x" using chat.push_received [OF p(1)] .
  with Cons.IH [of s1] Cons.prems p show ?case by auto
qed simp

text \<open>
  C20. Streaming is exact: for a parser that is monotone on the output, the pieces returned by the
  pushes and the tail put together are the content of the final parse, however the output was cut
  into pieces, and no push fails.
\<close>

theorem streamed_text_is_the_content:
  assumes "new_stream lib rendered rng = Inr s" and "rc_parse_state rendered = Some state"
    and "lib_parse lib (concat texts) False state = Inr m" and "\<not> lib_msg_empty lib m"
    and "monotone_parse lib state (concat texts) (cm_content m)"
  shows "\<exists>deltas s1 fin s2. push_each (stream_push lib) s texts = (Inr deltas, s1)
    \<and> stream_finish lib s1 = (Inr fin, s2) \<and> concat deltas @ fin_content_tail fin = cm_content m"
proof -
  have s: "cs_emitted s = []" "cs_accumulated s = []" "cs_state s = state"
    using assms(1,2) by (auto simp: new_stream_def)
  obtain ds s1 where p: "push_each (stream_push lib) s texts = (Inr ds, s1)" "cs_state s1 = state"
    "prefix (cs_emitted s1) (cm_content m)"
    using monotone_push_each [of lib s "concat texts" "cm_content m" texts] s assms(5) by auto
  have e: "cs_emitted s1 = concat ds" "cs_accumulated s1 = concat texts"
    using chat.push_each_shown [OF p(1)] s by simp_all
  obtain m' ids rng' where ids: "lib_set_call_ids lib (gen_tool_call_id lib) (cs_rng s1) (cs_call_ids s1) m
      = (m', ids, rng')" by (metis prod_cases3)
  then have c: "cm_content m' = cm_content m" using assms(5) unfolding monotone_parse_def by blast
  obtain rest where rest: "cm_content m = concat ds @ rest" using p(3) e(1) by (auto simp: prefix_def)
  have "\<exists>s2. advance lib False s1 = (Inr (True, rest), s2)"
    using ids c rest e p(2) assms(3,4) by (cases rest) (auto simp: advance_def Let_def)
  then obtain s2 where adv: "advance lib False s1 = (Inr (True, rest), s2)" ..
  then have "\<exists>fin. stream_finish lib s1 = (Inr fin, s2) \<and> fin_content_tail fin = rest"
    by (simp add: stream_finish_def)
  with p(1) rest show ?thesis by auto
qed

lemma sample_monotone_parse:
  "monotone_parse sample_chat state t (takeWhile (\<lambda>c. c \<noteq> CHR ''#'') t)"
proof -
  have "prefix (takeWhile P p) (takeWhile P (p @ q))" for P :: "char \<Rightarrow> bool" and p q
    by (induction p) auto
  then show ?thesis
    by (auto simp: monotone_parse_def sample_chat_def sample_parse_def prefix_def [of _ t]
        split: prod.splits if_splits)
qed

theorem streamed_text_is_the_content_witness:
  "\<exists>deltas s1 fin s2. push_each (stream_push sample_chat) (sample_stream [] []) [''he'', ''y#f'', ''oo''] = (Inr deltas, s1)
    \<and> stream_finish sample_chat s1 = (Inr fin, s2) \<and> concat deltas @ fin_content_tail fin = ''hey''"
proof -
  have state: "rc_parse_state sample_rendered = Some (cs_state (sample_stream [] []))"
    by (simp add: sample_rendered_def sample_stream_def)
  obtain m where m: "lib_parse sample_chat (concat [''he'', ''y#f'', ''oo'']) False (cs_state (sample_stream [] [])) = Inr m"
    "cm_content m = ''hey''" "\<not> lib_msg_empty sample_chat m"
    by (simp add: sample_chat_def sample_parse_def)
  have "takeWhile (\<lambda>c. c \<noteq> CHR ''#'') (concat [''he'', ''y#f'', ''oo'']) = ''hey''" by code_simp
  with sample_monotone_parse [of "cs_state (sample_stream [] [])" "concat [''he'', ''y#f'', ''oo'']"]
  have "monotone_parse sample_chat (cs_state (sample_stream [] [])) (concat [''he'', ''y#f'', ''oo'']) (cm_content m)"
    by (simp only: m(2))
  from streamed_text_is_the_content [OF sample_new_stream state m(1,3) this] m(2) show ?thesis by simp
qed

end
