(* ===== verification/Devices.thy ===== *)
theory Devices
  imports Engine_Types
begin

text \<open>
  The log filter and the devices section of src/engine.cpp: the table of backend devices, the choice of the devices a
  model is offloaded to, the padded tensor split, the load report and \<open>Engine::list_devices\<close>. The
  ggml backend registry is not part of the sources and is a record of operations over device
  handles.
\<close>

section \<open>Logging\<close>

text \<open>
  \<open>log_callback\<close>: whether a text is printed, and the level remembered for continuation lines.
\<close>

datatype log_level = Log_none | Log_debug | Log_info | Log_warn | Log_error | Log_cont

definition log_callback :: "log_level \<Rightarrow> log_level \<Rightarrow> bool \<times> log_level" where
  "log_callback last_level level =
     (let effective = (if level = Log_cont then last_level else level);
          last_level' = (if level = Log_cont then last_level else level)
      in (effective = Log_warn \<or> effective = Log_error, last_level'))"

text \<open>A line is printed or not as a whole: its continuations follow its level.\<close>

lemma continuations_follow:
  "level \<noteq> Log_cont \<Longrightarrow> log_callback last_level level = (p, l) \<Longrightarrow>
     log_callback l Log_cont = (p, l) \<and> (p \<longleftrightarrow> level \<in> {Log_warn, Log_error})"
  by (auto simp: log_callback_def)

section \<open>The backend registry\<close>

datatype dev_type = Cpu | Gpu | Igpu | Accel | Meta | Unlisted int

record 'd ggml_api =
  dev_count :: nat
  dev_get :: "nat \<Rightarrow> 'd option"
  backend_dev_name :: "'d \<Rightarrow> bytes option"
  backend_dev_description :: "'d \<Rightarrow> bytes option"
  backend_dev_type :: "'d \<Rightarrow> dev_type"
  backend_dev_memory :: "'d \<Rightarrow> u64 \<times> u64"
  max_devices :: nat

section \<open>Names\<close>

fun device_type_name :: "dev_type \<Rightarrow> bytes" where
  "device_type_name Cpu = ''cpu''"
| "device_type_name Gpu = ''gpu''"
| "device_type_name Igpu = ''igpu''"
| "device_type_name Accel = ''accel''"
| "device_type_name Meta = ''meta''"
| "device_type_name (Unlisted _) = ''unknown''"

definition device_name :: "'d ggml_api \<Rightarrow> 'd \<Rightarrow> bytes" where
  "device_name hw d = (case backend_dev_name hw d of Some n \<Rightarrow> n | None \<Rightarrow> [])"

definition device_description :: "'d ggml_api \<Rightarrow> 'd \<Rightarrow> bytes" where
  "device_description hw d = (case backend_dev_description hw d of Some n \<Rightarrow> n | None \<Rightarrow> [])"

definition all_devices :: "'d ggml_api \<Rightarrow> 'd list" where
  "all_devices hw = List.map_filter (dev_get hw) [0..<dev_count hw]"

text \<open>The loop of \<open>join_device_names\<close> over what it has put together so far.\<close>

fun join_names :: "'d ggml_api \<Rightarrow> bytes \<Rightarrow> 'd list \<Rightarrow> bytes" where
  "join_names hw out [] = out"
| "join_names hw out (d # ds) =
     join_names hw ((if out \<noteq> [] then out @ '', '' else out) @ device_name hw d) ds"

definition join_device_names :: "'d ggml_api \<Rightarrow> 'd list \<Rightarrow> bytes" where
  "join_device_names hw ds = join_names hw [] ds"

section \<open>Choosing the devices\<close>

fun split_gpus :: "'d ggml_api \<Rightarrow> 'd list \<Rightarrow> 'd list \<times> 'd list \<Rightarrow> 'd list \<times> 'd list" where
  "split_gpus hw [] acc = acc"
| "split_gpus hw (d # ds) (gpus, igpus) =
     (case backend_dev_type hw d of
        Gpu \<Rightarrow> split_gpus hw ds (gpus @ [d], igpus)
      | Igpu \<Rightarrow> split_gpus hw ds (gpus, igpus @ [d])
      | _ \<Rightarrow> split_gpus hw ds (gpus, igpus))"

definition default_offload_devices :: "'d ggml_api \<Rightarrow> 'd list \<Rightarrow> 'd list" where
  "default_offload_devices hw ds =
     (let (gpus, igpus) = split_gpus hw ds ([], []) in if gpus = [] then igpus else gpus)"

fun select_named :: "'d ggml_api \<Rightarrow> 'd list \<Rightarrow> bytes list \<Rightarrow> 'd list \<Rightarrow> exn + 'd list" where
  "select_named hw ds [] offload = Inr offload"
| "select_named hw ds (wanted # ws) offload =
     (case List.find (\<lambda>d. device_name hw d = wanted) ds of
        None \<Rightarrow> Inl (EngineError (''unknown device '' @ quoted wanted @ ''; available devices are: ''
                                 @ join_device_names hw ds))
      | Some d \<Rightarrow>
          if d \<in> set offload
          then Inl (EngineError (''device '' @ quoted wanted @ '' is listed more than once''))
          else select_named hw ds ws (offload @ [d]))"

definition select_offload_devices :: "'d ggml_api \<Rightarrow> engine_config \<Rightarrow> 'd list \<Rightarrow> exn + 'd list" where
  "select_offload_devices hw config ds =
     (if cfg_devices config = [] then Inr (default_offload_devices hw ds)
      else select_named hw ds (cfg_devices config) [])"

section \<open>The tensor split\<close>

text \<open>The summing loop; \<open>i\<close> counts the entries already taken.\<close>

fun split_sum :: "flt list \<Rightarrow> nat \<Rightarrow> flt \<Rightarrow> exn + flt" where
  "split_sum [] i acc = Inr acc"
| "split_sum (v # vs) i acc =
     (if \<not> flt_le (Fin 0) v
      then Inl (EngineError (''tensor split entry '' @ dec_nat (i + 1) @ '' is negative or not a number''))
      else split_sum vs (Suc i) (add32 acc v))"

definition padded_tensor_split :: "'d ggml_api \<Rightarrow> engine_config \<Rightarrow> nat \<Rightarrow> exn + flt list" where
  "padded_tensor_split hw config n_offload =
     (let split = cfg_tensor_split config
      in if split = [] then Inr []
         else
           (case split_sum split 0 (Fin 0) of
              Inl e \<Rightarrow> Inl e
            | Inr acc \<Rightarrow>
                if flt_le acc (Fin 0)
                then Inl (EngineError ''tensor split is all zeros: it would leave every device without work'')
                else if n_offload = 0
                then Inl (EngineError ''a tensor split was given but there is no GPU to offload to'')
                else if n_offload < length split
                then Inl (EngineError (''tensor split has '' @ dec_nat (length split) @ '' entries but only ''
                       @ dec_nat n_offload
                       @ (if cfg_devices config = [] then '' device(s) will be used for offloading''
                          else '' device(s) were requested'')))
                else if max_devices hw < length split
                then Inl (EngineError (''tensor split has '' @ dec_nat (length split)
                       @ '' entries but llama.cpp supports at most '' @ dec_nat (max_devices hw)
                       @ '' devices''))
                else Inr (split @ replicate (max_devices hw - length split) (Fin 0))))"

section \<open>Reports\<close>

definition is_gpu_device :: "'d ggml_api \<Rightarrow> 'd \<Rightarrow> bool" where
  "is_gpu_device hw d \<longleftrightarrow> backend_dev_type hw d = Gpu \<or> backend_dev_type hw d = Igpu"

text \<open>The quotient by \<open>2 ^ 30\<close> of a byte count converted to \<open>double\<close>.\<close>

definition as_gib :: "u64 \<Rightarrow> flt" where
  "as_gib b = (case f64 (of_int (uint b)) of Fin x \<Rightarrow> f64 (x / 2 ^ 30) | v \<Rightarrow> v)"

text \<open>\<open>%.1f\<close> of a value that is not negative: the exact value to one decimal, ties to even.\<close>

definition fixed1 :: "flt \<Rightarrow> bytes" where
  "fixed1 v =
     (case v of
        Fin x \<Rightarrow> (let n = round_even (x * 10) in dec_int (n div 10) @ ''.'' @ [digit (nat (n mod 10))])
      | PosInf \<Rightarrow> ''inf'' | NegInf \<Rightarrow> ''-inf'' | NaN \<Rightarrow> ''nan'')"

definition newline :: bytes where
  "newline = [CHR 0x0A]"

text \<open>The lines \<open>report_offload_devices\<close> prints.\<close>

definition report_offload_devices :: "'d ggml_api \<Rightarrow> engine_config \<Rightarrow> 'd list \<Rightarrow> bytes" where
  "report_offload_devices hw config offload =
     (if \<not> list_ex (is_gpu_device hw) offload
      then ''[llamad] no GPU device available: inference is CPU-only'' @ newline
      else if cfg_n_gpu_layers config = 0
      then ''[llamad] no layers offloaded (n_gpu_layers = 0): inference is CPU-only'' @ newline
      else concat (map (\<lambda>d. let (free_bytes, total_bytes) = backend_dev_memory hw d
             in ''[llamad] device '' @ c_str (device_name hw d) @ '': '' @ c_str (device_description hw d)
                @ '' ('' @ fixed1 (as_gib free_bytes) @ '' GiB free of '' @ fixed1 (as_gib total_bytes) @ '' GiB)''
                @ newline) offload))"

definition list_devices :: "'d ggml_api \<Rightarrow> device_info list" where
  "list_devices hw =
     map (\<lambda>d. let (free_bytes, total_bytes) = backend_dev_memory hw d
            in \<lparr>dev_name = device_name hw d, dev_description = device_description hw d,
                dev_type = device_type_name (backend_dev_type hw d),
                dev_memory_free = free_bytes, dev_memory_total = total_bytes\<rparr>)
       (all_devices hw)"

section \<open>The chosen devices\<close>

lemma split_gpus_filter:
  "split_gpus hw ds (gpus, igpus) =
     (gpus @ filter (\<lambda>d. backend_dev_type hw d = Gpu) ds,
      igpus @ filter (\<lambda>d. backend_dev_type hw d = Igpu) ds)"
  by (induction ds arbitrary: gpus igpus) (auto split: dev_type.splits)

lemma select_named_Inr_iff:
  "distinct offload \<Longrightarrow>
   select_named hw ds ws offload = Inr r \<longleftrightarrow>
     (\<exists>new. r = offload @ new \<and> distinct r
        \<and> list_all2 (\<lambda>w d. List.find (\<lambda>d. device_name hw d = w) ds = Some d) ws new)"
proof (induction ws arbitrary: offload)
  case Nil
  then show ?case by auto
next
  case (Cons w ws)
  show ?case
  proof (cases "List.find (\<lambda>d. device_name hw d = w) ds")
    case None
    then show ?thesis by (auto simp: list_all2_Cons1)
  next
    case (Some d)
    show ?thesis
    proof (cases "d \<in> set offload")
      case True
      with Some show ?thesis by (auto simp: list_all2_Cons1)
    next
      case False
      with Cons.prems have "distinct (offload @ [d])" by simp
      from Cons.IH [OF this] Some False show ?thesis by (auto simp: list_all2_Cons1)
    qed
  qed
qed

lemma select_named_Inl:
  "select_named hw ds ws offload = Inl e \<Longrightarrow>
     (\<exists>w\<in>set ws. \<forall>d\<in>set ds. device_name hw d \<noteq> w)
     \<or> (\<exists>w\<in>set ws. \<exists>d\<in>set offload. device_name hw d = w) \<or> \<not> distinct ws"
proof (induction ws arbitrary: offload)
  case (Cons w ws)
  show ?case
  proof (cases "List.find (\<lambda>d. device_name hw d = w) ds")
    case None
    then show ?thesis by (auto simp: find_None_iff)
  next
    case (Some d)
    then have d: "device_name hw d = w" by (auto simp: find_Some_iff)
    show ?thesis
    proof (cases "d \<in> set offload")
      case True
      with d show ?thesis by auto
    next
      case False
      with Cons.prems Some have "select_named hw ds ws (offload @ [d]) = Inl e" by simp
      from Cons.IH [OF this] d show ?thesis by auto
    qed
  qed
qed auto

text \<open>
  C40. A model goes where it was sent. With no device named it goes to every discrete GPU, or to the
  integrated ones when there is none, in backend order. With names it goes to exactly the named
  devices in the order given, the first of each name and none twice; and the request is refused
  only when a name is unknown or given twice.
\<close>

theorem offload_goes_where_it_was_sent:
  "(cfg_devices config = [] \<longrightarrow>
      select_offload_devices hw config ds =
        Inr (if \<exists>d\<in>set ds. backend_dev_type hw d = Gpu
             then filter (\<lambda>d. backend_dev_type hw d = Gpu) ds
             else filter (\<lambda>d. backend_dev_type hw d = Igpu) ds))
   \<and> (cfg_devices config \<noteq> [] \<longrightarrow>
        (\<forall>offload. select_offload_devices hw config ds = Inr offload \<longleftrightarrow>
            list_all2 (\<lambda>w d. List.find (\<lambda>d. device_name hw d = w) ds = Some d) (cfg_devices config) offload
            \<and> distinct offload)
        \<and> (distinct (cfg_devices config) \<and> set (cfg_devices config) \<subseteq> device_name hw ` set ds
            \<longrightarrow> is_ok (select_offload_devices hw config ds)))"
proof -
  have "is_ok (select_named hw ds ws [])" if "distinct ws" "set ws \<subseteq> device_name hw ` set ds" for ws
    using select_named_Inl [of hw ds ws "[]"] that by (cases "select_named hw ds ws []") auto
  then show ?thesis
    by (auto simp: select_offload_devices_def default_offload_devices_def split_gpus_filter
        select_named_Inr_iff filter_empty_conv)
qed

definition sample_hw :: "nat ggml_api" where
  "sample_hw =
     \<lparr>dev_count = 5, dev_get = (\<lambda>i. if i = 2 then None else Some i),
      backend_dev_name = (\<lambda>d. [Some ''CPU'', Some ''CUDA0'', None, Some ''CUDA1'', Some ''Arc''] ! d),
      backend_dev_description = (\<lambda>d. if d = 0 then None else Some ''a GPU''),
      backend_dev_type = (\<lambda>d. [Cpu, Gpu, Accel, Gpu, Igpu] ! d),
      backend_dev_memory = (\<lambda>d. (0, 0)), max_devices = 16\<rparr>"

theorem offload_goes_where_it_was_sent_witness:
  "all_devices sample_hw = [0, 1, 3, 4]
   \<and> select_offload_devices sample_hw default_config [0, 1, 3, 4] = Inr [1, 3]
   \<and> select_offload_devices sample_hw (default_config\<lparr>cfg_devices := [''Arc'', ''CPU'']\<rparr>) [0, 1, 3, 4]
      = Inr [4, 0]"
proof -
  have "all_devices sample_hw = [0, 1, 3, 4]"
    by (simp add: all_devices_def sample_hw_def map_filter_def upt_rec)
  moreover have "select_offload_devices sample_hw default_config [0, 1, 3, 4] = Inr [1, 3]"
    using offload_goes_where_it_was_sent [of default_config sample_hw "[0, 1, 3, 4]"]
    by (simp add: sample_hw_def default_config_def)
  moreover have "select_offload_devices sample_hw (default_config\<lparr>cfg_devices := [''Arc'', ''CPU'']\<rparr>) [0, 1, 3, 4]
      = Inr [4, 0]"
    using offload_goes_where_it_was_sent
      [of "default_config\<lparr>cfg_devices := [''Arc'', ''CPU'']\<rparr>" sample_hw "[0, 1, 3, 4]"]
    by (simp add: sample_hw_def default_config_def device_name_def)
  ultimately show ?thesis by blast
qed

section \<open>The split that llama.cpp reads\<close>

text \<open>A value that a \<open>float\<close> holds and that is not negative: zero, or at least the least float.\<close>

definition share :: "flt \<Rightarrow> bool" where
  "share v \<longleftrightarrow> v = Fin 0 \<or> v = PosInf \<or> (\<exists>x. v = Fin x \<and> pow2 (- 149) \<le> x)"

lemma share_cases:
  assumes "share v"
  obtains "v = Fin 0" | "v = PosInf" | x where "v = Fin x" "pow2 (- 149) \<le> x" "0 < x"
proof -
  from assms consider "v = Fin 0" | "v = PosInf" | x where "v = Fin x" "pow2 (- 149) \<le> x"
    by (auto simp: share_def)
  then show thesis
  proof cases
    case 3
    then have "0 < x" using pow2_pos less_le_trans by blast
    with 3 that show thesis by blast
  qed (use that in auto)
qed

lemma share_not_negative: "share v \<Longrightarrow> flt_le (Fin 0) v"
  by (erule share_cases) (auto simp: flt_le_def)

lemma share_zero: "share v \<Longrightarrow> flt_le v (Fin 0) \<longleftrightarrow> v = Fin 0"
  by (erule share_cases) (auto simp: flt_le_def)

lemma share_f32: "pow2 (- 149) \<le> x \<Longrightarrow> share (f32 x) \<and> f32 x \<noteq> Fin 0"
  using round_flt_at_least [of "- 149" x 24 128] not_le [THEN iffD2, OF pow2_pos [of "- 149"]]
  by (auto simp: share_def f32_def)

lemma share_add32:
  assumes "share a" "share b"
  shows "share (add32 a b) \<and> (add32 a b = Fin 0 \<longleftrightarrow> a = Fin 0 \<and> b = Fin 0)"
  using assms(1)
proof (cases rule: share_cases)
  case 1
  show ?thesis using assms(2)
    by (cases rule: share_cases) (use 1 share_f32 in \<open>auto simp: share_def [of "Fin 0"] share_def [of PosInf]\<close>)
next
  case 2
  show ?thesis using assms(2) by (cases rule: share_cases) (use 2 in \<open>auto simp: share_def [of PosInf]\<close>)
next
  case (3 x)
  show ?thesis using assms(2)
  proof (cases rule: share_cases)
    case (3 y)
    with \<open>a = Fin x\<close> \<open>pow2 (- 149) \<le> x\<close> show ?thesis using share_f32 [of "x + y"] by simp
  qed (use 3 share_f32 [of x] in \<open>auto simp: share_def [of PosInf]\<close>)
qed

lemma split_sum_shares:
  "\<forall>v\<in>set vs. share v \<Longrightarrow> share acc \<Longrightarrow>
   \<exists>s. split_sum vs i acc = Inr s \<and> share s \<and> (s = Fin 0 \<longleftrightarrow> acc = Fin 0 \<and> (\<forall>v\<in>set vs. v = Fin 0))"
proof (induction vs arbitrary: i acc)
  case (Cons v vs)
  then have "share (add32 acc v)" "add32 acc v = Fin 0 \<longleftrightarrow> acc = Fin 0 \<and> v = Fin 0"
    using share_add32 by auto
  with Cons show ?case by (fastforce simp: share_not_negative)
qed auto

text \<open>
  The split llama.cpp reads is what the caller gave, padded with zeros to the length llama.cpp
  expects; and a split of shares is accepted exactly when some share is positive, there is no more
  than one share for each device used, and llama.cpp knows that many devices. In particular the sum
  never loses a positive share to rounding.
\<close>

theorem tensor_split_is_padded:
  assumes "\<forall>v\<in>set (cfg_tensor_split config). share v" and "cfg_tensor_split config \<noteq> []"
  shows "padded_tensor_split hw config n = Inr padded \<longleftrightarrow>
      (\<exists>v\<in>set (cfg_tensor_split config). v \<noteq> Fin 0)
      \<and> length (cfg_tensor_split config) \<le> n
      \<and> length padded = max_devices hw
      \<and> (\<exists>k. padded = cfg_tensor_split config @ replicate k (Fin 0))"
proof -
  let ?split = "cfg_tensor_split config"
  have "share (Fin 0)" by (simp add: share_def)
  with split_sum_shares [OF assms(1), of "Fin 0" 0] obtain s
    where s: "split_sum ?split 0 (Fin 0) = Inr s" "share s" "s = Fin 0 \<longleftrightarrow> (\<forall>v\<in>set ?split. v = Fin 0)"
    by auto
  have "padded_tensor_split hw config n = Inr padded \<longleftrightarrow>
      s \<noteq> Fin 0 \<and> length ?split \<le> n \<and> length ?split \<le> max_devices hw
      \<and> padded = ?split @ replicate (max_devices hw - length ?split) (Fin 0)"
    using assms(2) s by (auto simp: padded_tensor_split_def Let_def share_zero)
  with s(3) show ?thesis by auto
qed

theorem tensor_split_is_padded_witness:
  "padded_tensor_split sample_hw (default_config\<lparr>cfg_tensor_split := [Fin 3, Fin 0]\<rparr>) 2
    = Inr ([Fin 3, Fin 0] @ replicate 14 (Fin 0))"
proof -
  have "share (Fin 3)" "share (Fin 0)" by (auto simp: share_def pow2_def)
  then show ?thesis
    using tensor_split_is_padded [of "default_config\<lparr>cfg_tensor_split := [Fin 3, Fin 0]\<rparr>" sample_hw 2
        "[Fin 3, Fin 0] @ replicate 14 (Fin 0)"]
    by (simp add: sample_hw_def default_config_def)
qed

end
