(* ===== verification/Engine_Load.thy ===== *)
theory Engine_Load
  imports Devices Kv_Cache Tokenizer
begin

text \<open>
  The constructor of \<open>Engine\<close> and the queries on a loaded model, \<open>info\<close> and \<open>chat_template\<close>
  (src/engine.cpp). The functions of llama.cpp that load a model and open a context are parameters;
  so is the number of hardware threads. The theory shows the state that every other operation of the
  engine starts from.
\<close>

section \<open>The loading part of the llama.cpp API\<close>

record 'd model_params =
  mp_n_gpu_layers :: int
  mp_devices :: "'d option list option"
  mp_tensor_split :: "flt list option"

record context_params =
  cp_n_ctx :: u32
  cp_n_batch :: u32
  cp_n_ubatch :: u32
  cp_n_outputs_max :: u32
  cp_n_threads :: int
  cp_n_threads_batch :: int
  cp_no_perf :: bool

text \<open>The pooling types that the engine tells apart.\<close>

datatype pooling = Pooling_none | Pooling_rank | Pooling_other

record ('m, 'c, 'd, 'h, 'g) model_api =
  default_model_params :: "'d model_params"
  load_model :: "bytes \<Rightarrow> 'd model_params \<Rightarrow> 'm option"
  model_vocab :: "'m \<Rightarrow> ('c, 'h, 'g) llama_api option"
  default_context_params :: context_params
  init_context :: "'m \<Rightarrow> context_params \<Rightarrow> 'c option"
  pooling_type :: "'c \<Rightarrow> pooling"
  get_n_ctx :: "'c \<Rightarrow> nat"
  get_n_ctx_seq :: "'c \<Rightarrow> nat"
  get_n_batch :: "'c \<Rightarrow> nat"
  get_n_ubatch :: "'c \<Rightarrow> nat"
  set_embeddings :: "'c \<Rightarrow> 'c"
  model_n_ctx_train :: "'m \<Rightarrow> int"
  model_n_embd_out :: "'m \<Rightarrow> int"
  model_desc :: "'m \<Rightarrow> nat \<Rightarrow> int \<times> bytes"
  model_n_params :: "'m \<Rightarrow> u64"
  model_size :: "'m \<Rightarrow> u64"
  model_chat_template :: "'m \<Rightarrow> bytes option"
  vocab_bos :: "'m \<Rightarrow> token"
  vocab_eos :: "'m \<Rightarrow> token"
  hardware_concurrency :: nat

section \<open>The constructor\<close>

definition model_params_for ::
  "('m, 'c, 'd, 'h, 'g) model_api \<Rightarrow> engine_config \<Rightarrow> 'd list \<Rightarrow> flt list \<Rightarrow> 'd model_params" where
  "model_params_for mapi config offload tensor_split =
     (let device_arg = (if cfg_devices config \<noteq> [] then map Some offload @ [None] else []);
          p = default_model_params mapi\<lparr>mp_n_gpu_layers := cfg_n_gpu_layers config\<rparr>;
          p = (if device_arg \<noteq> [] then p\<lparr>mp_devices := Some device_arg\<rparr> else p)
      in if tensor_split \<noteq> [] then p\<lparr>mp_tensor_split := Some tensor_split\<rparr> else p)"

definition context_params_for ::
  "('m, 'c, 'd, 'h, 'g) model_api \<Rightarrow> engine_config \<Rightarrow> context_params" where
  "context_params_for mapi config =
     (let hardware = max 1 (i32 (hardware_concurrency mapi)) in
      default_context_params mapi
        \<lparr>cp_n_ctx := cfg_n_ctx config, cp_no_perf := True,
         cp_n_threads := (if 0 < cfg_n_threads config then cfg_n_threads config else max 1 (hardware div 2)),
         cp_n_threads_batch := (if 0 < cfg_n_threads config then cfg_n_threads config else hardware)\<rparr>)"

definition generation_params :: "context_params \<Rightarrow> context_params" where
  "generation_params p = p\<lparr>cp_n_outputs_max := 1, cp_n_ubatch := cp_n_batch p\<rparr>"

text \<open>The context shaped for generation, unless that fails or the model pools.\<close>

definition open_context ::
  "('m, 'c, 'd, 'h, 'g) model_api \<Rightarrow> 'm \<Rightarrow> context_params \<Rightarrow> 'c option" where
  "open_context mapi m p =
     (case init_context mapi m (generation_params p) of
        Some c \<Rightarrow> if pooling_type mapi c \<noteq> Pooling_none then init_context mapi m p else Some c
      | None \<Rightarrow> init_context mapi m p)"

text \<open>The most tokens one input to embed may have.\<close>

definition embed_limit :: "('m, 'c, 'd, 'h, 'g) model_api \<Rightarrow> 'm \<Rightarrow> 'c \<Rightarrow> nat \<Rightarrow> nat" where
  "embed_limit mapi m c ctx_seq =
     (let limit = min (get_n_ubatch mapi c) ctx_seq
      in if 0 < model_n_ctx_train mapi m then min limit (nat (model_n_ctx_train mapi m)) else limit)"

text \<open>The two warm-up decodes: what they return is ignored, what they throw is not.\<close>

definition warm_up ::
  "('m, 'c, 'd, 'h, 'g) model_api \<Rightarrow> ('c, 'h, 'g) llama_api \<Rightarrow> 'm \<Rightarrow> nat \<Rightarrow> 'c \<Rightarrow> exn + 'c" where
  "warm_up mapi api m batch c =
     (let warm = (if vocab_bos mapi m = api_token_null api then vocab_eos mapi m else vocab_bos mapi m)
      in if warm = api_token_null api then Inr c
         else
           (case api_decode api c (replicate (min 32 batch) warm) of
              (Inl e, _) \<Rightarrow> Inl e
            | (Inr _, c) \<Rightarrow>
                (case api_decode api c [warm] of
                   (Inl e, _) \<Rightarrow> Inl e
                 | (Inr _, c) \<Rightarrow> Inr (api_memory_clear api (api_synchronize api c)))))"

text \<open>A loaded engine: the model, its operations, and the state of \<open>Impl\<close>.\<close>

record ('m, 'c, 'h, 'g) engine =
  eng_model :: 'm
  eng_api :: "('c, 'h, 'g) llama_api"
  eng_impl :: "'c impl"

definition open_engine ::
  "('m, 'c, 'd, 'h, 'g) model_api \<Rightarrow> engine_config \<Rightarrow> 'm \<Rightarrow> ('c, 'h, 'g) llama_api
     \<Rightarrow> exn + ('m, 'c, 'h, 'g) engine" where
  "open_engine mapi config m api =
     (case open_context mapi m (context_params_for mapi config) of
        None \<Rightarrow> Inl (EngineError (''failed to create a llama context for '' @ quoted (cfg_model_path config)))
      | Some c \<Rightarrow>
          (let ctx_seq = get_n_ctx_seq mapi c; batch = get_n_batch mapi c in
           if ctx_seq = 0 \<or> batch = 0
           then Inl (EngineError ''llama context reports a zero context or batch size'')
           else if pooling_type mapi c = Pooling_rank
           then Inl (EngineError (quoted (cfg_model_path config)
                  @ '' is a reranking model, which llamad does not serve''))
           else
             (let pools = (pooling_type mapi c \<noteq> Pooling_none);
                  c' = (if pools then set_embeddings mapi c else c);
                  limit = (if pools then embed_limit mapi m c' ctx_seq else 0)
              in case warm_up mapi api m batch c' of
                   Inl e \<Rightarrow> Inl e
                 | Inr c'' \<Rightarrow>
                     Inr \<lparr>eng_model = m, eng_api = api,
                          eng_impl = \<lparr>ctx = c'', n_ctx = get_n_ctx mapi c, n_ctx_seq = ctx_seq,
                            n_batch = batch, embeddings = pools, max_embed_tokens = limit,
                            cached = []\<rparr>\<rparr>)))"

definition new_engine ::
  "'d ggml_api \<Rightarrow> ('m, 'c, 'd, 'h, 'g) model_api \<Rightarrow> engine_config \<Rightarrow> exn + ('m, 'c, 'h, 'g) engine" where
  "new_engine hw mapi config =
     (if cfg_model_path config = [] then Inl (EngineError ''no model path was given'')
      else
        (case select_offload_devices hw config (all_devices hw) of
           Inl e \<Rightarrow> Inl e
         | Inr offload \<Rightarrow>
             (case padded_tensor_split hw config (length offload) of
                Inl e \<Rightarrow> Inl e
              | Inr tensor_split \<Rightarrow>
                  (case load_model mapi (cfg_model_path config)
                          (model_params_for mapi config offload tensor_split) of
                     None \<Rightarrow> Inl (EngineError (''failed to load the model from ''
                         @ quoted (cfg_model_path config)
                         @ '' (missing file, not a supported GGUF, or not enough memory on the offload devices; see the errors above)''))
                   | Some m \<Rightarrow>
                       (case model_vocab mapi m of
                          None \<Rightarrow> Inl (EngineError (''model '' @ quoted (cfg_model_path config)
                              @ '' has no vocabulary''))
                        | Some api \<Rightarrow> open_engine mapi config m api)))))"

section \<open>Queries\<close>

definition describe :: "('m, 'c, 'd, 'h, 'g) model_api \<Rightarrow> 'm \<Rightarrow> bytes" where
  "describe mapi m =
     (let (n, buf) = model_desc mapi m 256
      in if 0 \<le> n \<and> n < 256 then take (nat n) buf
         else if 0 < n
         then (let (n2, big) = model_desc mapi m (nat n + 1)
               in if 0 < n2 then take (min (nat n2) (nat n)) big else [])
         else [])"

definition info ::
  "('m, 'c, 'd, 'h, 'g) model_api \<Rightarrow> ('m, 'c, 'h, 'g) engine \<Rightarrow> model_info" where
  "info mapi eng =
     (let m = eng_model eng; st = eng_impl eng in
      \<lparr>mi_description = describe mapi m, mi_n_params = model_n_params mapi m,
       mi_size_bytes = model_size mapi m, mi_n_ctx = word_of_nat (n_ctx st),
       mi_n_ctx_train = word_of_int (max 0 (model_n_ctx_train mapi m)),
       mi_has_chat_template = (model_chat_template mapi m \<noteq> None),
       mi_n_embd = (if embeddings st then word_of_int (max 0 (model_n_embd_out mapi m)) else 0),
       mi_serves_embeddings = embeddings st\<rparr>)"

definition token_text :: "('m, 'c, 'h, 'g) engine \<Rightarrow> token \<Rightarrow> exn + bytes" where
  "token_text eng t =
     (if t = api_token_null (eng_api eng) then Inr [] else token_to_piece (eng_api eng) t True)"

definition chat_template ::
  "('m, 'c, 'd, 'h, 'g) model_api \<Rightarrow> ('m, 'c, 'h, 'g) engine \<Rightarrow> exn + chat_template_info" where
  "chat_template mapi eng =
     (let m = eng_model eng;
          source = (case model_chat_template mapi m of Some s \<Rightarrow> s | None \<Rightarrow> [])
      in case token_text eng (vocab_bos mapi m) of
           Inl e \<Rightarrow> Inl e
         | Inr bos \<Rightarrow>
             (case token_text eng (vocab_eos mapi m) of
                Inl e \<Rightarrow> Inl e
              | Inr eos \<Rightarrow> Inr \<lparr>tmpl_source = source, tmpl_bos_token = bos, tmpl_eos_token = eos\<rparr>))"

section \<open>What a loaded engine starts from\<close>

text \<open>A context that was just opened has decoded nothing, and switching it to embeddings decodes nothing.\<close>

definition fresh_laws :: "('m, 'c, 'd, 'h, 'g) model_api \<Rightarrow> ('c \<Rightarrow> token list) \<Rightarrow> bool" where
  "fresh_laws mapi seq \<longleftrightarrow>
     (\<forall>m p c. init_context mapi m p = Some c \<longrightarrow> seq c = []) \<and> (\<forall>c. seq (set_embeddings mapi c) = seq c)"

lemma warm_up_clears:
  assumes "memory_laws api seq" "warm_up mapi api m batch c = Inr c'" "seq c = []"
  shows "seq c' = []"
proof -
  from assms(2) have "c' = c \<or> (\<exists>d. c' = api_memory_clear api d)"
    by (auto simp: warm_up_def Let_def split: if_splits sum.splits prod.splits)
  with assms(1,3) show ?thesis unfolding memory_laws_def by blast
qed

lemma open_context_cases:
  assumes "open_context mapi m p = Some c"
  shows "init_context mapi m (generation_params p) = Some c \<and> pooling_type mapi c = Pooling_none
    \<or> init_context mapi m p = Some c
      \<and> (\<forall>g. init_context mapi m (generation_params p) = Some g \<longrightarrow> pooling_type mapi g \<noteq> Pooling_none)"
  using assms by (auto simp: open_context_def split: option.splits if_splits)

lemma new_engine_open:
  assumes "new_engine hw mapi config = Inr eng"
  shows "cfg_model_path config \<noteq> []
    \<and> (\<exists>offload tensor_split m api. select_offload_devices hw config (all_devices hw) = Inr offload
        \<and> padded_tensor_split hw config (length offload) = Inr tensor_split
        \<and> load_model mapi (cfg_model_path config) (model_params_for mapi config offload tensor_split) = Some m
        \<and> model_vocab mapi m = Some api \<and> open_engine mapi config m api = Inr eng)"
  using assms by (auto simp: new_engine_def split: if_splits sum.splits option.splits)

lemma open_engine_context:
  assumes "open_engine mapi config m api = Inr eng"
  obtains c c' where "open_context mapi m (context_params_for mapi config) = Some c"
    "get_n_ctx_seq mapi c \<noteq> 0" "get_n_batch mapi c \<noteq> 0" "pooling_type mapi c \<noteq> Pooling_rank"
    "warm_up mapi api m (get_n_batch mapi c) (if pooling_type mapi c \<noteq> Pooling_none then set_embeddings mapi c else c)
      = Inr c'"
    "eng = \<lparr>eng_model = m, eng_api = api,
       eng_impl = \<lparr>ctx = c', n_ctx = get_n_ctx mapi c, n_ctx_seq = get_n_ctx_seq mapi c,
         n_batch = get_n_batch mapi c, embeddings = (pooling_type mapi c \<noteq> Pooling_none),
         max_embed_tokens = (if pooling_type mapi c \<noteq> Pooling_none
           then embed_limit mapi m (set_embeddings mapi c) (get_n_ctx_seq mapi c) else 0),
         cached = []\<rparr>\<rparr>"
  using assms by (auto simp: open_engine_def Let_def split: option.splits if_splits sum.splits)

lemma open_engine_ready:
  assumes "open_engine mapi config m api = Inr eng" and "memory_laws api seq" and "fresh_laws mapi seq"
  shows "0 < n_batch (eng_impl eng) \<and> 0 < n_ctx_seq (eng_impl eng)
    \<and> cached (eng_impl eng) = [] \<and> seq (ctx (eng_impl eng)) = []
    \<and> max_embed_tokens (eng_impl eng) \<le> n_ctx_seq (eng_impl eng)
    \<and> eng_model eng = m \<and> eng_api eng = api
    \<and> (\<exists>c. open_context mapi m (context_params_for mapi config) = Some c
        \<and> pooling_type mapi c \<noteq> Pooling_rank
        \<and> embeddings (eng_impl eng) = (pooling_type mapi c \<noteq> Pooling_none)
        \<and> n_ctx_seq (eng_impl eng) = get_n_ctx_seq mapi c)"
  using assms(1)
proof (cases rule: open_engine_context)
  case (1 c c')
  have "seq c = []" using 1(1) assms(3) open_context_cases [OF 1(1)] by (auto simp: fresh_laws_def)
  then have "seq (if pooling_type mapi c \<noteq> Pooling_none then set_embeddings mapi c else c) = []"
    using assms(3) by (simp add: fresh_laws_def)
  from warm_up_clears [OF assms(2) 1(5) this] have "seq c' = []" .
  moreover have "embed_limit mapi m (set_embeddings mapi c) (get_n_ctx_seq mapi c) \<le> get_n_ctx_seq mapi c"
    by (simp add: embed_limit_def Let_def min.coboundedI2 min.coboundedI1)
  ultimately show ?thesis using 1 by simp
qed

text \<open>
  C35. An engine that was constructed is ready: its batches and its context are not empty, the record
  of cached tokens agrees with a memory that the warm-up left empty, it embeds exactly when the
  context pools into vectors, and an input to embed is limited by the context. The model was loaded
  onto the devices that were chosen, with the split padded for them; the context is the one shaped
  for generation unless that could not be made or pools.
\<close>

theorem engine_starts_ready:
  assumes "new_engine hw mapi config = Inr eng" and "memory_laws (eng_api eng) seq" and "fresh_laws mapi seq"
  shows "0 < n_batch (eng_impl eng) \<and> 0 < n_ctx_seq (eng_impl eng)
    \<and> cached (eng_impl eng) = [] \<and> seq (ctx (eng_impl eng)) = []
    \<and> max_embed_tokens (eng_impl eng) \<le> n_ctx_seq (eng_impl eng)
    \<and> (\<exists>offload tensor_split c.
        select_offload_devices hw config (all_devices hw) = Inr offload
        \<and> padded_tensor_split hw config (length offload) = Inr tensor_split
        \<and> load_model mapi (cfg_model_path config) (model_params_for mapi config offload tensor_split)
            = Some (eng_model eng)
        \<and> (init_context mapi (eng_model eng) (generation_params (context_params_for mapi config)) = Some c
             \<and> \<not> embeddings (eng_impl eng)
           \<or> init_context mapi (eng_model eng) (context_params_for mapi config) = Some c
             \<and> (\<forall>g. init_context mapi (eng_model eng) (generation_params (context_params_for mapi config)) = Some g
                  \<longrightarrow> pooling_type mapi g \<noteq> Pooling_none))
        \<and> pooling_type mapi c \<noteq> Pooling_rank
        \<and> embeddings (eng_impl eng) = (pooling_type mapi c \<noteq> Pooling_none))"
proof -
  obtain offload tensor_split m api where made:
    "select_offload_devices hw config (all_devices hw) = Inr offload"
    "padded_tensor_split hw config (length offload) = Inr tensor_split"
    "load_model mapi (cfg_model_path config) (model_params_for mapi config offload tensor_split) = Some m"
    "open_engine mapi config m api = Inr eng"
    using new_engine_open [OF assms(1)] by blast
  have "eng_api eng = api" by (rule open_engine_context [OF made(4)]) simp
  then have laws: "memory_laws api seq" using assms(2) by simp
  from open_engine_ready [OF made(4) laws assms(3)] obtain c where
    c: "open_context mapi m (context_params_for mapi config) = Some c"
      "pooling_type mapi c \<noteq> Pooling_rank" "embeddings (eng_impl eng) = (pooling_type mapi c \<noteq> Pooling_none)"
    and m: "eng_model eng = m" by blast
  from open_engine_ready [OF made(4) laws assms(3)] made(1-3) c(2,3) m open_context_cases [OF c(1)]
  show ?thesis by metis
qed

text \<open>
  Two models on the sample operations: \<open>gen\<close> generates, any other pools.
\<close>

definition sample_models :: "(bytes, token list, nat, sampler list, token list) model_api" where
  "sample_models =
     \<lparr>default_model_params = \<lparr>mp_n_gpu_layers = 0, mp_devices = None, mp_tensor_split = None\<rparr>,
      load_model = (\<lambda>path p. Some path), model_vocab = (\<lambda>m. Some sample_api),
      default_context_params = \<lparr>cp_n_ctx = 512, cp_n_batch = 2, cp_n_ubatch = 1, cp_n_outputs_max = 2,
        cp_n_threads = 4, cp_n_threads_batch = 4, cp_no_perf = False\<rparr>,
      init_context = (\<lambda>m p. if m = ''gen'' \<or> cp_n_outputs_max p \<noteq> 1 then Some [] else None),
      pooling_type = (\<lambda>c. Pooling_none), get_n_ctx = (\<lambda>c. 16), get_n_ctx_seq = (\<lambda>c. 16),
      get_n_batch = (\<lambda>c. 2), get_n_ubatch = (\<lambda>c. 2), set_embeddings = (\<lambda>c. c),
      model_n_ctx_train = (\<lambda>m. 0), model_n_embd_out = (\<lambda>m. 2), model_desc = (\<lambda>m cap. (6, ''sample'')),
      model_n_params = (\<lambda>m. 3), model_size = (\<lambda>m. 4), model_chat_template = (\<lambda>m. None),
      vocab_bos = (\<lambda>m. - 1), vocab_eos = (\<lambda>m. 0), hardware_concurrency = 8\<rparr>"

definition sample_engine :: "(bytes, token list, sampler list, token list) engine" where
  "sample_engine = \<lparr>eng_model = ''gen'', eng_api = sample_api, eng_impl = sample_impl []\<rparr>"

lemma sample_load:
  "new_engine sample_hw sample_models (default_config\<lparr>cfg_model_path := ''gen''\<rparr>) = Inr sample_engine"
  by (simp add: new_engine_def select_offload_devices_def padded_tensor_split_def default_config_def
      sample_models_def open_engine_def open_context_def Let_def warm_up_def sample_api_def
      sample_engine_def sample_impl_def)

theorem engine_starts_ready_witness:
  "0 < n_batch (eng_impl sample_engine) \<and> cached (eng_impl sample_engine) = ctx (eng_impl sample_engine)"
proof -
  have "memory_laws (eng_api sample_engine) (\<lambda>c. c)"
    by (simp add: sample_engine_def sample_memory_laws)
  moreover have "fresh_laws sample_models (\<lambda>c. c)" by (simp add: fresh_laws_def sample_models_def)
  ultimately show ?thesis using engine_starts_ready [OF sample_load] by metis
qed

end
