(* ===== verification/Embed.thy ===== *)
theory Embed
  imports Engine_Load
begin

text \<open>
  \<open>Engine::embed\<close> and \<open>l2_normalized\<close> of src/engine.cpp. The arithmetic is that of \<open>double\<close>; the
  products of the sum of squares are exact in it, so contracting them into the additions would
  change nothing. The theory shows that an embedding depends on its own input alone.
\<close>

section \<open>Arithmetic on doubles\<close>

fun add64 :: "flt \<Rightarrow> flt \<Rightarrow> flt" where
  "add64 (Fin a) (Fin b) = f64 (a + b)"
| "add64 NaN _ = NaN"
| "add64 _ NaN = NaN"
| "add64 PosInf NegInf = NaN"
| "add64 NegInf PosInf = NaN"
| "add64 PosInf _ = PosInf"
| "add64 NegInf _ = NegInf"
| "add64 _ PosInf = PosInf"
| "add64 _ NegInf = NegInf"

text \<open>The sign of a value that is a number.\<close>

fun flt_sgn :: "flt \<Rightarrow> int" where
  "flt_sgn (Fin a) = (if 0 < a then 1 else if a < 0 then - 1 else 0)"
| "flt_sgn PosInf = 1"
| "flt_sgn NegInf = - 1"
| "flt_sgn NaN = 0"

definition mul64 :: "flt \<Rightarrow> flt \<Rightarrow> flt" where
  "mul64 a b =
     (case (a, b) of
        (Fin x, Fin y) \<Rightarrow> f64 (x * y)
      | _ \<Rightarrow>
          if a = NaN \<or> b = NaN \<or> flt_sgn a * flt_sgn b = 0 then NaN
          else if 0 < flt_sgn a * flt_sgn b then PosInf else NegInf)"

text \<open>The integer square root, by quarters.\<close>

function isqrt :: "int \<Rightarrow> int" where
  "isqrt n =
     (if n \<le> 0 then 0
      else (let r = 2 * isqrt (n div 4) in if (r + 1) * (r + 1) \<le> n then r + 1 else r))"
  by pat_completeness auto
termination by (relation "measure nat") auto

declare isqrt.simps [simp del]

lemma isqrt_bounds: "0 \<le> n \<Longrightarrow> 0 \<le> isqrt n \<and> isqrt n * isqrt n \<le> n \<and> n < (isqrt n + 1) * (isqrt n + 1)"
proof (induction n rule: isqrt.induct)
  case (1 n)
  show ?case
  proof (cases "n = 0")
    case True
    then show ?thesis by (simp add: isqrt.simps [of 0])
  next
    case False
    define q where "q = isqrt (n div 4)"
    have IH: "0 \<le> q" "q * q \<le> n div 4" "n div 4 < (q + 1) * (q + 1)"
      using 1 False by (auto simp: q_def)
    then have "4 * (q * q) \<le> n" "n < 4 * ((q + 1) * (q + 1))" by linarith+
    then have b: "2 * q * (2 * q) \<le> n" "n < (2 * q + 1 + 1) * (2 * q + 1 + 1)"
      by (simp_all add: algebra_simps)
    have "isqrt n = (if (2 * q + 1) * (2 * q + 1) \<le> n then 2 * q + 1 else 2 * q)"
      using False 1 by (subst isqrt.simps) (simp add: q_def Let_def)
    with b IH(1) show ?thesis by auto
  qed
qed

text \<open>
  \<open>std::sqrt\<close>, rounded to the nearest \<open>double\<close>. The root of a positive \<open>double\<close> has a normal exponent
  and is never a tie.
\<close>

definition sqrt64 :: "flt \<Rightarrow> flt" where
  "sqrt64 v =
     (case v of
        Fin x \<Rightarrow>
          if x < 0 then NaN
          else if x = 0 then Fin 0
          else
            (let e = rat_log2 x div 2 - 52;
                 scaled = x / pow2 (2 * e);
                 s = isqrt \<lfloor>scaled\<rfloor>;
                 r = (if (2 * of_int s + 1) * (2 * of_int s + 1) < 4 * scaled then s + 1 else s)
             in Fin (of_int r * pow2 e))
      | PosInf \<Rightarrow> PosInf | NegInf \<Rightarrow> NaN | NaN \<Rightarrow> NaN)"

text \<open>The result is the nearest multiple of the unit in its last place.\<close>

lemma isqrt_floor:
  assumes "0 \<le> (x :: rat)"
  shows "of_int (isqrt \<lfloor>x\<rfloor>) * of_int (isqrt \<lfloor>x\<rfloor>) \<le> x"
    and "x < (of_int (isqrt \<lfloor>x\<rfloor>) + 1) * (of_int (isqrt \<lfloor>x\<rfloor>) + 1)"
proof -
  let ?s = "isqrt \<lfloor>x\<rfloor>"
  have s: "?s * ?s \<le> \<lfloor>x\<rfloor>" "\<lfloor>x\<rfloor> + 1 \<le> (?s + 1) * (?s + 1)"
    using isqrt_bounds [of "\<lfloor>x\<rfloor>"] assms by auto
  then have "of_int (?s * ?s) \<le> (of_int \<lfloor>x\<rfloor> :: rat)" "of_int (\<lfloor>x\<rfloor> + 1) \<le> (of_int ((?s + 1) * (?s + 1)) :: rat)"
    by (simp_all only: of_int_le_iff)
  then show "of_int ?s * of_int ?s \<le> x" "x < (of_int ?s + 1) * (of_int ?s + 1)"
    by (simp_all add: le_floor_iff) linarith+
qed

lemma sqrt64_nearest:
  assumes "0 < x"
  shows "\<exists>r :: int. \<exists>e. sqrt64 (Fin x) = Fin (of_int r * pow2 e)
    \<and> 4 * (x / pow2 (2 * e)) \<le> (2 * of_int r + 1) * (2 * of_int r + 1)
    \<and> (0 < r \<longrightarrow> (2 * of_int r - 1) * (2 * of_int r - 1) \<le> 4 * (x / pow2 (2 * e)))"
proof -
  define e where "e = rat_log2 x div 2 - 52"
  define y where "y = x / pow2 (2 * e)"
  define s where "s = isqrt \<lfloor>y\<rfloor>"
  define r where "r = (if (2 * of_int s + 1) * (2 * of_int s + 1) < 4 * y then s + 1 else s)"
  have "0 \<le> y" using assms less_imp_le [OF pow2_pos] by (simp add: y_def)
  then have s: "0 \<le> s" "of_int s * of_int s \<le> y" "y < (of_int s + 1) * (of_int s + 1)"
    using isqrt_floor [of y] isqrt_bounds [of "\<lfloor>y\<rfloor>"] by (auto simp: s_def)
  have "4 * y \<le> (2 * of_int r + 1) * (2 * of_int r + 1)"
    using s by (auto simp: r_def algebra_simps)
  moreover have "(2 * of_int r - 1) * (2 * of_int r - 1) \<le> 4 * y" if "0 < r"
  proof (cases "r = s")
    case True
    then have "(1 :: rat) \<le> of_int s" using that by simp
    with s(2) show ?thesis by (simp add: True algebra_simps)
  next
    case False
    then show ?thesis by (auto simp: r_def algebra_simps split: if_splits)
  qed
  moreover have "sqrt64 (Fin x) = Fin (of_int r * pow2 e)"
    using assms by (simp add: sqrt64_def Let_def r_def s_def y_def e_def)
  ultimately show ?thesis unfolding y_def by blast
qed

text \<open>\<open>1.0 / v\<close> for a value that is not zero.\<close>

definition recip64 :: "flt \<Rightarrow> flt" where
  "recip64 v = (case v of Fin x \<Rightarrow> f64 (1 / x) | NaN \<Rightarrow> NaN | _ \<Rightarrow> Fin 0)"

definition to_float :: "flt \<Rightarrow> flt" where
  "to_float v = (case v of Fin x \<Rightarrow> f32 x | _ \<Rightarrow> v)"

section \<open>Normalising a vector\<close>

definition l2_scale :: "flt list \<Rightarrow> flt" where
  "l2_scale values =
     (let sum_sq = foldl (\<lambda>s v. add64 s (mul64 v v)) (Fin 0) values
      in if flt_lt (Fin 0) sum_sq then recip64 (sqrt64 sum_sq) else Fin 0)"

definition l2_normalized :: "flt list \<Rightarrow> int \<Rightarrow> flt list" where
  "l2_normalized values n =
     (let vs = take (nat n) values; scale = l2_scale vs in map (\<lambda>v. to_float (mul64 v scale)) vs)"

section \<open>Embedding\<close>

text \<open>The loop that measures every input before any is decoded; \<open>i\<close> is the index of the next.\<close>

fun measure_inputs ::
  "('c, 'h, 'g) llama_api \<Rightarrow> nat \<Rightarrow> bytes list \<Rightarrow> nat \<Rightarrow> token list list \<Rightarrow> exn + token list list" where
  "measure_inputs api limit [] i acc = Inr acc"
| "measure_inputs api limit (t # ts) i acc =
     (case tokenize api t True True of
        Inl e \<Rightarrow> Inl e
      | Inr tokens \<Rightarrow>
          if tokens = [] then Inl (EngineError (''input '' @ dec_nat i @ '' tokenized to zero tokens''))
          else if limit < length tokens
          then Inl (EngineError (''input '' @ dec_nat i @ '' is too long: '' @ dec_nat (length tokens)
                 @ '' tokens, and one input may have at most '' @ dec_nat limit))
          else measure_inputs api limit ts (Suc i) (acc @ [tokens]))"

text \<open>One round of the decoding loop: an input is decoded, and its vector added to the result.\<close>

definition embed_one ::
  "('c, 'h, 'g) llama_api \<Rightarrow> token list \<Rightarrow> embed_result \<Rightarrow> 'c impl \<Rightarrow> (exn + embed_result) \<times> 'c impl" where
  "embed_one api tokens result st =
     (case api_decode api (api_memory_clear api (ctx st)) tokens of
        (Inl e, c) \<Rightarrow> (Inl e, st\<lparr>ctx := c\<rparr>)
      | (Inr ret, c) \<Rightarrow>
          (let st = st\<lparr>ctx := c\<rparr> in
           if ret \<noteq> 0
           then (Inl (StdException (''llama_decode failed on an embedding input (code '' @ dec_int ret @ '')'')), st)
           else
             (case api_embeddings_seq api c of
                None \<Rightarrow> (Inl (StdException ''the model produced no pooled embedding''), st)
              | Some pooled \<Rightarrow>
                  (Inr \<lparr>er_embeddings = er_embeddings result @ [l2_normalized pooled (api_n_embd_out api)],
                        er_input_tokens = add_i32 (er_input_tokens result) (i32 (length tokens))\<rparr>, st))))"

text \<open>The loop; \<open>going i\<close> is the answer of the \<open>i\<close>th call of \<open>keep_going\<close>.\<close>

definition told_to_stop :: "(nat \<Rightarrow> bool) option \<Rightarrow> nat \<Rightarrow> bool" where
  "told_to_stop going i = (case going of None \<Rightarrow> False | Some g \<Rightarrow> \<not> g i)"

fun embed_loop ::
  "('c, 'h, 'g) llama_api \<Rightarrow> (nat \<Rightarrow> bool) option \<Rightarrow> token list list \<Rightarrow> nat \<Rightarrow> embed_result \<Rightarrow> 'c impl
     \<Rightarrow> (exn + embed_result) \<times> 'c impl" where
  "embed_loop api going [] i result st = (Inr result, st)"
| "embed_loop api going (tokens # rest) i result st =
     (if told_to_stop going i then (Inr result, st)
      else
        (case embed_one api tokens result st of
           (Inl e, st) \<Rightarrow> (Inl e, st)
         | (Inr result, st) \<Rightarrow> embed_loop api going rest (Suc i) result st))"

definition embed ::
  "('c, 'h, 'g) llama_api \<Rightarrow> bytes list \<Rightarrow> (nat \<Rightarrow> bool) option \<Rightarrow> 'c impl \<Rightarrow> (exn + embed_result) \<times> 'c impl" where
  "embed api inputs going st =
     (if \<not> embeddings st
      then (Inl (EngineError ''the model is not an embedding model: its GGUF declares no pooling type''), st)
      else
        (case measure_inputs api (max_embed_tokens st) inputs 0 [] of
           Inl e \<Rightarrow> (Inl e, st)
         | Inr tokenized \<Rightarrow>
             embed_loop api going tokenized 0 \<lparr>er_embeddings = [], er_input_tokens = 0\<rparr> st))"

section \<open>Each input alone\<close>

lemma l2_scale_zeros: "(\<forall>v\<in>set vs. v = Fin 0) \<Longrightarrow> l2_scale vs = Fin 0"
proof -
  assume zeros: "\<forall>v\<in>set vs. v = Fin 0"
  then have "foldl (\<lambda>s v. add64 s (mul64 v v)) (Fin 0) vs = Fin 0"
    by (induction vs) (auto simp: mul64_def f64_def round_flt_def)
  then show ?thesis by (simp add: l2_scale_def)
qed

lemma l2_normalized_zeros: "l2_normalized (replicate k (Fin 0)) (int k) = replicate k (Fin 0)"
  using l2_scale_zeros [of "replicate k (Fin 0)"]
  by (simp add: l2_normalized_def Let_def mul64_def to_float_def f64_def round_flt_def)

lemma length_l2_normalized [simp]: "length (l2_normalized vs n) = min (length vs) (nat n)"
  by (simp add: l2_normalized_def Let_def)

lemma measure_inputs_all:
  assumes "vocab_laws api tok piece"
  shows "measure_inputs api limit ts i acc = Inr r \<Longrightarrow> \<forall>t\<in>set ts. fits_i32 t \<Longrightarrow>
      r = acc @ map (\<lambda>t. tok t True True) ts
      \<and> (\<forall>t\<in>set ts. tok t True True \<noteq> [] \<and> length (tok t True True) \<le> limit \<and> length (tok t True True) < 2 ^ 31)"
proof (induction ts arbitrary: i acc)
  case (Cons t ts)
  have t: "tokenize api t True True = Inr (tok t True True)" "tok t True True \<noteq> []"
    "length (tok t True True) \<le> limit" "length (tok t True True) < 2 ^ 31"
    using Cons.prems by (auto simp: tokenize_tok [OF assms] split: if_splits)
  then have "measure_inputs api limit ts (Suc i) (acc @ [tok t True True]) = Inr r"
    using Cons.prems by simp
  from Cons.IH [OF this] Cons.prems(2) t show ?case by simp
qed simp

lemma measure_inputs_bad:
  assumes "vocab_laws api tok piece" "\<exists>t\<in>set ts. tok t True True = [] \<or> limit < length (tok t True True)"
    "\<forall>t\<in>set ts. fits_i32 t"
  shows "\<exists>m. measure_inputs api limit ts i acc = Inl (EngineError m)"
  using assms(2,3)
proof (induction ts arbitrary: i acc)
  case (Cons t ts)
  then show ?case
    by (cases "tok t True True = [] \<or> limit < length (tok t True True)")
      (auto simp: tokenize_tok [OF assms(1)])
qed simp

text \<open>
  The vector that a decode leaves depends on the tokens decoded alone, when the memory was empty.
\<close>

definition pool_laws :: "('c, 'h, 'g) llama_api \<Rightarrow> (token list \<Rightarrow> flt list option) \<Rightarrow> bool" where
  "pool_laws api pool \<longleftrightarrow>
     (\<forall>c xs c'. api_decode api (api_memory_clear api c) xs = (Inr 0, c') \<longrightarrow> api_embeddings_seq api c' = pool xs)"

lemma embed_loop_Inr:
  assumes "pool_laws api pool"
  shows "embed_loop api going ts i result st = (Inr r, st') \<Longrightarrow>
    \<exists>k\<le>length ts.
      (\<forall>x\<in>set (take k ts). pool x \<noteq> None)
      \<and> er_embeddings r = er_embeddings result @ map (\<lambda>x. l2_normalized (the (pool x)) (api_n_embd_out api)) (take k ts)
      \<and> er_input_tokens r = foldl (\<lambda>n x. add_i32 n (i32 (length x))) (er_input_tokens result) (take k ts)
      \<and> (\<forall>g. going = Some g \<longrightarrow> (\<forall>j<k. g (i + j)) \<and> (k < length ts \<longrightarrow> \<not> g (i + k)))
      \<and> (going = None \<longrightarrow> k = length ts)
      \<and> cached st' = cached st"
proof (induction ts arbitrary: i result st)
  case Nil
  then show ?case by auto
next
  case (Cons x ts)
  show ?case
  proof (cases "told_to_stop going i")
    case True
    with Cons.prems show ?thesis by (intro exI [of _ 0]) (auto simp: told_to_stop_def split: option.splits)
  next
    case False
    with Cons.prems obtain c vs where dec: "api_decode api (api_memory_clear api (ctx st)) x = (Inr 0, c)"
      "api_embeddings_seq api c = Some vs"
      and rest: "embed_loop api going ts (Suc i)
         \<lparr>er_embeddings = er_embeddings result @ [l2_normalized vs (api_n_embd_out api)],
          er_input_tokens = add_i32 (er_input_tokens result) (i32 (length x))\<rparr> (st\<lparr>ctx := c\<rparr>) = (Inr r, st')"
      by (auto simp: embed_one_def Let_def split: prod.splits sum.splits if_splits option.splits)
    from dec assms have pool: "pool x = Some vs" by (auto simp: pool_laws_def)
    from Cons.IH [OF rest] obtain k where k: "k \<le> length ts" "\<forall>x\<in>set (take k ts). pool x \<noteq> None"
      "er_embeddings r = (er_embeddings result @ [l2_normalized vs (api_n_embd_out api)])
         @ map (\<lambda>x. l2_normalized (the (pool x)) (api_n_embd_out api)) (take k ts)"
      "er_input_tokens r = foldl (\<lambda>n x. add_i32 n (i32 (length x)))
         (add_i32 (er_input_tokens result) (i32 (length x))) (take k ts)"
      "\<forall>g. going = Some g \<longrightarrow> (\<forall>j<k. g (Suc i + j)) \<and> (k < length ts \<longrightarrow> \<not> g (Suc i + k))"
      "going = None \<longrightarrow> k = length ts" "cached st' = cached st" by auto
    have "\<forall>g. going = Some g \<longrightarrow> (\<forall>j<Suc k. g (i + j)) \<and> (Suc k < length (x # ts) \<longrightarrow> \<not> g (i + Suc k))"
      using k(5) False by (auto simp: told_to_stop_def less_Suc_eq_0_disj)
    with k pool show ?thesis by (intro exI [of _ "Suc k"]) simp
  qed
qed

text \<open>A result of \<open>embed\<close>, over the vocabulary and the pooling.\<close>

text \<open>The tokens of the inputs, as the result counts them.\<close>

definition count_i32 :: "token list list \<Rightarrow> int" where
  "count_i32 xs = foldl (\<lambda>n x. add_i32 n (i32 (length x))) 0 xs"

lemma count_i32_sum:
  "(\<Sum>x\<leftarrow>xs. int (length x)) < 2 ^ 31 \<Longrightarrow> count_i32 xs = (\<Sum>x\<leftarrow>xs. int (length x))"
  using sum_i32 [of 0 length xs] by (simp add: count_i32_def)

lemma embed_Inr:
  assumes "vocab_laws api tok piece" "pool_laws api pool" "embeddings st" "\<forall>t\<in>set inputs. fits_i32 t"
    and run: "embed api inputs going st = (Inr result, st')"
  shows "(\<forall>t\<in>set inputs. tok t True True \<noteq> [] \<and> length (tok t True True) \<le> max_embed_tokens st)
    \<and> (\<exists>k\<le>length inputs.
        er_embeddings result
          = map (\<lambda>t. l2_normalized (the (pool (tok t True True))) (api_n_embd_out api)) (take k inputs)
        \<and> er_input_tokens result = count_i32 (map (\<lambda>t. tok t True True) (take k inputs))
        \<and> (\<forall>g. going = Some g \<longrightarrow> (\<forall>j<k. g j) \<and> (k < length inputs \<longrightarrow> \<not> g k))
        \<and> (going = None \<longrightarrow> k = length inputs))
    \<and> cached st' = cached st"
proof (intro conjI)
  from run obtain ts where ts: "measure_inputs api (max_embed_tokens st) inputs 0 [] = Inr ts"
    and loop: "embed_loop api going ts 0 \<lparr>er_embeddings = [], er_input_tokens = 0\<rparr> st = (Inr result, st')"
    using assms(3) by (auto simp: embed_def split: sum.splits)
  have all: "ts = map (\<lambda>t. tok t True True) inputs"
    "\<forall>t\<in>set inputs. tok t True True \<noteq> [] \<and> length (tok t True True) \<le> max_embed_tokens st
       \<and> length (tok t True True) < 2 ^ 31"
    using measure_inputs_all [OF assms(1) ts assms(4)] by simp_all
  then show "\<forall>t\<in>set inputs. tok t True True \<noteq> [] \<and> length (tok t True True) \<le> max_embed_tokens st" by blast
  from embed_loop_Inr [OF assms(2) loop] obtain k where k: "k \<le> length ts"
    "er_embeddings result = map (\<lambda>x. l2_normalized (the (pool x)) (api_n_embd_out api)) (take k ts)"
    "er_input_tokens result = count_i32 (take k ts)"
    "\<forall>g. going = Some g \<longrightarrow> (\<forall>j<k. g (0 + j)) \<and> (k < length ts \<longrightarrow> \<not> g (0 + k))"
    "going = None \<longrightarrow> k = length ts" "cached st' = cached st" by (auto simp: count_i32_def)
  then show "\<exists>k\<le>length inputs.
      er_embeddings result
        = map (\<lambda>t. l2_normalized (the (pool (tok t True True))) (api_n_embd_out api)) (take k inputs)
      \<and> er_input_tokens result = count_i32 (map (\<lambda>t. tok t True True) (take k inputs))
      \<and> (\<forall>g. going = Some g \<longrightarrow> (\<forall>j<k. g j) \<and> (k < length inputs \<longrightarrow> \<not> g k))
      \<and> (going = None \<longrightarrow> k = length inputs)"
    by (intro exI [of _ k]) (simp add: all(1) take_map comp_def)
  show "cached st' = cached st" by (rule k(6))
qed

lemma embed_refused:
  assumes "vocab_laws api tok piece" "embeddings st" "\<forall>t\<in>set inputs. fits_i32 t"
    and "\<exists>t\<in>set inputs. tok t True True = [] \<or> max_embed_tokens st < length (tok t True True)"
  shows "\<exists>m. embed api inputs going st = (Inl (EngineError m), st)"
proof -
  from measure_inputs_bad [OF assms(1,4,3), of 0 "[]"] obtain m
    where "measure_inputs api (max_embed_tokens st) inputs 0 [] = Inl (EngineError m)" by blast
  then show ?thesis using assms(2) by (simp add: embed_def)
qed

text \<open>
  An embedding depends on its own input alone, not on the batch it came in nor on anything the
  engine did before: the results are, in order, the normalised vectors that the model pools from the
  tokens of each input. Short of the whole batch it stops only where the client was found gone, and
  the token count is that of the inputs embedded, as an \<open>int32_t\<close> holds it. An input that is empty or
  too long for the model refuses the whole request before anything is decoded.
\<close>

theorem each_input_is_embedded_alone:
  assumes "vocab_laws api tok piece" and "pool_laws api pool" and "embeddings st"
    and "\<forall>t\<in>set inputs. fits_i32 t"
  shows "(\<forall>result st'. embed api inputs going st = (Inr result, st') \<longrightarrow>
      (\<forall>t\<in>set inputs. tok t True True \<noteq> [] \<and> length (tok t True True) \<le> max_embed_tokens st)
      \<and> (\<exists>k\<le>length inputs.
          er_embeddings result
            = map (\<lambda>t. l2_normalized (the (pool (tok t True True))) (api_n_embd_out api)) (take k inputs)
          \<and> er_input_tokens result = count_i32 (map (\<lambda>t. tok t True True) (take k inputs))
          \<and> (\<forall>g. going = Some g \<longrightarrow> (\<forall>j<k. g j) \<and> (k < length inputs \<longrightarrow> \<not> g k))
          \<and> (going = None \<longrightarrow> k = length inputs))
      \<and> cached st' = cached st)
    \<and> ((\<exists>t\<in>set inputs. tok t True True = [] \<or> max_embed_tokens st < length (tok t True True)) \<longrightarrow>
        (\<exists>m. embed api inputs going st = (Inl (EngineError m), st)))"
  by (intro conjI allI impI)
    (rule embed_Inr [OF assms, THEN conjunct1], assumption,
     rule embed_Inr [OF assms, THEN conjunct2, THEN conjunct1], assumption,
     rule embed_Inr [OF assms, THEN conjunct2, THEN conjunct2], assumption,
     rule embed_refused [OF assms(1,3,4)], assumption)

definition sample_embedder :: "token list impl" where
  "sample_embedder = sample_impl [1]\<lparr>embeddings := True, max_embed_tokens := 3\<rparr>"

lemma sample_pool_laws: "pool_laws sample_api (\<lambda>xs. Some [Fin 3, Fin 4])"
  by (simp add: pool_laws_def sample_api_def)

theorem each_input_is_embedded_alone_witness:
  "\<exists>result st'. embed sample_api [''ab'', ''c''] (Some (\<lambda>i. i = 0)) sample_embedder = (Inr result, st')
    \<and> er_embeddings result = [l2_normalized [Fin 3, Fin 4] 2] \<and> er_input_tokens result = 2
    \<and> embed sample_api [''ab'', ''abca''] None sample_embedder
        = (Inl (EngineError ''input 1 is too long: 4 tokens, and one input may have at most 3''), sample_embedder)"
proof -
  have emb: "embeddings sample_embedder" "max_embed_tokens sample_embedder = 3"
    by (simp_all add: sample_embedder_def)
  have toks: "tokenize sample_api ''ab'' True True = Inr [1, 2]" "tokenize sample_api ''c'' True True = Inr [3]"
    "tokenize sample_api ''abca'' True True = Inr [1, 2, 3, 1]"
    by code_simp+
  have sel: "api_decode sample_api c xs = (Inr 0, c @ xs)" "api_memory_clear sample_api c = []"
    "api_embeddings_seq sample_api c = Some [Fin 3, Fin 4]" for c xs
    by (simp_all add: sample_api_def)
  have "fst (embed sample_api [''ab'', ''c''] (Some (\<lambda>i. i = 0)) sample_embedder) \<noteq> Inl e" for e
    by (simp add: embed_def embed_one_def told_to_stop_def emb toks sel)
  then obtain result st' where
    run: "embed sample_api [''ab'', ''c''] (Some (\<lambda>i. i = 0)) sample_embedder = (Inr result, st')"
    by (metis old.sum.exhaust prod.collapse)
  have fits: "\<forall>t\<in>set [''ab'', ''c'']. fits_i32 t" "\<forall>t\<in>set [''ab'', ''abca'']. fits_i32 t"
    by (simp_all add: fits_i32_def)
  note laws = each_input_is_embedded_alone [OF sample_vocab_laws sample_pool_laws emb(1)]
  have n: "api_n_embd_out sample_api = 2" by (simp add: sample_api_def)
  from conjunct1 [OF conjunct2 [OF mp [OF spec [OF spec [OF conjunct1 [OF laws [OF fits(1)]]]] run]]] obtain k where
    "k \<le> length [''ab'', ''c'']"
    "er_embeddings result = map (\<lambda>t. l2_normalized (the (Some [Fin 3, Fin 4])) (api_n_embd_out sample_api))
       (take k [''ab'', ''c''])"
    "er_input_tokens result = count_i32 (map (map sample_token) (take k [''ab'', ''c'']))"
    "\<forall>g. Some (\<lambda>i. i = 0) = Some g \<longrightarrow> (\<forall>j<k. g j) \<and> (k < length [''ab'', ''c''] \<longrightarrow> \<not> g k)"
    by blast
  then have k: "k \<le> 2" "er_embeddings result = map (\<lambda>t. l2_normalized [Fin 3, Fin 4] 2) (take k [''ab'', ''c''])"
      "er_input_tokens result = count_i32 (map (map sample_token) (take k [''ab'', ''c'']))"
      "\<forall>j<k. j = 0" "k < 2 \<longrightarrow> k \<noteq> 0"
    by (simp_all add: n)
  from k(1,4,5) have "k = 1" by (metis One_nat_def le_less less_2_cases lessI numeral_2_eq_2 zero_neq_one)
  moreover have "\<exists>m. embed sample_api [''ab'', ''abca''] None sample_embedder = (Inl (EngineError m), sample_embedder)"
    using laws [OF fits(2), of None] by (simp add: emb)
  moreover have "fst (embed sample_api [''ab'', ''abca''] None sample_embedder)
      = Inl (EngineError ''input 1 is too long: 4 tokens, and one input may have at most 3'')"
    by (simp add: embed_def emb toks) code_simp
  moreover have "count_i32 [map sample_token ''ab''] = 2"
    using count_i32_sum [of "[map sample_token ''ab'']"] by simp
  ultimately show ?thesis using run k by (intro exI [of _ result] exI [of _ st']) auto
qed

end
