(* ===== verification/Unit_Length.thy ===== *)
theory Unit_Length
  imports Embed
begin

text \<open>
  How good \<open>l2_normalized\<close> (src/engine.cpp) is: the rounding errors of the sum of squares, the root, the
  reciprocal and the products, put together. The numbers are exact rationals, and an error is stated
  relative to what would be exact.
\<close>

section \<open>Units\<close>

definition u53 :: rat where
  "u53 = pow2 (- 53)"

lemma u53: "u53 = 1 / 2 ^ 53"
  by (simp add: u53_def pow2_def)

lemma u53_pos: "0 < u53"
  by (simp add: u53_def)

lemma sum_step:
  fixes S T q b u c :: rat
  assumes "\<bar>S - T\<bar> \<le> c * u * T" "\<bar>q - b\<bar> \<le> u * b" "\<bar>S' - (S + q)\<bar> \<le> u * \<bar>S + q\<bar>"
    and "0 \<le> T" "0 \<le> b" "0 < u" "1 \<le> c" "c * u \<le> 1 / 2"
  shows "\<bar>S' - (T + b)\<bar> \<le> (c + 2) * u * (T + b)"
proof -
  define W where "W = T + b"
  define z where "z = c * u"
  have "u * b \<le> z * b" unfolding z_def using assms(5-7) by (intro mult_right_mono) auto
  moreover have "z * W = z * T + z * b" by (simp add: W_def distrib_left)
  ultimately have 1: "\<bar>S + q - W\<bar> \<le> z * W" using assms(1,2) by (simp add: W_def z_def)
  have W: "0 \<le> W" using assms(4,5) by (simp add: W_def)
  have "z * W \<le> 1 / 2 * W" unfolding z_def using assms(8) W by (intro mult_right_mono)
  then have "\<bar>S + q\<bar> \<le> 2 * W" using 1 W by linarith
  then have "u * \<bar>S + q\<bar> \<le> u * (2 * W)" using assms(6) by (intro mult_left_mono) auto
  then have "\<bar>S' - W\<bar> \<le> z * W + u * (2 * W)" using assms(3) 1 by linarith
  also have "\<dots> = (c + 2) * u * W" by (simp add: z_def algebra_simps)
  finally show ?thesis by (simp add: W_def)
qed

section \<open>Vectors of floats\<close>

text \<open>What a finite \<open>float\<close> can be.\<close>

definition float32 :: "flt \<Rightarrow> bool" where
  "float32 v \<longleftrightarrow> is_finite v \<and> (\<exists>x. v = f32 x)"

definition in_range :: "rat \<Rightarrow> bool" where
  "in_range a \<longleftrightarrow> (a = 0 \<or> pow2 (- 149) \<le> \<bar>a\<bar>) \<and> \<bar>a\<bar> \<le> pow2 128"

lemma round_flt_range:
  assumes "round_flt p emin emax x = Fin y"
  shows "(y = 0 \<or> pow2 emin \<le> \<bar>y\<bar>) \<and> \<bar>y\<bar> \<le> pow2 emax"
proof (cases "x = 0")
  case True
  with assms show ?thesis using less_imp_le [OF pow2_pos] by (simp add: round_flt_def)
next
  case False
  define e where "e = max (rat_log2 \<bar>x\<bar> - (int p - 1)) emin"
  define n where "n = round_even (x / pow2 e)"
  have y: "y = of_int n * pow2 e" "\<bar>y\<bar> < pow2 emax"
    using assms False by (auto simp: round_flt_def Let_def n_def e_def split: if_splits)
  have "pow2 emin \<le> \<bar>y\<bar>" if "n \<noteq> 0"
  proof -
    have "1 \<le> \<bar>n\<bar>" using that by linarith
    then have "(1 :: rat) \<le> \<bar>of_int n\<bar>" by (simp flip: of_int_abs)
    then have "1 * pow2 e \<le> \<bar>of_int n\<bar> * pow2 e" using less_imp_le [OF pow2_pos] by (intro mult_right_mono)
    then have "pow2 e \<le> \<bar>y\<bar>" by (simp add: y(1) abs_mult)
    moreover have "pow2 emin \<le> pow2 e" by (intro pow2_mono) (simp add: e_def)
    ultimately show ?thesis by linarith
  qed
  then show ?thesis using y less_imp_le [OF pow2_pos] by (cases "n = 0") simp_all
qed

lemma float32_in_range:
  assumes "float32 v"
  shows "\<exists>a. v = Fin a \<and> in_range a"
proof -
  obtain a x where "v = Fin a" "f32 x = Fin a" using assms by (cases v) (auto simp: float32_def)
  with round_flt_range [of 24 "- 149" 128 x a] show ?thesis by (simp add: in_range_def f32_def)
qed

lemma square_range:
  assumes "in_range a"
  shows "a * a = 0 \<or> pow2 (- 298) \<le> a * a" "a * a \<le> pow2 256"
proof -
  have "pow2 (- 298) = pow2 (- 149) * pow2 (- 149)" "pow2 256 = pow2 128 * pow2 128" by (simp_all add: pow2_def)
  moreover have "pow2 (- 149) * pow2 (- 149) \<le> \<bar>a\<bar> * \<bar>a\<bar>" if "pow2 (- 149) \<le> \<bar>a\<bar>"
    using that less_imp_le [OF pow2_pos] by (intro mult_mono) auto
  moreover have "\<bar>a\<bar> * \<bar>a\<bar> \<le> pow2 128 * pow2 128" if "\<bar>a\<bar> \<le> pow2 128"
    using that less_imp_le [OF pow2_pos] by (intro mult_mono) auto
  ultimately show "a * a = 0 \<or> pow2 (- 298) \<le> a * a" "a * a \<le> pow2 256"
    using assms by (auto simp: in_range_def)
qed

definition sum_sq :: "rat list \<Rightarrow> rat" where
  "sum_sq as = (\<Sum>a\<leftarrow>as. a * a)"

lemma sum_sq_nonneg: "0 \<le> sum_sq as"
  unfolding sum_sq_def by (intro sum_list_nonneg) auto

lemma sum_sq_snoc: "sum_sq (as @ [a]) = sum_sq as + a * a"
  by (simp add: sum_sq_def)

lemma sum_sq_range:
  assumes "\<forall>a\<in>set as. in_range a"
  shows "(sum_sq as = 0 \<or> pow2 (- 298) \<le> sum_sq as) \<and> sum_sq as \<le> of_nat (length as) * pow2 256"
  using assms
proof (induction as rule: rev_induct)
  case Nil
  then show ?case by (simp add: sum_sq_def)
next
  case (snoc a as)
  then have IH: "sum_sq as = 0 \<or> pow2 (- 298) \<le> sum_sq as" "sum_sq as \<le> of_nat (length as) * pow2 256" by simp_all
  have sq: "a * a = 0 \<or> pow2 (- 298) \<le> a * a" "a * a \<le> pow2 256" using square_range snoc.prems by simp_all
  have "0 \<le> a * a" by simp
  with IH sq(1) sum_sq_nonneg [of as] have "sum_sq as + a * a = 0 \<or> pow2 (- 298) \<le> sum_sq as + a * a" by linarith
  moreover have "sum_sq as + a * a \<le> of_nat (length (as @ [a])) * pow2 256"
    using IH(2) sq(2) by (simp add: algebra_simps)
  ultimately show ?case by (simp add: sum_sq_snoc)
qed

section \<open>The steps of the computation\<close>

text \<open>The sum that is computed: its relative error is at most \<open>2 * n + 2\<close> units.\<close>

definition computed_sum :: "flt list \<Rightarrow> flt" where
  "computed_sum vs = foldl (\<lambda>s v. add64 s (mul64 v v)) (Fin 0) vs"

lemma many_u53: "n \<le> 65536 \<Longrightarrow> (2 * of_nat n + 2) * u53 \<le> pow2 (- 35)"
proof -
  assume "n \<le> 65536"
  then have "(of_nat n :: rat) \<le> 65536" by simp
  then have "(2 * of_nat n + 2) * u53 \<le> (2 * 65536 + 2) * u53" using u53_pos by (intro mult_right_mono) auto
  also have "\<dots> \<le> pow2 (- 35)" by (simp add: u53 pow2_def)
  finally show ?thesis .
qed

lemma computed_sum_near:
  assumes "\<forall>a\<in>set as. in_range a" "length as \<le> 65536"
  shows "\<exists>S. computed_sum (map Fin as) = Fin S
    \<and> \<bar>S - sum_sq as\<bar> \<le> (2 * of_nat (length as) + 2) * u53 * sum_sq as"
  using assms
proof (induction as rule: rev_induct)
  case Nil
  then show ?case by (simp add: computed_sum_def sum_sq_def)
next
  case (snoc a as)
  let ?T = "sum_sq as" and ?c = "2 * of_nat (length as) + 2 :: rat"
  from snoc obtain S where S: "computed_sum (map Fin as) = Fin S" "\<bar>S - ?T\<bar> \<le> ?c * u53 * ?T" by auto
  have sq: "a * a = 0 \<or> pow2 (- 298) \<le> a * a" "a * a \<le> pow2 256" using square_range snoc.prems(1) by simp_all
  have T: "?T = 0 \<or> pow2 (- 298) \<le> ?T" "?T \<le> of_nat (length as) * pow2 256" "0 \<le> ?T"
    using sum_sq_range [of as] snoc.prems(1) sum_sq_nonneg by simp_all
  have c: "?c * u53 \<le> 1 / 2"
    using many_u53 [of "length as"] snoc.prems(2) pow2_mono [of "- 35" "- 1"] by (simp add: pow2_def [of "- 1"])
  have big: "pow2 256 * 65536 = pow2 272" "pow2 (- 298) = 2 * pow2 (- 299)" by (simp_all add: pow2_def)
  have "of_nat (length as) * pow2 256 \<le> 65536 * pow2 256"
    using snoc.prems(2) less_imp_le [OF pow2_pos] by (intro mult_right_mono) auto
  then have Tmax: "?T \<le> pow2 272" using T(2) big(1) by (simp add: mult.commute)
  have half: "?c * u53 * ?T \<le> 1 / 2 * ?T" using c T(3) by (intro mult_right_mono)
  have S2: "S \<le> 2 * ?T" "?T \<le> 2 * S" using S(2) half by linarith+
  have "\<exists>q. mul64 (Fin a) (Fin a) = Fin q \<and> \<bar>q - a * a\<bar> \<le> u53 * (a * a)"
    using f64_near [of "a * a"] sq pow2_mono [of "- 1000" "- 298"] pow2_mono [of 256 1000]
    by (auto simp: mul64_def u53_def)
  then obtain q where q: "mul64 (Fin a) (Fin a) = Fin q" "\<bar>q - a * a\<bar> \<le> u53 * (a * a)" by blast
  have "u53 * (a * a) \<le> 1 / 2 * (a * a)" by (intro mult_right_mono) (simp_all add: u53)
  then have q2: "q \<le> 2 * (a * a)" "a * a \<le> 2 * q" using q(2) by linarith+
  have "0 \<le> a * a" by simp
  then have nonneg: "0 \<le> S" "0 \<le> q" using S2 q2 T(3) by linarith+
  have low: "S + q = 0 \<or> pow2 (- 1000) \<le> \<bar>S + q\<bar>"
    using S2 q2 T(1) sq(1) nonneg big(2) pow2_mono [of "- 1000" "- 299"] by linarith
  have high: "\<bar>S + q\<bar> \<le> pow2 1000"
  proof -
    have "2 * pow2 272 + 2 * pow2 256 \<le> pow2 1000" by (simp add: pow2_def)
    then show ?thesis using S2 q2 Tmax sq(2) nonneg by linarith
  qed
  from f64_near [OF low high] obtain S' where S': "f64 (S + q) = Fin S'" "\<bar>S' - (S + q)\<bar> \<le> u53 * \<bar>S + q\<bar>"
    by (auto simp: u53_def)
  have "computed_sum (map Fin (as @ [a])) = Fin S'" using S(1) q(1) S'(1) by (simp add: computed_sum_def)
  moreover have "\<bar>S' - (?T + a * a)\<bar> \<le> (?c + 2) * u53 * (?T + a * a)"
    by (rule sum_step [OF S(2) q(2) S'(2) T(3) _ u53_pos _ c]) simp_all
  ultimately show ?case by (simp add: sum_sq_snoc algebra_simps)
qed

text \<open>The square of the computed root.\<close>

lemma sqrt64_near:
  assumes "0 < x"
  shows "\<exists>q. sqrt64 (Fin x) = Fin q \<and> 0 < q \<and> \<bar>x - q * q\<bar> \<le> pow2 (- 51) * (q * q)"
proof -
  define e where "e = rat_log2 x div 2 - 52"
  define y where "y = x / pow2 (2 * e)"
  define s where "s = isqrt \<lfloor>y\<rfloor>"
  define r where "r = (if (2 * of_int s + 1) * (2 * of_int s + 1) < 4 * y then s + 1 else s)"
  have sqrt: "sqrt64 (Fin x) = Fin (of_int r * pow2 e)"
    using assms by (simp add: sqrt64_def Let_def r_def s_def y_def e_def)
  have "pow2 104 * pow2 (2 * e) = pow2 (2 * e + 104)" by (simp add: pow2_powi power_int_add)
  also have "\<dots> \<le> pow2 (rat_log2 x)" by (intro pow2_mono) (simp add: e_def)
  also have "\<dots> \<le> x" by (rule pow2_rat_log2_le [OF assms])
  finally have y: "2 ^ 104 \<le> y" by (simp add: y_def pos_le_divide_eq pow2_def [of 104])
  then have "0 \<le> y" by (meson order_trans zero_le_numeral zero_le_power)
  then have s: "0 \<le> s" "of_int s * of_int s \<le> y" "y < (of_int s + 1) * (of_int s + 1)"
    using isqrt_floor [of y] isqrt_bounds [of "\<lfloor>y\<rfloor>"] by (auto simp: s_def)
  have "2 ^ 52 \<le> s"
  proof (rule ccontr)
    assume "\<not> 2 ^ 52 \<le> s"
    then have "s + 1 \<le> 2 ^ 52" by simp
    then have "(of_int (s + 1) :: rat) \<le> of_int (2 ^ 52)" by (simp only: of_int_le_iff)
    then have "(of_int s + 1) * (of_int s + 1) \<le> (2 ^ 52 * 2 ^ 52 :: rat)"
      using s(1) by (intro mult_mono) simp_all
    with s(3) y show False by simp
  qed
  then have s52: "(2 :: rat) ^ 52 \<le> of_int s" by (metis of_int_le_iff of_int_numeral of_int_power)
  have "2 ^ 52 \<le> r" using \<open>2 ^ 52 \<le> s\<close> by (simp add: r_def)
  then have r: "(2 :: rat) ^ 52 \<le> of_int r" by (metis of_int_le_iff of_int_numeral of_int_power)
  define R :: rat where "R = of_int r"
  have R: "2 ^ 52 \<le> R" using r by (simp add: R_def)
  have up: "y \<le> R * R + R + 1 / 4"
    using s(3) by (auto simp: r_def R_def algebra_simps)
  have down: "R * R - R + 1 / 4 \<le> y"
    using s(2) s52 by (auto simp: r_def R_def algebra_simps)
  define Z where "Z = R * R / 2 ^ 52"
  have "R \<le> Z" using mult_right_mono [OF R, of R] R by (simp add: Z_def field_simps)
  moreover have "R * R / 2 ^ 51 = 2 * Z" by (simp add: Z_def)
  moreover have "1 \<le> R" using R by simp
  ultimately have "\<bar>y - R * R\<bar> \<le> R * R / 2 ^ 51" using up down by linarith
  then have "\<bar>y - R * R\<bar> * pow2 (2 * e) \<le> R * R / 2 ^ 51 * pow2 (2 * e)"
    using less_imp_le [OF pow2_pos] by (intro mult_right_mono)
  moreover have sq: "(R * pow2 e) * (R * pow2 e) = R * R * pow2 (2 * e)"
    by (simp add: pow2_powi power_int_add [symmetric])
  moreover have "x - R * R * pow2 (2 * e) = (y - R * R) * pow2 (2 * e)" by (simp add: y_def left_diff_distrib)
  then have "\<bar>x - R * R * pow2 (2 * e)\<bar> = \<bar>y - R * R\<bar> * pow2 (2 * e)" by (simp add: abs_mult)
  moreover have "R * R / 2 ^ 51 * pow2 (2 * e) = pow2 (- 51) * (R * R * pow2 (2 * e))" by (simp add: pow2_def)
  ultimately have "\<bar>x - (R * pow2 e) * (R * pow2 e)\<bar> \<le> pow2 (- 51) * ((R * pow2 e) * (R * pow2 e))"
    unfolding sq by (simp only:)
  moreover have "0 < R * pow2 e" using R by (intro mult_pos_pos) simp_all
  ultimately show ?thesis using sqrt by (auto simp: R_def)
qed

lemma square_le:
  fixes x y :: rat
  assumes "x * x \<le> y * y" "0 \<le> y"
  shows "x \<le> y"
  using assms by (metis power2_eq_square power2_le_imp_le)

text \<open>The factor: almost the inverse of the length.\<close>

lemma l2_scale_near:
  assumes "\<forall>a\<in>set as. in_range a" "length as \<le> 65536" "sum_sq as \<noteq> 0"
  shows "\<exists>s. l2_scale (map Fin as) = Fin s \<and> \<bar>s * s * sum_sq as - 1\<bar> \<le> pow2 (- 30)
    \<and> pow2 (- 139) \<le> s"
proof -
  define T where "T = sum_sq as"
  obtain S where S: "computed_sum (map Fin as) = Fin S"
    "\<bar>S - T\<bar> \<le> (2 * of_nat (length as) + 2) * u53 * T"
    using computed_sum_near [OF assms(1,2)] by (auto simp: T_def)
  have T: "pow2 (- 298) \<le> T" "T \<le> pow2 272"
  proof -
    have "of_nat (length as) * pow2 256 \<le> 65536 * pow2 256"
      using assms(2) less_imp_le [OF pow2_pos] by (intro mult_right_mono) auto
    also have "\<dots> = pow2 272" by (simp add: pow2_def)
    finally show "T \<le> pow2 272" using sum_sq_range [OF assms(1)] by (simp add: T_def)
    show "pow2 (- 298) \<le> T" using sum_sq_range [OF assms(1)] assms(3) by (simp add: T_def)
  qed
  have T0: "0 < T" using T(1) pow2_pos less_le_trans by blast
  have "(2 * of_nat (length as) + 2) * u53 * T \<le> pow2 (- 35) * T"
    using many_u53 [OF assms(2)] T0 by (intro mult_right_mono) auto
  with S(2) have ST: "\<bar>S - T\<bar> \<le> pow2 (- 35) * T" by linarith
  have "pow2 (- 35) * T \<le> 1 / 2 * T" using T0 by (intro mult_right_mono) (simp_all add: pow2_def)
  with ST have S2: "T / 2 \<le> S" "S \<le> 2 * T" by linarith+
  then have S0: "0 < S" using T0 by linarith
  obtain q where q: "sqrt64 (Fin S) = Fin q" "0 < q" "\<bar>S - q * q\<bar> \<le> pow2 (- 51) * (q * q)"
    using sqrt64_near [OF S0] by blast
  have qq: "0 < q * q" using q(2) by simp
  have "pow2 (- 51) * (q * q) \<le> 1 / 2 * (q * q)" using qq by (intro mult_right_mono) (simp_all add: pow2_def)
  with q(3) have q2: "q * q \<le> 2 * S" "S \<le> 2 * (q * q)" by linarith+
  have qmax: "q \<le> pow2 138"
  proof (rule square_le)
    have "pow2 138 * pow2 138 = 16 * pow2 272" by (simp add: pow2_def)
    then show "q * q \<le> pow2 138 * pow2 138" using q2 S2 T(2) T0 by linarith
  qed (simp add: less_imp_le)
  have qmin: "pow2 (- 151) \<le> q"
  proof (rule square_le)
    have "pow2 (- 298) = 16 * (pow2 (- 151) * pow2 (- 151))" by (simp add: pow2_def)
    then show "pow2 (- 151) * pow2 (- 151) \<le> q * q" using q2 S2 T(1) by linarith
  qed (use q(2) in simp)
  have inv: "pow2 (- 138) \<le> 1 / q" "1 / q \<le> pow2 151"
    using frac_le [OF _ _ q(2) qmax, of 1 1] frac_le [OF _ _ pow2_pos qmin, of 1 1]
    by (simp_all add: pow2_def)
  have "\<exists>s. f64 (1 / q) = Fin s \<and> \<bar>s - 1 / q\<bar> \<le> pow2 (- 53) * \<bar>1 / q\<bar>"
  proof (rule f64_near)
    have pos: "\<bar>1 / q\<bar> = 1 / q" using q(2) by simp
    show "1 / q = 0 \<or> pow2 (- 1000) \<le> \<bar>1 / q\<bar>"
      unfolding pos using inv(1) pow2_mono [of "- 1000" "- 138"] by linarith
    show "\<bar>1 / q\<bar> \<le> pow2 1000" unfolding pos using inv(2) pow2_mono [of 151 1000] by linarith
  qed
  then obtain s where s: "f64 (1 / q) = Fin s" "\<bar>s - 1 / q\<bar> \<le> pow2 (- 53) * \<bar>1 / q\<bar>" by blast
  have "\<bar>s - 1 / q\<bar> * q \<le> pow2 (- 53) * \<bar>1 / q\<bar> * q" using s(2) q(2) by (intro mult_right_mono) auto
  moreover have "(s - 1 / q) * q = s * q - 1" using q(2) by (simp add: left_diff_distrib)
  then have "\<bar>s - 1 / q\<bar> * q = \<bar>s * q - 1\<bar>" using q(2) by (metis abs_mult abs_of_pos)
  ultimately have p: "\<bar>s * q - 1\<bar> \<le> pow2 (- 53)" using q(2) by simp
  define P where "P = (s * q) * (s * q)"
  have P: "\<bar>P - 1\<bar> \<le> pow2 (- 51)"
  proof -
    have "P - 1 = (s * q - 1) * (s * q + 1)" by (simp add: P_def algebra_simps)
    then have "\<bar>P - 1\<bar> = \<bar>s * q - 1\<bar> * \<bar>s * q + 1\<bar>" by (simp add: abs_mult)
    also have "\<dots> \<le> pow2 (- 53) * 3"
    proof (rule mult_mono)
      have "pow2 (- 53) \<le> 1" by (simp add: pow2_def)
      then show "\<bar>s * q + 1\<bar> \<le> 3" using p by linarith
    qed (use p in simp_all)
    finally show ?thesis by (simp add: pow2_def)
  qed
  define A where "A = s * s * T"
  define B where "B = s * s * S"
  have ss: "0 \<le> s * s" by simp
  have "s * s * \<bar>S - T\<bar> \<le> s * s * (pow2 (- 35) * T)" using ST ss by (intro mult_left_mono)
  then have BA: "\<bar>B - A\<bar> \<le> pow2 (- 35) * A"
    by (simp add: A_def B_def abs_mult flip: right_diff_distrib) (simp add: mult.left_commute mult.assoc)
  have "s * s * \<bar>S - q * q\<bar> \<le> s * s * (pow2 (- 51) * (q * q))" using q(3) ss by (intro mult_left_mono)
  moreover have "P = s * s * (q * q)" by (simp add: P_def)
  ultimately have BP: "\<bar>B - P\<bar> \<le> pow2 (- 51) * P"
    by (simp add: B_def abs_mult flip: right_diff_distrib) (simp add: mult.left_commute mult.assoc)
  have units: "pow2 (- 30) = 1 / 1073741824" "pow2 (- 35) = 1 / 34359738368" "pow2 (- 51) = 1 / 2251799813685248"
    by (simp_all add: pow2_def)
  have A: "\<bar>A - 1\<bar> \<le> pow2 (- 30)" using P BA BP unfolding units by linarith
  have smin: "pow2 (- 139) \<le> s"
  proof -
    have "pow2 (- 53) * \<bar>1 / q\<bar> \<le> 1 / 2 * \<bar>1 / q\<bar>"
      by (intro mult_right_mono) (simp_all add: pow2_def [of "- 53"])
    moreover have "\<bar>1 / q\<bar> = 1 / q" using q(2) by simp
    ultimately have "1 / q \<le> 2 * s" using s(2) q(2) by linarith
    moreover have "pow2 (- 138) = 2 * pow2 (- 139)" by (simp add: pow2_def)
    ultimately show ?thesis using inv(1) by linarith
  qed
  have "l2_scale (map Fin as) = Fin s"
    using S(1) S0 q(1,2) s(1) by (simp add: l2_scale_def computed_sum_def [symmetric] recip64_def)
  with A smin show ?thesis by (auto simp: A_def T_def)
qed

text \<open>One component of the result.\<close>

lemma component_near:
  assumes "in_range a" "pow2 (- 139) \<le> s" "a * s * (a * s) \<le> 4"
  shows "\<exists>c. to_float (mul64 (Fin a) (Fin s)) = Fin c \<and> \<bar>c - a * s\<bar> \<le> pow2 (- 23) * \<bar>a * s\<bar> + pow2 (- 149)"
proof -
  define x where "x = a * s"
  have s0: "0 < s" using assms(2) pow2_pos less_le_trans by blast
  have x: "\<bar>x\<bar> \<le> 2"
    by (rule square_le) (use assms(3) in \<open>simp_all add: x_def abs_mult_self_eq flip: abs_mult\<close>)
  have low: "x = 0 \<or> pow2 (- 1000) \<le> \<bar>x\<bar>"
  proof (cases "a = 0")
    case False
    then have "pow2 (- 149) * pow2 (- 139) \<le> \<bar>a\<bar> * s"
      using assms(1,2) less_imp_le [OF pow2_pos] by (intro mult_mono) (auto simp: in_range_def)
    moreover have "pow2 (- 1000) \<le> pow2 (- 149) * pow2 (- 139)" by (simp add: pow2_def)
    ultimately show ?thesis using s0 by (simp add: x_def abs_mult)
  qed (simp add: x_def)
  have "2 \<le> pow2 1000" by (simp add: pow2_def)
  then have "\<bar>x\<bar> \<le> pow2 1000" using x by linarith
  from f64_near [OF low this] obtain m where m: "f64 x = Fin m" "\<bar>m - x\<bar> \<le> pow2 (- 53) * \<bar>x\<bar>" by blast
  have "pow2 (- 53) * \<bar>x\<bar> \<le> 1 * \<bar>x\<bar>" by (intro mult_right_mono) (simp_all add: pow2_def)
  then have m4: "\<bar>m\<bar> \<le> 4" using m(2) x by linarith
  have "4 \<le> pow2 127" by (simp add: pow2_def)
  then have "\<bar>m\<bar> \<le> pow2 127" using m4 by linarith
  from f32_near [OF this] obtain c where c: "f32 m = Fin c" "\<bar>c - m\<bar> \<le> pow2 (- 24) * \<bar>m\<bar> + pow2 (- 150)" by blast
  have "\<bar>c - x\<bar> \<le> pow2 (- 23) * \<bar>x\<bar> + pow2 (- 149)"
    using c(2) m(2) by (simp add: pow2_def abs_le_iff abs_if split: if_splits)
  moreover have "to_float (mul64 (Fin a) (Fin s)) = Fin c"
    using m(1) c(1) by (simp add: mul64_def to_float_def x_def)
  ultimately show ?thesis by (auto simp: x_def)
qed

lemma square_near:
  fixes c x :: rat
  assumes "\<bar>c - x\<bar> \<le> pow2 (- 23) * \<bar>x\<bar> + pow2 (- 149)" "\<bar>x\<bar> \<le> 2"
  shows "\<bar>c * c - x * x\<bar> \<le> pow2 (- 21) * (x * x) + pow2 (- 140)"
proof -
  define d where "d = pow2 (- 23)"
  define n where "n = pow2 (- 149)"
  have d: "0 < d" "d \<le> 1 / 4" and n: "0 < n" "n \<le> 1 / 4" by (simp_all add: d_def n_def pow2_def)
  define z where "z = \<bar>x\<bar>"
  have z: "0 \<le> z" "z \<le> 2" using assms(2) by (simp_all add: z_def)
  have cx: "\<bar>c - x\<bar> \<le> d * z + n" using assms(1) by (simp add: d_def n_def z_def)
  have "d * z \<le> 1 / 4 * z" using d z by (intro mult_right_mono)
  then have "\<bar>c + x\<bar> \<le> 3 * z + n" using cx z(1) by (simp add: z_def)
  then have "\<bar>c - x\<bar> * \<bar>c + x\<bar> \<le> (d * z + n) * (3 * z + n)"
    using cx d n z by (intro mult_mono) auto
  also have "\<dots> = 3 * d * (z * z) + n * (d * z + 3 * z + n)" by (simp add: algebra_simps)
  also have "\<dots> \<le> 4 * d * (z * z) + n * 512"
  proof (rule add_mono)
    have "0 \<le> z * z" by simp
    then show "3 * d * (z * z) \<le> 4 * d * (z * z)" using d by (intro mult_right_mono) auto
    have "d * z \<le> 1 / 4 * 2" using d z by (intro mult_mono) auto
    then show "n * (d * z + 3 * z + n) \<le> n * 512" using z n by (intro mult_left_mono) auto
  qed
  also have "\<dots> = pow2 (- 21) * (x * x) + pow2 (- 140)" by (simp add: d_def n_def z_def pow2_def)
  finally have "\<bar>c - x\<bar> * \<bar>c + x\<bar> \<le> pow2 (- 21) * (x * x) + pow2 (- 140)" .
  moreover have "c * c - x * x = (c - x) * (c + x)" by (simp add: algebra_simps)
  ultimately show ?thesis by (simp add: abs_mult)
qed

lemma sum_sq_near:
  assumes "\<forall>a\<in>set as. \<bar>f a - a * s\<bar> \<le> pow2 (- 23) * \<bar>a * s\<bar> + pow2 (- 149) \<and> \<bar>a * s\<bar> \<le> 2"
  shows "\<bar>sum_sq (map f as) - s * s * sum_sq as\<bar> \<le> pow2 (- 21) * (s * s * sum_sq as) + of_nat (length as) * pow2 (- 140)"
  using assms
proof (induction as rule: rev_induct)
  case Nil
  then show ?case by (simp add: sum_sq_def)
next
  case (snoc a as)
  have "\<bar>f a * f a - a * s * (a * s)\<bar> \<le> pow2 (- 21) * (a * s * (a * s)) + pow2 (- 140)"
    using snoc.prems by (intro square_near) auto
  moreover have "a * s * (a * s) = s * s * (a * a)" by simp
  ultimately have "\<bar>f a * f a - s * s * (a * a)\<bar> \<le> pow2 (- 21) * (s * s * (a * a)) + pow2 (- 140)" by (simp only:)
  moreover have "\<bar>sum_sq (map f as) - s * s * sum_sq as\<bar>
      \<le> pow2 (- 21) * (s * s * sum_sq as) + of_nat (length as) * pow2 (- 140)"
    using snoc by simp
  ultimately show ?case unfolding map_append sum_sq_snoc list.map length_append_singleton of_nat_Suc distrib_left distrib_right
    by linarith
qed

section \<open>The result\<close>

text \<open>
  C14. An embedding is a unit vector. For a pooled vector of at most 65536 finite floats that are not
  all zero, however large or small they are, every component of the result is finite and is the
  component it came from times one positive factor, up to rounding to \<open>float\<close>, and the squares of the
  result add up to one within \<open>2 ^ -20\<close>.
\<close>

theorem embedding_has_unit_length:
  assumes "length values \<le> 65536" and "\<forall>v\<in>set values. float32 v" and "\<exists>v\<in>set values. v \<noteq> Fin 0"
  shows "\<exists>as cs s. values = map Fin as \<and> l2_normalized values (int (length values)) = map Fin cs
    \<and> 0 < s \<and> list_all2 (\<lambda>a c. \<bar>c - a * s\<bar> \<le> pow2 (- 23) * \<bar>a * s\<bar> + pow2 (- 149)) as cs
    \<and> \<bar>(\<Sum>c\<leftarrow>cs. c * c) - 1\<bar> \<le> pow2 (- 20)"
proof -
  have "\<forall>v\<in>set values. \<exists>a. v = Fin a \<and> in_range a" using assms(2) float32_in_range by blast
  then obtain g where g: "\<And>v. v \<in> set values \<Longrightarrow> v = Fin (g v) \<and> in_range (g v)" by metis
  define as where "as = map g values"
  have v: "values = map Fin as" using g by (simp add: as_def map_idI)
  have range: "\<forall>a\<in>set as. in_range a" using g by (auto simp: as_def)
  have n: "length as \<le> 65536" using assms(1) by (simp add: as_def)
  obtain b where b: "b \<in> set as" "b \<noteq> 0" using assms(3) v by auto
  have T: "sum_sq as \<noteq> 0"
  proof
    assume "sum_sq as = 0"
    then have "\<forall>a\<in>set (map (\<lambda>a. a * a) as). a = 0"
      unfolding sum_sq_def by (subst (asm) sum_list_nonneg_eq_0_iff) auto
    with b show False by auto
  qed
  obtain s where s: "l2_scale (map Fin as) = Fin s" "\<bar>s * s * sum_sq as - 1\<bar> \<le> pow2 (- 30)" "pow2 (- 139) \<le> s"
    using l2_scale_near [OF range n T] by blast
  have units: "pow2 (- 30) = 1 / 1073741824" "pow2 (- 21) = 1 / 2097152" "pow2 (- 20) = 1 / 1048576"
    "pow2 (- 140) * 65536 \<le> 1 / 1073741824"
    by (simp_all add: pow2_def)
  have each: "a * s * (a * s) \<le> 4" if "a \<in> set as" for a
  proof -
    have "a * a \<le> sum_sq as"
      unfolding sum_sq_def using that by (intro member_le_sum_list) auto
    then have "s * s * (a * a) \<le> s * s * sum_sq as" by (intro mult_left_mono) auto
    moreover have "a * s * (a * s) = s * s * (a * a)" by simp
    ultimately show ?thesis using s(2) unfolding units by linarith
  qed
  have two: "\<bar>a * s\<bar> \<le> 2" if "a \<in> set as" for a
    by (rule square_le) (use each [OF that] in \<open>simp_all flip: abs_mult\<close>)
  have "\<forall>a\<in>set as. \<exists>c. to_float (mul64 (Fin a) (Fin s)) = Fin c
      \<and> \<bar>c - a * s\<bar> \<le> pow2 (- 23) * \<bar>a * s\<bar> + pow2 (- 149)"
    using component_near [OF _ s(3)] range each by blast
  then obtain f where f: "\<And>a. a \<in> set as \<Longrightarrow> to_float (mul64 (Fin a) (Fin s)) = Fin (f a)
      \<and> \<bar>f a - a * s\<bar> \<le> pow2 (- 23) * \<bar>a * s\<bar> + pow2 (- 149)" by metis
  have out: "l2_normalized values (int (length values)) = map Fin (map f as)"
    using f s(1) by (simp add: l2_normalized_def Let_def v)
  have near: "\<bar>sum_sq (map f as) - s * s * sum_sq as\<bar>
      \<le> pow2 (- 21) * (s * s * sum_sq as) + of_nat (length as) * pow2 (- 140)"
    using f two by (intro sum_sq_near) blast
  have "(of_nat (length as) :: rat) \<le> 65536" using n by simp
  then have "of_nat (length as) * pow2 (- 140) \<le> 65536 * pow2 (- 140)"
    by (intro mult_right_mono) (simp_all add: less_imp_le)
  then have "\<bar>sum_sq (map f as) - 1\<bar> \<le> pow2 (- 20)"
    using near s(2) units(4) unfolding units(1-3) by linarith
  moreover have "list_all2 (\<lambda>a c. \<bar>c - a * s\<bar> \<le> pow2 (- 23) * \<bar>a * s\<bar> + pow2 (- 149)) as (map f as)"
    using f by (simp add: list_all2_conv_all_nth)
  moreover have "0 < s" using s(3) pow2_pos less_le_trans by blast
  ultimately show ?thesis using v out by (intro exI [of _ as] exI [of _ "map f as"] exI [of _ s]) (simp add: sum_sq_def)
qed

theorem embedding_has_unit_length_witness:
  "\<exists>as cs s. [Fin 3, Fin 4] = map Fin as \<and> l2_normalized [Fin 3, Fin 4] 2 = map Fin cs
    \<and> 0 < s \<and> list_all2 (\<lambda>a c. \<bar>c - a * s\<bar> \<le> pow2 (- 23) * \<bar>a * s\<bar> + pow2 (- 149)) as cs
    \<and> \<bar>(\<Sum>c\<leftarrow>cs. c * c) - 1\<bar> \<le> pow2 (- 20)"
proof -
  have "float32 (Fin 3)" "float32 (Fin 4)"
    using f32_of_int [of 3] f32_of_int [of 4] by (auto simp: float32_def intro: sym)
  then show ?thesis using embedding_has_unit_length [of "[Fin 3, Fin 4]"] by simp
qed

end
