(* ===== verification/Service.thy ===== *)
theory Service
  imports Generate Chat_Format Wire Embed
begin

text \<open>
  \<open>LlamaService\<close> of src/service.cpp. What the handlers cannot know is a parameter: the answers of
  \<open>IsCancelled\<close> and of \<open>Write\<close>, as functions of how often they were asked. A handler is a function
  from the engine's state to a status, the new state and the messages written. Log lines are
  in Messages. The theory shows the shape of a stream, that nothing is sent to a client that has gone, the
  status of every failure, and that a refused request leaves the engine alone.
\<close>

section \<open>Status\<close>

datatype status_code = OK | INVALID_ARGUMENT | FAILED_PRECONDITION | INTERNAL | CANCELLED

record grpc_status =
  code :: status_code
  message :: bytes

definition status_ok :: grpc_status where
  "status_ok = \<lparr>code = OK, message = []\<rparr>"

text \<open>The handlers of \<open>guarded\<close>, in their order.\<close>

fun guarded :: "exn + grpc_status \<Rightarrow> grpc_status" where
  "guarded (Inr s) = s"
| "guarded (Inl (EngineError m)) = \<lparr>code = INVALID_ARGUMENT, message = m\<rparr>"
| "guarded (Inl (ChatFormatError m)) = \<lparr>code = INVALID_ARGUMENT, message = m\<rparr>"
| "guarded (Inl (StdException m)) = \<lparr>code = INTERNAL, message = m\<rparr>"
| "guarded (Inl OtherException) = \<lparr>code = INTERNAL, message = ''unknown error''\<rparr>"

definition embedding_model_message :: bytes where
  "embedding_model_message =
     ''the model is an embedding model: it serves Embed, not Generate or Chat''"

section \<open>Streaming\<close>

text \<open>What the client answers: to the \<open>n\<close>th question whether it cancelled, to the \<open>n\<close>th write.\<close>

record client =
  cl_cancelled :: "nat \<Rightarrow> bool"
  cl_accepts :: "nat \<Rightarrow> bool"

text \<open>The local state of \<open>stream_generation\<close>; each write is recorded with its answer.\<close>

record 's rpc =
  rpc_asked :: nat
  rpc_writes :: "(generate_chunk \<times> bool) list"
  rpc_gone :: bool
  rpc_stream :: "'s option"

definition start_rpc :: "'s option \<Rightarrow> 's rpc" where
  "start_rpc stream = \<lparr>rpc_asked = 0, rpc_writes = [], rpc_gone = False, rpc_stream = stream\<rparr>"

definition is_cancelled :: "client \<Rightarrow> 's rpc \<Rightarrow> bool \<times> 's rpc" where
  "is_cancelled cl w = (cl_cancelled cl (rpc_asked w), w\<lparr>rpc_asked := rpc_asked w + 1\<rparr>)"

text \<open>\<open>writer->Write\<close>.\<close>

definition write_chunk :: "client \<Rightarrow> 's rpc \<Rightarrow> generate_chunk \<Rightarrow> bool \<times> 's rpc" where
  "write_chunk cl w chunk =
     (let accepted = cl_accepts cl (length (rpc_writes w))
      in (accepted, w\<lparr>rpc_writes := rpc_writes w @ [(chunk, accepted)]\<rparr>))"

definition write_text :: "client \<Rightarrow> 's rpc \<Rightarrow> bytes \<Rightarrow> bool \<times> 's rpc" where
  "write_text cl w t =
     (case write_chunk cl w (Text_chunk t) of
        (accepted, w) \<Rightarrow> if \<not> accepted then (False, w\<lparr>rpc_gone := True\<rparr>) else (True, w))"

definition on_chunk ::
  "('x, 't, 'f, 'q, 'r) chat_lib \<Rightarrow> client \<Rightarrow> ('x, 'f, 'q, 'r) chat_stream rpc \<Rightarrow> bytes
     \<Rightarrow> (exn + bool) \<times> ('x, 'f, 'q, 'r) chat_stream rpc" where
  "on_chunk lib cl w t =
     (case is_cancelled cl w of
        (cancelled, w) \<Rightarrow>
          if cancelled then (Inr False, w\<lparr>rpc_gone := True\<rparr>)
          else
            (case rpc_stream w of
               None \<Rightarrow> (case write_text cl w t of (ok, w) \<Rightarrow> (Inr ok, w))
             | Some s \<Rightarrow>
                 (case stream_push lib s t of
                    (Inl e, s) \<Rightarrow> (Inl e, w\<lparr>rpc_stream := Some s\<rparr>)
                  | (Inr visible, s) \<Rightarrow>
                      (let w = w\<lparr>rpc_stream := Some s\<rparr> in
                       if visible = [] then (Inr True, w)
                       else (case write_text cl w visible of (ok, w) \<Rightarrow> (Inr ok, w))))))"

text \<open>From the end of the generation to the end of the stream.\<close>

definition finish_stream ::
  "('x, 't, 'f, 'q, 'r) chat_lib \<Rightarrow> client \<Rightarrow> generate_result \<Rightarrow> ('x, 'f, 'q, 'r) chat_stream rpc
     \<Rightarrow> (exn + grpc_status) \<times> ('x, 'f, 'q, 'r) chat_stream rpc" where
  "finish_stream lib cl result w =
     (case is_cancelled cl w of
        (cancelled, w) \<Rightarrow>
          (let w = (if cancelled then w\<lparr>rpc_gone := True\<rparr> else w) in
           case (case rpc_stream w of
                   Some s \<Rightarrow>
                     if \<not> rpc_gone w
                     then (case stream_finish lib s of
                             (Inl e, s) \<Rightarrow> (Inl e, w\<lparr>rpc_stream := Some s\<rparr>)
                           | (Inr fin, s) \<Rightarrow>
                               (let w = w\<lparr>rpc_stream := Some s\<rparr> in
                                (Inr (fin_tool_calls fin),
                                 if fin_content_tail fin \<noteq> []
                                 then snd (write_text cl w (fin_content_tail fin)) else w)))
                     else (Inr [], w)
                 | None \<Rightarrow> (Inr [], w)) of
             (Inl e, w) \<Rightarrow> (Inl e, w)
           | (Inr tool_calls, w) \<Rightarrow>
               (let finish = finish_chunk (res_reason result) (res_stats result) tool_calls in
                if \<not> rpc_gone w
                then (case write_chunk cl w finish of
                        (accepted, w) \<Rightarrow>
                          (Inr status_ok, if accepted then w else w\<lparr>rpc_gone := True\<rparr>))
                else (Inr status_ok, w))))"

definition stream_generation ::
  "('c, 'h, 'g) llama_api \<Rightarrow> ('x, 't, 'f, 'q, 'r) chat_lib \<Rightarrow> client \<Rightarrow> (nat \<Rightarrow> flt) \<Rightarrow> bytes
     \<Rightarrow> sampling_params \<Rightarrow> ('x, 'f, 'q, 'r) chat_stream option \<Rightarrow> 'c impl
     \<Rightarrow> ((exn + grpc_status) \<times> 'c impl \<times> ('x, 'f, 'q, 'r) chat_stream rpc) option" where
  "stream_generation api lib cl clock prompt params stream st =
     (case generate api (Some (on_chunk lib cl)) clock prompt params st (start_rpc stream) of
        None \<Rightarrow> None
      | Some (Inl e, st, w) \<Rightarrow> Some (Inl e, st, w)
      | Some (Inr result, st, w) \<Rightarrow>
          (case finish_stream lib cl result w of (r, w) \<Rightarrow> Some (r, st, w)))"

section \<open>Handlers\<close>

record v1_generate_request =
  v1_prompt :: bytes
  v1_sampling :: v1_sampling_params

record v1_chat_request =
  v1_messages :: "v1_chat_message list"
  v1_chat_sampling :: v1_sampling_params
  v1_tools :: "v1_tool list"
  v1_response_json_schema :: bytes

record v1_tokenize_request =
  v1_text :: bytes
  v1_add_special :: bool
  v1_parse_special :: bool

text \<open>The members of \<open>LlamaService\<close> besides the engine.\<close>

record 't service =
  svc_chat_format :: "'t chat_format option"
  svc_chat_unavailable_reason :: bytes

text \<open>A body that ran, under \<open>guarded\<close>.\<close>

definition finish_rpc ::
  "((exn + grpc_status) \<times> 'a \<times> 'b) option \<Rightarrow> (grpc_status \<times> 'a \<times> 'b) option" where
  "finish_rpc r = map_option (\<lambda>(s, x). (guarded s, x)) r"

definition rpc_tokenize ::
  "('c, 'h, 'g) llama_api \<Rightarrow> v1_tokenize_request \<Rightarrow> grpc_status \<times> token list" where
  "rpc_tokenize api request =
     (case tokenize api (v1_text request) (v1_add_special request) (v1_parse_special request) of
        Inl e \<Rightarrow> (guarded (Inl e), [])
      | Inr tokens \<Rightarrow> (guarded (Inr status_ok), tokens))"

definition rpc_generate ::
  "('c, 'h, 'g) llama_api \<Rightarrow> ('x, 't, 'f, 'q, 'r) chat_lib \<Rightarrow> client \<Rightarrow> (nat \<Rightarrow> flt)
     \<Rightarrow> v1_generate_request \<Rightarrow> 'c impl
     \<Rightarrow> (grpc_status \<times> 'c impl \<times> ('x, 'f, 'q, 'r) chat_stream rpc) option" where
  "rpc_generate api lib cl clock request st =
     finish_rpc
       (if embeddings st
        then Some (Inr \<lparr>code = FAILED_PRECONDITION, message = embedding_model_message\<rparr>, st, start_rpc None)
        else stream_generation api lib cl clock (v1_prompt request)
               (sampling_from_proto (v1_sampling request)) None st)"

definition rpc_chat ::
  "('c, 'h, 'g) llama_api \<Rightarrow> ('x, 't, 'f, 'q, 'r) chat_lib \<Rightarrow> client \<Rightarrow> (nat \<Rightarrow> flt) \<Rightarrow> 'r
     \<Rightarrow> 't service \<Rightarrow> v1_chat_request \<Rightarrow> 'c impl
     \<Rightarrow> (grpc_status \<times> 'c impl \<times> ('x, 'f, 'q, 'r) chat_stream rpc) option" where
  "rpc_chat api lib cl clock rng svc request st =
     finish_rpc
       (if v1_messages request = []
        then Some (Inr \<lparr>code = INVALID_ARGUMENT, message = ''messages must not be empty''\<rparr>, st, start_rpc None)
        else if embeddings st
        then Some (Inr \<lparr>code = FAILED_PRECONDITION, message = embedding_model_message\<rparr>, st, start_rpc None)
        else
          (case svc_chat_format svc of
             None \<Rightarrow> Some (Inr \<lparr>code = FAILED_PRECONDITION, message = svc_chat_unavailable_reason svc\<rparr>,
                           st, start_rpc None)
           | Some cf \<Rightarrow>
               (case render lib cf (map message_from_proto (v1_messages request))
                       (map tool_from_proto (v1_tools request)) (v1_response_json_schema request) of
                  Inl e \<Rightarrow> Some (Inl e, st, start_rpc None)
                | Inr rendered \<Rightarrow>
                    (let params = sampling_from_proto (v1_chat_sampling request);
                         params = params\<lparr>sp_grammar := rc_grammar rendered,
                                         sp_preserved_tokens := rc_preserved_tokens rendered,
                                         sp_stop := sp_stop params @ rc_additional_stops rendered\<rparr>
                     in case new_stream lib rendered rng of
                          Inl e \<Rightarrow> Some (Inl e, st, start_rpc None)
                        | Inr stream \<Rightarrow>
                            stream_generation api lib cl clock (rc_prompt rendered) params
                              (Some stream) st))))"

text \<open>\<open>GetModelInfo\<close>.\<close>

definition rpc_get_model_info ::
  "('m, 'c, 'd, 'h, 'g) model_api \<Rightarrow> ('m, 'c, 'h, 'g) engine \<Rightarrow> grpc_status \<times> v1_model_info" where
  "rpc_get_model_info mapi eng = (guarded (Inr status_ok), info_to_proto (info mapi eng))"

text \<open>\<open>Embed\<close>: the status, the response if it was filled in, and the engine afterwards.\<close>

definition rpc_embed ::
  "('c, 'h, 'g) llama_api \<Rightarrow> client \<Rightarrow> bytes list \<Rightarrow> 'c impl
     \<Rightarrow> grpc_status \<times> v1_embed_response option \<times> 'c impl" where
  "rpc_embed api cl inputs st =
     (if inputs = []
      then (guarded (Inr \<lparr>code = INVALID_ARGUMENT, message = ''inputs must not be empty''\<rparr>), None, st)
      else if \<not> embeddings st
      then (guarded (Inr \<lparr>code = FAILED_PRECONDITION,
              message = ''the model is not an embedding model: its GGUF declares no pooling type''\<rparr>), None, st)
      else
        (case embed api inputs (Some (\<lambda>i. \<not> cl_cancelled cl i)) st of
           (Inl e, st) \<Rightarrow> (guarded (Inl e), None, st)
         | (Inr result, st) \<Rightarrow>
             if length (er_embeddings result) < length inputs
             then (guarded (Inr \<lparr>code = CANCELLED, message = ''the client cancelled the call''\<rparr>), None, st)
             else (guarded (Inr status_ok), Some (embed_to_proto result), st)))"

lemmas handler_defs = rpc_generate_def rpc_chat_def rpc_embed_def finish_rpc_def

section \<open>What a call adds to the stream\<close>

definition accepted_texts :: "bytes list \<Rightarrow> (generate_chunk \<times> bool) list" where
  "accepted_texts ts = map (\<lambda>t. (Text_chunk t, True)) ts"

definition text_writes :: "bytes list \<Rightarrow> bool \<Rightarrow> (generate_chunk \<times> bool) list" where
  "text_writes ts all_accepted =
     (if all_accepted then accepted_texts ts
      else accepted_texts (butlast ts) @ [(Text_chunk (last ts), False)])"

text \<open>The parser, if there is one, has shown \<open>x\<close> more.\<close>

fun shows_more ::
  "('x, 'f, 'q, 'r) chat_stream option \<Rightarrow> bytes \<Rightarrow> ('x, 'f, 'q, 'r) chat_stream option \<Rightarrow> bool" where
  "shows_more None x s' \<longleftrightarrow> s' = None"
| "shows_more (Some s) x s' \<longleftrightarrow> (\<exists>u. s' = Some u \<and> cs_emitted u = cs_emitted s @ x)"

lemma shows_more_Nil [simp]: "shows_more s [] s"
  by (cases s) simp_all

lemma shows_more_trans: "shows_more a x b \<Longrightarrow> shows_more b y c \<Longrightarrow> shows_more a (x @ y) c"
  by (cases a) auto

text \<open>
  Between two states of a call: nonempty texts were written, each accepted but perhaps the last, and
  a refusal means the client has gone; once it has gone nothing is written. The texts are what the
  parser, if there is one, showed in between.
\<close>

definition sent ::
  "('x, 'f, 'q, 'r) chat_stream rpc \<Rightarrow> ('x, 'f, 'q, 'r) chat_stream rpc \<Rightarrow> bool" where
  "sent w w' \<longleftrightarrow>
     (\<exists>ts ok. [] \<notin> set ts \<and> rpc_writes w' = rpc_writes w @ text_writes ts ok
        \<and> (ok \<or> ts \<noteq> [] \<and> rpc_gone w') \<and> (rpc_gone w \<longrightarrow> ts = [] \<and> rpc_gone w')
        \<and> shows_more (rpc_stream w) (concat ts) (rpc_stream w'))"

lemma text_writes_simps [simp]:
  "text_writes [] True = []" "text_writes [t] True = [(Text_chunk t, True)]"
  "text_writes [t] False = [(Text_chunk t, False)]"
  by (simp_all add: text_writes_def accepted_texts_def)

lemma text_writes_append:
  "ok \<or> us \<noteq> [] \<Longrightarrow> accepted_texts ts @ text_writes us ok = text_writes (ts @ us) ok"
  by (auto simp: text_writes_def accepted_texts_def butlast_append)

lemma sent_refl: "sent w w"
  unfolding sent_def by (intro exI [of _ "[]"] exI [of _ True]) auto

lemma sent_trans:
  assumes "sent u v" "sent v w"
  shows "sent u w"
proof -
  obtain ts ok where uv: "[] \<notin> set ts" "rpc_writes v = rpc_writes u @ text_writes ts ok"
    "ok \<or> ts \<noteq> [] \<and> rpc_gone v" "rpc_gone u \<longrightarrow> ts = [] \<and> rpc_gone v"
    "shows_more (rpc_stream u) (concat ts) (rpc_stream v)"
    using assms(1) unfolding sent_def by blast
  obtain us ok' where vw: "[] \<notin> set us" "rpc_writes w = rpc_writes v @ text_writes us ok'"
    "ok' \<or> us \<noteq> [] \<and> rpc_gone w" "rpc_gone v \<longrightarrow> us = [] \<and> rpc_gone w"
    "shows_more (rpc_stream v) (concat us) (rpc_stream w)"
    using assms(2) unfolding sent_def by blast
  have streams: "shows_more (rpc_stream u) (concat (ts @ us)) (rpc_stream w)"
    using shows_more_trans [OF uv(5) vw(5)] by simp
  show ?thesis
  proof (cases "rpc_gone v")
    case True
    then have us: "us = []" "rpc_gone w" "ok'" using vw(3,4) by auto
    with uv vw(2) streams show ?thesis
      unfolding sent_def by (intro exI [of _ ts] exI [of _ ok]) auto
  next
    case False
    then have "ok" using uv(3) by auto
    then have "rpc_writes w = rpc_writes u @ text_writes (ts @ us) ok'"
      using uv(2) vw(2) vw(3) text_writes_append [of ok' us ts] by (auto simp: text_writes_def)
    with uv vw False streams show ?thesis
      unfolding sent_def by (intro exI [of _ "ts @ us"] exI [of _ ok']) auto
  qed
qed

lemma write_text_sent:
  assumes "write_text cl w t = (ok, w')" "t \<noteq> []" "\<not> rpc_gone w"
  shows "rpc_writes w' = rpc_writes w @ text_writes [t] ok \<and> rpc_gone w' = (\<not> ok)
    \<and> rpc_stream w' = rpc_stream w"
  using assms by (auto simp: write_text_def write_chunk_def Let_def split: if_splits)

lemma on_chunk_sent:
  assumes "on_chunk lib cl w t = (r, w')" "t \<noteq> []" "\<not> rpc_gone w"
  shows "sent w w' \<and> (r = Inr True \<longrightarrow> \<not> rpc_gone w')"
proof -
  obtain c w1 where c: "is_cancelled cl w = (c, w1)" by (metis prod.exhaust)
  then have w1: "rpc_writes w1 = rpc_writes w" "rpc_gone w1 = rpc_gone w" "rpc_stream w1 = rpc_stream w"
    by (auto simp: is_cancelled_def)
  show ?thesis
  proof (cases c)
    case True
    with assms c w1 show ?thesis
      by (auto simp: on_chunk_def sent_def split: option.splits intro!: exI [of _ "[]"] exI [of _ True])
  next
    case False
    show ?thesis
    proof (cases "rpc_stream w1")
      case None
      obtain ok w2 where x: "write_text cl w1 t = (ok, w2)" by (metis prod.exhaust)
      with assms c False None have "r = Inr ok" "w' = w2" by (auto simp: on_chunk_def)
      with write_text_sent [OF x assms(2)] assms(2,3) w1 None show ?thesis
        unfolding sent_def by (intro conjI exI [of _ "[t]"] exI [of _ ok]) auto
    next
      case (Some s)
      obtain d s' where p: "stream_push lib s t = (d, s')" by (metis prod.exhaust)
      show ?thesis
      proof (cases d)
        case (Inl e)
        then have "cs_emitted s' = cs_emitted s" using p chat.push_failed by blast
        with assms c False Some p Inl w1 show ?thesis
          by (auto simp: on_chunk_def sent_def intro!: exI [of _ "[]"] exI [of _ True])
      next
        case (Inr v)
        then have e: "cs_emitted s' = cs_emitted s @ v" using p chat.push_shown by blast
        let ?w = "w1\<lparr>rpc_stream := Some s'\<rparr>"
        show ?thesis
        proof (cases "v = []")
          case True
          with assms c False Some p Inr w1 e show ?thesis
            by (auto simp: on_chunk_def sent_def Let_def intro!: exI [of _ "[]"] exI [of _ True])
        next
          case v: False
          obtain ok w2 where x: "write_text cl ?w v = (ok, w2)" by (metis prod.exhaust)
          with assms c False Some p Inr v have "r = Inr ok" "w' = w2"
            by (auto simp: on_chunk_def Let_def)
          moreover have "shows_more (rpc_stream w) v (Some s')" using Some w1(3) e by simp
          ultimately show ?thesis
            using write_text_sent [OF x v] assms(3) w1 v
            unfolding sent_def by (intro conjI exI [of _ "[v]"] exI [of _ ok]) auto
        qed
      qed
    qed
  qed
qed

interpretation rpc: receiver "on_chunk lib cl" sent "\<lambda>w. \<not> rpc_gone w"
  for lib :: "('x, 't, 'f, 'q, 'r) chat_lib" and cl :: client
  by unfold_locales (use sent_refl sent_trans on_chunk_sent in blast)+

section \<open>The shape of a stream\<close>

lemma stream_finish_failed: "stream_finish lib s = (Inl e, s') \<Longrightarrow> cs_emitted s' = cs_emitted s"
  by (auto simp: stream_finish_def Let_def split: prod.splits sum.splits if_splits option.splits
      dest!: advance_shown)

lemma sent_cong:
  "\<lbrakk>sent w w'; rpc_writes u = rpc_writes w; rpc_gone u = rpc_gone w; rpc_stream u = rpc_stream w\<rbrakk>
     \<Longrightarrow> sent u w'"
  by (simp add: sent_def)

lemma sent_same:
  "\<lbrakk>rpc_writes w' = rpc_writes w; rpc_gone w \<longrightarrow> rpc_gone w'; shows_more (rpc_stream w) [] (rpc_stream w')\<rbrakk>
     \<Longrightarrow> sent w w'"
  unfolding sent_def by (intro exI [of _ "[]"] exI [of _ True]) auto

text \<open>The calls a parser hands out at the end of a stream; none without a parser.\<close>

definition handed_out ::
  "('x, 't, 'f, 'q, 'r) chat_lib \<Rightarrow> ('x, 'f, 'q, 'r) chat_stream option \<Rightarrow> tool_call list \<Rightarrow> bool" where
  "handed_out lib stream calls \<longleftrightarrow>
     (case stream of
        None \<Rightarrow> calls = []
      | Some s \<Rightarrow> \<exists>fin s'. stream_finish lib s = (Inr fin, s') \<and> calls = fin_tool_calls fin)"

lemma finish_stream_cases:
  assumes "finish_stream lib cl result w = (r, w')"
  obtains (failed) e where "r = Inl e" "sent w w'" "\<not> rpc_gone w'"
  | (gone) "r = Inr status_ok" "sent w w'" "rpc_gone w'"
  | (finished) w1 calls ok where "r = Inr status_ok" "sent w w1" "\<not> rpc_gone w1"
      "handed_out lib (rpc_stream w) calls"
      "rpc_writes w' = rpc_writes w1 @ [(finish_chunk (res_reason result) (res_stats result) calls, ok)]"
      "rpc_gone w' = (\<not> ok)" "rpc_stream w' = rpc_stream w1"
proof -
  obtain c w0 where c: "is_cancelled cl w = (c, w0)" by (metis prod.exhaust)
  define u where "u = (if c then w0\<lparr>rpc_gone := True\<rparr> else w0)"
  have u: "rpc_writes u = rpc_writes w" "rpc_stream u = rpc_stream w" "rpc_gone u = (c \<or> rpc_gone w)"
    using c by (auto simp: is_cancelled_def u_def)
  have wu: "sent w u" by (rule sent_same) (use u in auto)
  have last_write: "\<exists>ok. (Inr status_ok :: exn + grpc_status, w') = (r, w') \<and>
      rpc_writes w' = rpc_writes v @ [(chunk, ok)] \<and> rpc_gone w' = (\<not> ok) \<and> rpc_stream w' = rpc_stream v"
    if "(case write_chunk cl v chunk of (accepted, w) \<Rightarrow>
          (Inr status_ok, if accepted then w else w\<lparr>rpc_gone := True\<rparr>)) = (r, w')" "\<not> rpc_gone v" for v chunk
    using that by (auto simp: write_chunk_def Let_def split: if_splits)
  show thesis
  proof (cases "rpc_gone u")
    case True
    with assms c have "r = Inr status_ok" "w' = u"
      by (auto simp: finish_stream_def Let_def u_def [symmetric] split: option.splits)
    with gone wu True show thesis by blast
  next
    case here: False
    show thesis
    proof (cases "rpc_stream w")
      case None
      with assms c here u(2) have "(case write_chunk cl u (finish_chunk (res_reason result) (res_stats result) [])
          of (accepted, w) \<Rightarrow> (Inr status_ok, if accepted then w else w\<lparr>rpc_gone := True\<rparr>)) = (r, w')"
        by (simp add: finish_stream_def Let_def u_def [symmetric])
      from last_write [OF this here] finished [OF _ wu here, of "[]"] None show thesis
        by (auto simp: handed_out_def)
    next
      case (Some s)
      obtain f s' where f: "stream_finish lib s = (f, s')" by (metis prod.exhaust)
      show thesis
      proof (cases f)
        case (Inl e)
        with assms c here u(2) Some f have "r = Inl e" "w' = u\<lparr>rpc_stream := Some s'\<rparr>"
          by (auto simp: finish_stream_def Let_def u_def [symmetric])
        moreover have "sent w (u\<lparr>rpc_stream := Some s'\<rparr>)"
          by (rule sent_same) (use u Some f Inl stream_finish_failed in auto)
        ultimately show thesis using failed here by simp
      next
        case (Inr fin)
        let ?u = "u\<lparr>rpc_stream := Some s'\<rparr>"
        define v where "v = (if fin_content_tail fin \<noteq> [] then snd (write_text cl ?u (fin_content_tail fin)) else ?u)"
        have e: "cs_emitted s' = cs_emitted s @ fin_content_tail fin"
          using stream_finish_shown f Inr by blast
        have wv: "sent w v"
        proof (cases "fin_content_tail fin = []")
          case True
          with e show ?thesis by (intro sent_same) (use u Some in \<open>auto simp: v_def\<close>)
        next
          case tail: False
          obtain ok x where x: "write_text cl ?u (fin_content_tail fin) = (ok, x)" by (metis prod.exhaust)
          have "v = x" using tail x by (simp add: v_def)
          moreover have "shows_more (rpc_stream w) (fin_content_tail fin) (Some s')" using Some e by simp
          ultimately show ?thesis
            using write_text_sent [OF x tail] here u tail
            unfolding sent_def by (intro exI [of _ "[fin_content_tail fin]"] exI [of _ ok]) auto
        qed
        have rest: "(if \<not> rpc_gone v
            then (case write_chunk cl v (finish_chunk (res_reason result) (res_stats result) (fin_tool_calls fin))
               of (accepted, w) \<Rightarrow> (Inr status_ok, if accepted then w else w\<lparr>rpc_gone := True\<rparr>))
            else (Inr status_ok, v)) = (r, w')"
          using assms c here u(2) Some f Inr
          by (simp add: finish_stream_def Let_def u_def [symmetric] v_def [symmetric])
        have calls: "handed_out lib (rpc_stream w) (fin_tool_calls fin)"
          using Some f Inr by (auto simp: handed_out_def)
        show thesis
        proof (cases "rpc_gone v")
          case True
          with rest wv gone show thesis by auto
        next
          case False
          with rest have "(case write_chunk cl v (finish_chunk (res_reason result) (res_stats result) (fin_tool_calls fin))
               of (accepted, w) \<Rightarrow> (Inr status_ok, if accepted then w else w\<lparr>rpc_gone := True\<rparr>)) = (r, w')"
            by simp
          from last_write [OF this False] finished [OF _ wv False calls] show thesis by auto
        qed
      qed
    qed
  qed
qed

lemma stream_generation_cases:
  assumes "stream_generation api lib cl clock prompt params stream st = Some (r, st', w)" "0 < n_batch st"
  obtains (failed) e where "r = Inl e" "sent (start_rpc stream) w"
  | (gone) "r = Inr status_ok" "sent (start_rpc stream) w" "rpc_gone w"
  | (finished) w0 w1 calls ok result where "r = Inr status_ok" "sent (start_rpc stream) w1" "\<not> rpc_gone w1"
      "generate api (Some (on_chunk lib cl)) clock prompt params st (start_rpc stream) = Some (Inr result, st', w0)"
      "handed_out lib (rpc_stream w0) calls"
      "rpc_writes w = rpc_writes w1 @ [(finish_chunk (res_reason result) (res_stats result) calls, ok)]"
      "rpc_gone w = (\<not> ok)" "rpc_stream w = rpc_stream w1"
proof -
  obtain g st1 w0 where gen: "generate api (Some (on_chunk lib cl)) clock prompt params st (start_rpc stream)
      = Some (g, st1, w0)"
    using generate_total [OF assms(2), of api "Some (on_chunk lib cl)" clock prompt params "start_rpc stream"]
    by blast
  have s0: "sent (start_rpc stream) w0"
    using rpc.receiver_generate [OF gen _ assms(2)] by (simp add: start_rpc_def)
  show thesis
  proof (cases g)
    case (Inl e)
    with assms(1) gen have "r = Inl e" "w = w0" by (auto simp: stream_generation_def)
    with failed s0 show thesis by blast
  next
    case (Inr result)
    with assms(1) gen have fs: "finish_stream lib cl result w0 = (r, w)" "st1 = st'"
      by (auto simp: stream_generation_def split: prod.splits)
    from fs(1) show thesis
    proof (cases rule: finish_stream_cases)
      case (failed e)
      with s0 sent_trans that(1) show thesis by blast
    next
      case gone
      with s0 sent_trans that(2) show thesis by blast
    next
      case (finished w1 calls ok)
      with s0 sent_trans gen Inr fs(2) that(3) show thesis by blast
    qed
  qed
qed

lemma sent_from_start:
  assumes "sent (start_rpc stream) w"
  obtains ts ok where "[] \<notin> set ts" "rpc_writes w = text_writes ts ok" "ok \<or> ts \<noteq> [] \<and> rpc_gone w"
    "shows_more stream (concat ts) (rpc_stream w)"
  using assms unfolding sent_def by (auto simp: start_rpc_def)

lemma finish_chunk_Finish: "\<exists>fin. finish_chunk reason stats calls = Finish_chunk fin"
  by (simp add: finish_chunk_def Let_def)

text \<open>
  C31. The shape of a Generate or Chat stream. A stream that succeeds for a client that stayed is
  zero or more nonempty texts and then exactly one finish, all of them accepted, and nothing after
  it. A stream without a finish ended in an error or lost its client. In every case only the last
  write can have been refused: to a client known to be gone nothing more is sent.
\<close>

theorem stream_shape:
  assumes "0 < n_batch st"
    and "stream_generation api lib cl clock prompt params stream st = Some (r, st', w)"
  shows "\<exists>ts. [] \<notin> set ts
    \<and> ((\<exists>fin accepted. rpc_writes w = accepted_texts ts @ [(Finish_chunk fin, accepted)]
          \<and> r = Inr status_ok \<and> rpc_gone w = (\<not> accepted))
       \<or> (rpc_writes w = accepted_texts ts \<and> (rpc_gone w \<or> \<not> is_ok r))
       \<or> (\<exists>us t. ts = us @ [t] \<and> rpc_writes w = accepted_texts us @ [(Text_chunk t, False)] \<and> rpc_gone w))"
  using assms(2,1)
proof (cases rule: stream_generation_cases)
  case (failed e)
  from failed(2) obtain ts ok where "[] \<notin> set ts" "rpc_writes w = text_writes ts ok" "ok \<or> ts \<noteq> [] \<and> rpc_gone w"
    by (rule sent_from_start)
  with failed(1) show ?thesis
    by (intro exI [of _ ts]) (cases ts rule: rev_cases; auto simp: text_writes_def split: if_splits)
next
  case gone
  from gone(2) obtain ts ok where "[] \<notin> set ts" "rpc_writes w = text_writes ts ok" "ok \<or> ts \<noteq> [] \<and> rpc_gone w"
    by (rule sent_from_start)
  with gone(3) show ?thesis
    by (intro exI [of _ ts]) (cases ts rule: rev_cases; auto simp: text_writes_def split: if_splits)
next
  case (finished w0 w1 calls ok result)
  from finished(2) obtain ts all_ok where ts: "[] \<notin> set ts" "rpc_writes w1 = text_writes ts all_ok"
    "all_ok \<or> ts \<noteq> [] \<and> rpc_gone w1"
    by (rule sent_from_start)
  then have "rpc_writes w1 = accepted_texts ts" using finished(3) by (simp add: text_writes_def)
  with ts(1) finished show ?thesis
    using finish_chunk_Finish [of "res_reason result" "res_stats result" calls]
    by (intro exI [of _ ts]) auto
qed

text \<open>A client that stays and takes everything, and calls of the small instances to it.\<close>

definition patient_client :: client where
  "patient_client = \<lparr>cl_cancelled = (\<lambda>_. False), cl_accepts = (\<lambda>_. True)\<rparr>"

definition sample_generation ::
  "(unit, unit, bytes, nat) chat_stream option
     \<Rightarrow> ((exn + grpc_status) \<times> token list impl \<times> (unit, unit, bytes, nat) chat_stream rpc) option" where
  "sample_generation stream =
     stream_generation sample_api sample_chat patient_client (\<lambda>_. Fin 0) ''a''
       (sample_request [''c''] []) stream (sample_impl [])"

definition stayed :: "((exn + grpc_status) \<times> 'a \<times> 's rpc) option \<Rightarrow> bool" where
  "stayed x = (case x of Some (r, st, w) \<Rightarrow> is_ok r \<and> \<not> rpc_gone w | None \<Rightarrow> False)"

lemma stayed_run:
  assumes "stayed x"
  obtains status st w where "x = Some (Inr status, st, w)" "\<not> rpc_gone w"
  using assms by (auto simp: stayed_def is_ok_iff split: option.splits prod.splits)

theorem stream_shape_witness:
  "\<exists>r st' w ts fin. sample_generation None = Some (r, st', w)
    \<and> rpc_writes w = accepted_texts ts @ [(Finish_chunk fin, True)] \<and> [] \<notin> set ts"
proof -
  have "stayed (sample_generation None)" by code_simp
  then obtain status st' w where run: "sample_generation None = Some (Inr status, st', w)" "\<not> rpc_gone w"
    by (rule stayed_run)
  have "0 < n_batch (sample_impl [])" by (simp add: sample_impl_def)
  from stream_shape [OF this run(1) [unfolded sample_generation_def]] run show ?thesis by auto
qed

text \<open>
  C12. What a chat client reads is what the parser shows, and exactly the calls of the final parse: for a
  successful stream to a client that stayed, the texts put together are the text the parser recorded
  as shown. The finish has tool calls exactly when its reason is \<open>TOOL_CALLS\<close>, and they are, for a
  generation that ran to completion, those of the parse the stream ended with (all of them, in order,
  with their identifiers, names and arguments, where absent arguments become an empty object; none if
  one is incomplete), and none otherwise. Each has a name and arguments that are valid JSON, but not
  always the object the protocol promises.
\<close>

theorem chat_client_reads_what_is_shown:
  assumes "0 < n_batch st" and "lib_json_accept lib ''{}''" and "cs_emitted s = []"
    and "stream_generation api lib cl clock prompt params (Some s) st = Some (Inr status, st', w)"
    and "\<not> rpc_gone w"
  shows "\<exists>ts fin s' result w0 s0. rpc_writes w = accepted_texts ts @ [(Finish_chunk fin, True)]
    \<and> rpc_stream w = Some s' \<and> concat ts = cs_emitted s'
    \<and> (v1_finish_calls fin \<noteq> [] \<longleftrightarrow> v1_reason fin = FINISH_REASON_TOOL_CALLS)
    \<and> generate api (Some (on_chunk lib cl)) clock prompt params st (start_rpc (Some s))
        = Some (Inr result, st', w0)
    \<and> rpc_stream w0 = Some s0
    \<and> list_all2
        (\<lambda>p c. v1_call_id p = cc_id c \<and> v1_call_name p = cc_name c
           \<and> v1_call_arguments p = (if cc_arguments c = [] then ''{}'' else cc_arguments c))
        (v1_finish_calls fin)
        (if res_reason result = Eog \<or> res_reason result = Stop then final_calls lib s0 else [])
    \<and> list_all (\<lambda>c. v1_call_name c \<noteq> [] \<and> lib_json_accept lib (v1_call_arguments c)) (v1_finish_calls fin)"
  using assms(4,1)
proof (cases rule: stream_generation_cases)
  case (finished w0 w1 calls ok result)
  from finished(2) obtain ts all_ok where ts: "rpc_writes w1 = text_writes ts all_ok"
    "all_ok \<or> ts \<noteq> [] \<and> rpc_gone w1" "shows_more (Some s) (concat ts) (rpc_stream w1)"
    by (rule sent_from_start)
  then have texts: "rpc_writes w1 = accepted_texts ts" using finished(3) by (simp add: text_writes_def)
  from ts(3) finished(8) assms(3) obtain s' where s': "rpc_stream w = Some s'" "concat ts = cs_emitted s'" by auto
  have "sent (start_rpc (Some s)) w0"
    using rpc.receiver_generate [OF finished(4) _ assms(1)] by (simp add: start_rpc_def)
  then obtain us where "shows_more (Some s) us (rpc_stream w0)"
    by (rule sent_from_start) blast
  then obtain s0 where s0: "rpc_stream w0 = Some s0" by auto
  with finished(5) obtain f s1 where "stream_finish lib s0 = (Inr f, s1)" "calls = fin_tool_calls f"
    by (auto simp: handed_out_def)
  then have calls: "list_all2 same_call calls (final_calls lib s0)" using finish_calls by blast
  obtain fin where fin: "finish_chunk (res_reason result) (res_stats result) calls = Finish_chunk fin"
    "v1_finish_calls fin = (if res_reason result = Eog \<or> res_reason result = Stop then map call_to_proto calls else [])"
    "v1_finish_calls fin \<noteq> [] \<longleftrightarrow> v1_reason fin = FINISH_REASON_TOOL_CALLS"
    by (simp add: finish_chunk_def Let_def)
  have all: "list_all2
        (\<lambda>p c. v1_call_id p = cc_id c \<and> v1_call_name p = cc_name c
           \<and> v1_call_arguments p = (if cc_arguments c = [] then ''{}'' else cc_arguments c))
        (v1_finish_calls fin)
        (if res_reason result = Eog \<or> res_reason result = Stop then final_calls lib s0 else [])"
    using calls fin(2) by (auto simp: list_all2_map1 same_call_def call_to_proto_def elim!: list_all2_mono)
  have ok_calls: "list_all (\<lambda>c. v1_call_name c \<noteq> [] \<and> lib_json_accept lib (v1_call_arguments c)) (v1_finish_calls fin)"
    using same_calls_ok [OF calls assms(2)] fin(2) by (auto simp: list_all_iff call_to_proto_def)
  have writes: "rpc_writes w = accepted_texts ts @ [(Finish_chunk fin, True)]"
    using texts finished(6,7) assms(5) fin(1) by simp
  show ?thesis
    by (intro exI conjI) (rule writes s' fin(3) finished(4) s0 all ok_calls)+
qed (use assms(5) in simp_all)

theorem chat_client_reads_what_is_shown_witness:
  "\<exists>r st' w ts fin s'. sample_generation (Some (sample_stream [] [])) = Some (r, st', w)
    \<and> rpc_writes w = accepted_texts ts @ [(Finish_chunk fin, True)] \<and> rpc_stream w = Some s'
    \<and> concat ts = cs_emitted s'"
proof -
  have "stayed (sample_generation (Some (sample_stream [] [])))" by code_simp
  then obtain status st' w where
    run: "sample_generation (Some (sample_stream [] [])) = Some (Inr status, st', w)" "\<not> rpc_gone w"
    by (rule stayed_run)
  have "0 < n_batch (sample_impl [])" by (simp add: sample_impl_def)
  moreover have "lib_json_accept sample_chat ''{}''" by code_simp
  moreover have "cs_emitted (sample_stream [] []) = []" by (simp add: sample_stream_def)
  ultimately show ?thesis
    using chat_client_reads_what_is_shown [OF _ _ _ run(1) [unfolded sample_generation_def] run(2)] run(1)
    by blast
qed

section \<open>Statuses\<close>

lemma rpc_generate_body:
  assumes "\<not> embeddings st" "0 < n_batch st"
  obtains r st' w0 w s where
    "generate api (Some (on_chunk lib cl)) clock (v1_prompt request)
       (sampling_from_proto (v1_sampling request)) st (start_rpc None) = Some (r, st', w0)"
    "rpc_generate api lib cl clock request st = Some (s, st', w)"
    "s = guarded (case r of Inl e \<Rightarrow> Inl e | Inr _ \<Rightarrow> Inr status_ok)"
proof -
  let ?params = "sampling_from_proto (v1_sampling request)"
  obtain r st' w0 where gen: "generate api (Some (on_chunk lib cl)) clock (v1_prompt request) ?params st
      (start_rpc None) = Some (r, st', w0)"
    using generate_total [OF assms(2), of api "Some (on_chunk lib cl)" clock "v1_prompt request" ?params
        "start_rpc None"]
    by blast
  have "sent (start_rpc None) w0" using rpc.receiver_generate [OF gen _ assms(2)] by (simp add: start_rpc_def)
  then have none: "rpc_stream w0 = None" by (auto simp: sent_def start_rpc_def)
  show thesis
  proof (cases r)
    case (Inl e)
    with gen assms(1) show thesis
      by (intro that [OF gen]) (auto simp: handler_defs stream_generation_def)
  next
    case (Inr res)
    obtain x w where fs: "finish_stream lib cl res w0 = (x, w)" by (metis prod.exhaust)
    then have "x = Inr status_ok"
      using none by (auto simp: finish_stream_def is_cancelled_def Let_def split: if_splits prod.splits)
    with gen fs Inr assms(1) show thesis
      by (intro that [OF gen]) (auto simp: handler_defs stream_generation_def)
  qed
qed

text \<open>
  C32. Generate always answers, and its status says what happened: \<open>FAILED_PRECONDITION\<close> on an
  embedding model, with nothing run and nothing written; otherwise \<open>OK\<close> exactly when the engine
  produced a result (a cancelled one included), \<open>INVALID_ARGUMENT\<close> exactly when an \<open>EngineError\<close> or a
  \<open>ChatFormatError\<close> was thrown, with its message, and \<open>INTERNAL\<close> for everything else that was thrown.
  The engine throws an \<open>EngineError\<close> also when llama.cpp fails to decode, so that failure of the
  server is answered as a mistake of the caller.
\<close>

theorem generate_status:
  assumes "0 < n_batch st"
  shows "\<exists>s st' w. rpc_generate api lib cl clock request st = Some (s, st', w)
    \<and> (if embeddings st
       then code s = FAILED_PRECONDITION \<and> st' = st \<and> rpc_writes w = []
       else \<exists>r w0. generate api (Some (on_chunk lib cl)) clock (v1_prompt request)
                (sampling_from_proto (v1_sampling request)) st (start_rpc None) = Some (r, st', w0)
              \<and> (code s = OK \<longleftrightarrow> is_ok r)
              \<and> (code s = INVALID_ARGUMENT \<longleftrightarrow>
                   (\<exists>m. message s = m \<and> (r = Inl (EngineError m) \<or> r = Inl (ChatFormatError m))))
              \<and> (code s = INTERNAL \<longleftrightarrow> (\<exists>m. r = Inl (StdException m)) \<or> r = Inl OtherException))"
proof (cases "embeddings st")
  case True
  then show ?thesis by (simp add: handler_defs start_rpc_def)
next
  case False
  obtain r st' w0 w s where
    "generate api (Some (on_chunk lib cl)) clock (v1_prompt request)
       (sampling_from_proto (v1_sampling request)) st (start_rpc None) = Some (r, st', w0)"
    "rpc_generate api lib cl clock request st = Some (s, st', w)"
    and s: "s = guarded (case r of Inl e \<Rightarrow> Inl e | Inr _ \<Rightarrow> Inr status_ok)"
    by (rule rpc_generate_body [OF False assms])
  moreover have "(code s = OK \<longleftrightarrow> is_ok r)
      \<and> (code s = INVALID_ARGUMENT \<longleftrightarrow>
           (\<exists>m. message s = m \<and> (r = Inl (EngineError m) \<or> r = Inl (ChatFormatError m))))
      \<and> (code s = INTERNAL \<longleftrightarrow> (\<exists>m. r = Inl (StdException m)) \<or> r = Inl OtherException)"
  proof (cases r)
    case (Inl e)
    with s show ?thesis by (cases e) auto
  qed (use s in \<open>simp add: status_ok_def\<close>)
  ultimately show ?thesis using False by (intro exI [of _ s] exI [of _ st'] exI [of _ w]) auto
qed

definition sample_call :: v1_generate_request where
  "sample_call =
     \<lparr>v1_prompt = ''a'',
      v1_sampling = \<lparr>v1_temperature = Some (Fin 0), v1_top_k = None, v1_top_p = None, v1_min_p = None,
        v1_seed = None, v1_max_tokens = None, v1_stop = []\<rparr>\<rparr>"

theorem generate_status_witness:
  "\<exists>s w. rpc_generate sample_api sample_chat patient_client (\<lambda>_. Fin 0) sample_call
      (sample_impl []\<lparr>embeddings := True\<rparr>) = Some (s, sample_impl []\<lparr>embeddings := True\<rparr>, w)
    \<and> code s = FAILED_PRECONDITION"
  using generate_status [of "sample_impl []\<lparr>embeddings := True\<rparr>" sample_api sample_chat patient_client
      "\<lambda>_. Fin 0" sample_call]
  by (auto simp: sample_impl_def)

text \<open>
  A failed \<open>llama_decode\<close> on the prompt is told to the client as \<open>INVALID_ARGUMENT\<close>, the status of a
  request the caller can fix; docs/protocol.md gives a decode error as its example of \<open>INTERNAL\<close>.
\<close>

lemma decode_failure_is_invalid_argument:
  assumes "\<not> embeddings st" "tokenize api (v1_prompt request) True True = Inr tokens" "tokens \<noteq> []"
    and "length tokens < n_ctx_seq st"
    and "resolve api (sampling_from_proto (v1_sampling request)) = Inr resolved"
    and "new_sampler api (sampling_from_proto (v1_sampling request)) resolved = Inr smpl"
    and "keep_prefix api st tokens = (kept, st1)"
    and "prompt_loop (decode api) (n_batch st1) tokens kept st1 = Some (Inr ret, st2)" and "ret \<noteq> 0"
  shows "rpc_generate api lib cl clock request st =
    Some (\<lparr>code = INVALID_ARGUMENT,
           message = ''llama_decode failed on the prompt (code '' @ dec_int ret @ '')''\<rparr>, st2, start_rpc None)"
  using assms by (simp add: handler_defs stream_generation_def generate_def generate_locked_def prompt_error_def)

text \<open>
  C34. A chat request that cannot run is refused before the engine is involved: no messages is the
  caller's mistake, an embedding model or a model without a usable template is a failed
  precondition, and a conversation that \<open>render\<close> refuses is the caller's mistake where the chat format or
  the engine named the error, with its message, and an internal error otherwise. The engine, its cache
  included, stays as it was and nothing is written.
\<close>

theorem refused_chat_touches_nothing:
  assumes "v1_messages request = [] \<or> embeddings st
    \<or> (case svc_chat_format svc of
         None \<Rightarrow> True
       | Some cf \<Rightarrow> \<not> is_ok (render lib cf (map message_from_proto (v1_messages request))
             (map tool_from_proto (v1_tools request)) (v1_response_json_schema request)))"
  shows "\<exists>s. rpc_chat api lib cl clock rng svc request st = Some (s, st, start_rpc None)
    \<and> code s \<noteq> OK
    \<and> (v1_messages request = [] \<longrightarrow> code s = INVALID_ARGUMENT)
    \<and> (v1_messages request \<noteq> [] \<and> (embeddings st \<or> svc_chat_format svc = None) \<longrightarrow> code s = FAILED_PRECONDITION)
    \<and> (\<forall>cf e. v1_messages request \<noteq> [] \<and> \<not> embeddings st \<and> svc_chat_format svc = Some cf
         \<and> render lib cf (map message_from_proto (v1_messages request))
             (map tool_from_proto (v1_tools request)) (v1_response_json_schema request) = Inl e \<longrightarrow>
         (case e of
            EngineError m \<Rightarrow> s = \<lparr>code = INVALID_ARGUMENT, message = m\<rparr>
          | ChatFormatError m \<Rightarrow> s = \<lparr>code = INVALID_ARGUMENT, message = m\<rparr>
          | StdException m \<Rightarrow> s = \<lparr>code = INTERNAL, message = m\<rparr>
          | OtherException \<Rightarrow> code s = INTERNAL))"
proof -
  have "\<not> embeddings st \<Longrightarrow> v1_messages request \<noteq> [] \<Longrightarrow> svc_chat_format svc = Some cf \<Longrightarrow>
      render lib cf (map message_from_proto (v1_messages request))
        (map tool_from_proto (v1_tools request)) (v1_response_json_schema request) = Inl e \<Longrightarrow>
      rpc_chat api lib cl clock rng svc request st = Some (guarded (Inl e), st, start_rpc None)
      \<and> code (guarded (Inl e)) \<noteq> OK
      \<and> (case e of
            EngineError m \<Rightarrow> guarded (Inl e) = \<lparr>code = INVALID_ARGUMENT, message = m\<rparr>
          | ChatFormatError m \<Rightarrow> guarded (Inl e) = \<lparr>code = INVALID_ARGUMENT, message = m\<rparr>
          | StdException m \<Rightarrow> guarded (Inl e) = \<lparr>code = INTERNAL, message = m\<rparr>
          | OtherException \<Rightarrow> code (guarded (Inl e)) = INTERNAL)" for cf e
    by (cases e) (simp_all add: handler_defs)
  with assms show ?thesis
    by (cases "svc_chat_format svc")
       (auto simp: handler_defs is_ok_iff split: sum.splits)
qed

definition sample_service :: "bytes service" where
  "sample_service = \<lparr>svc_chat_format = Some sample_format, svc_chat_unavailable_reason = []\<rparr>"

theorem refused_chat_touches_nothing_witness:
  "\<exists>s. rpc_chat sample_api sample_chat patient_client (\<lambda>_. Fin 0) 0 sample_service
      \<lparr>v1_messages = [], v1_chat_sampling = v1_sampling sample_call, v1_tools = [],
       v1_response_json_schema = []\<rparr> (sample_impl [1]) = Some (s, sample_impl [1], start_rpc None)
    \<and> code s = INVALID_ARGUMENT"
  using refused_chat_touches_nothing [where request = "\<lparr>v1_messages = [],
      v1_chat_sampling = v1_sampling sample_call, v1_tools = [], v1_response_json_schema = []\<rparr>"
      and st = "sample_impl [1]" and svc = sample_service and lib = sample_chat and api = sample_api
      and cl = patient_client and clock = "\<lambda>_. Fin 0" and rng = 0]
  by auto

text \<open>
  C33. What a client of \<open>Embed\<close> is told. No inputs, and an input the model cannot take, are its own
  mistake, and an embedding request to a generative model is a failed precondition: the engine is not
  touched. With \<open>OK\<close>, and only then, there is a response, and it has one vector for every input, in
  order, each that of its input alone, and the tokens of all of them, as long as their number is an
  \<open>int32_t\<close>; the client had not gone before any input. \<open>CANCELLED\<close> means that it had gone before one.
  The inputs are those whose size leaves room in an \<open>int32_t\<close>.
\<close>

theorem embed_answers:
  assumes "vocab_laws api tok piece" and "pool_laws api pool" and "rpc_embed api cl inputs st = (s, response, st')"
    and "\<forall>t\<in>set inputs. length t + 8 < 2 ^ 31"
  shows "(code s = OK \<longleftrightarrow> response \<noteq> None)
    \<and> (inputs = [] \<longrightarrow> code s = INVALID_ARGUMENT \<and> st' = st)
    \<and> (inputs \<noteq> [] \<and> \<not> embeddings st \<longrightarrow> code s = FAILED_PRECONDITION \<and> st' = st)
    \<and> (embeddings st \<and> (\<exists>t\<in>set inputs. tok t True True = [] \<or> max_embed_tokens st < length (tok t True True))
         \<longrightarrow> code s = INVALID_ARGUMENT \<and> st' = st)
    \<and> (\<forall>r. response = Some r \<longrightarrow>
         v1_embeddings r = map (\<lambda>t. l2_normalized (the (pool (tok t True True))) (api_n_embd_out api)) inputs
         \<and> ((\<Sum>t\<leftarrow>inputs. int (length (tok t True True))) < 2 ^ 31 \<longrightarrow>
              v1_input_tokens r = (\<Sum>t\<leftarrow>inputs. int (length (tok t True True))))
         \<and> (\<forall>i<length inputs. \<not> cl_cancelled cl i))
    \<and> (code s = CANCELLED \<longrightarrow> response = None \<and> (\<exists>i<length inputs. cl_cancelled cl i))"
proof (cases "inputs = [] \<or> \<not> embeddings st")
  case True
  with assms(3) show ?thesis by (auto simp: rpc_embed_def split: if_splits)
next
  case False
  then have inputs: "inputs \<noteq> []" "embeddings st" by auto
  have fits: "\<forall>t\<in>set inputs. fits_i32 t" using assms(4) by (simp add: fits_i32_def)
  let ?going = "Some (\<lambda>i. \<not> cl_cancelled cl i)"
  obtain r st1 where run: "embed api inputs ?going st = (r, st1)" by (metis prod.exhaust)
  show ?thesis
  proof (cases r)
    case (Inl e)
    have "\<exists>m. e = EngineError m \<and> st1 = st"
      if "\<exists>t\<in>set inputs. tok t True True = [] \<or> max_embed_tokens st < length (tok t True True)"
      using embed_refused [OF assms(1) inputs(2) fits that, of ?going] run Inl by auto
    moreover have "s = guarded (Inl e)" "response = None" "st' = st1"
      using assms(3) inputs run Inl by (auto simp: rpc_embed_def)
    ultimately show ?thesis using inputs by (cases e) auto
  next
    case (Inr result)
    note spec = embed_Inr [OF assms(1,2) inputs(2) fits run [unfolded Inr]]
    from spec obtain k where k: "k \<le> length inputs"
      "er_embeddings result = map (\<lambda>t. l2_normalized (the (pool (tok t True True))) (api_n_embd_out api)) (take k inputs)"
      "er_input_tokens result = count_i32 (map (\<lambda>t. tok t True True) (take k inputs))"
      "\<forall>j<k. \<not> cl_cancelled cl j" "k < length inputs \<longrightarrow> cl_cancelled cl k" by auto
    have fine: "\<not> (\<exists>t\<in>set inputs. tok t True True = [] \<or> max_embed_tokens st < length (tok t True True))"
      using spec by (auto simp: not_less)
    show ?thesis
    proof (cases "k = length inputs")
      case True
      then have "s = guarded (Inr status_ok)" "response = Some (embed_to_proto result)"
        using assms(3) inputs run Inr k(2) by (auto simp: rpc_embed_def)
      moreover have "(\<Sum>t\<leftarrow>inputs. int (length (tok t True True))) < 2 ^ 31 \<Longrightarrow>
          er_input_tokens result = (\<Sum>t\<leftarrow>inputs. int (length (tok t True True)))"
        using count_i32_sum [of "map (\<lambda>t. tok t True True) inputs"] k(3) True by (simp add: comp_def)
      ultimately show ?thesis using True k(2,4) fine inputs by (auto simp: status_ok_def embed_to_proto_def)
    next
      case False
      then have "s = guarded (Inr \<lparr>code = CANCELLED, message = ''the client cancelled the call''\<rparr>)" "response = None"
        using assms(3) inputs run Inr k(1,2) by (auto simp: rpc_embed_def)
      moreover have "\<exists>i<length inputs. cl_cancelled cl i"
        using False k(1,5) by (intro exI [of _ k]) simp
      ultimately show ?thesis using fine inputs by auto
    qed
  qed
qed

theorem embed_answers_witness:
  "\<exists>s st'. rpc_embed sample_api patient_client [''abca''] sample_embedder = (s, None, st') \<and> code s = INVALID_ARGUMENT"
proof -
  obtain s response st' where run: "rpc_embed sample_api patient_client [''abca''] sample_embedder = (s, response, st')"
    by (metis prod_cases3)
  have emb: "embeddings sample_embedder" "max_embed_tokens sample_embedder < length (map sample_token ''abca'')"
    by (simp_all add: sample_embedder_def)
  have "\<forall>t\<in>set [''abca'']. length t + 8 < 2 ^ 31" by simp
  note answers = embed_answers [OF sample_vocab_laws sample_pool_laws run this]
  have "code s = INVALID_ARGUMENT"
    using conjunct1 [OF conjunct2 [OF conjunct2 [OF conjunct2 [OF answers]]]] emb by simp
  moreover from this have "response = None" using conjunct1 [OF answers] by simp
  ultimately show ?thesis using run by blast
qed

section \<open>The daemon over time\<close>

text \<open>
  The calls run one after the other (Concurrency shows that interleaved ones do no more); a step is one served request that may touch
  the engine, whatever the client does meanwhile (\<open>Tokenize\<close> and \<open>GetModelInfo\<close> only read). \<open>reachable\<close> are the engine states after any number of them.
\<close>

inductive served ::
  "('c, 'h, 'g) llama_api \<Rightarrow> ('x, 't, 'f, 'q, 'r) chat_lib \<Rightarrow> 't service \<Rightarrow> 'c impl \<Rightarrow> 'c impl \<Rightarrow> bool"
  for api lib svc where
  generate: "rpc_generate api lib cl clock request st = Some (s, st', w) \<Longrightarrow> served api lib svc st st'"
| chat: "rpc_chat api lib cl clock rng svc creq st = Some (s, st', w) \<Longrightarrow> served api lib svc st st'"
| embedding: "rpc_embed api cl inputs st = (s, response, st') \<Longrightarrow> served api lib svc st st'"

inductive reachable ::
  "('c, 'h, 'g) llama_api \<Rightarrow> ('x, 't, 'f, 'q, 'r) chat_lib \<Rightarrow> 't service \<Rightarrow> 'c impl \<Rightarrow> 'c impl \<Rightarrow> bool"
  for api lib svc st0 where
  start: "reachable api lib svc st0 st0"
| step: "reachable api lib svc st0 st \<Longrightarrow> served api lib svc st st' \<Longrightarrow> reachable api lib svc st0 st'"

inductive_cases served_cases: "served api lib svc st st'"

text \<open>A served request either leaves the engine alone or is one generation.\<close>

lemma stream_generation_generates:
  assumes "stream_generation api lib cl clock prompt params stream st = Some (r, st', w)"
  shows "\<exists>r0 w0. generate api (Some (on_chunk lib cl)) clock prompt params st (start_rpc stream) = Some (r0, st', w0)"
  using assms by (auto simp: stream_generation_def split: option.splits prod.splits sum.splits)

lemma rpc_generate_generates:
  assumes "rpc_generate api lib cl clock request st = Some (s, st', w)"
  shows "st' = st \<or> \<not> embeddings st \<and> (\<exists>cl clock prompt params stream r w.
    generate api (Some (on_chunk lib cl)) clock prompt params st (start_rpc stream) = Some (r, st', w))"
proof -
  from assms have "st' = st \<or> \<not> embeddings st \<and> (\<exists>r. stream_generation api lib cl clock (v1_prompt request)
      (sampling_from_proto (v1_sampling request)) None st = Some (r, st', w))"
    by (auto simp: handler_defs split: if_splits prod.splits)
  then show ?thesis using stream_generation_generates by metis
qed

lemma rpc_chat_generates:
  assumes "rpc_chat api lib cl clock rng svc request st = Some (s, st', w)"
  shows "st' = st \<or> \<not> embeddings st \<and> (\<exists>cl clock prompt params stream r w.
    generate api (Some (on_chunk lib cl)) clock prompt params st (start_rpc stream) = Some (r, st', w))"
proof -
  from assms have "st' = st \<or> \<not> embeddings st \<and> (\<exists>prompt params stream r.
      stream_generation api lib cl clock prompt params stream st = Some (r, st', w))"
    by (auto simp: handler_defs Let_def split: if_splits prod.splits option.splits sum.splits)
  then show ?thesis using stream_generation_generates by metis
qed

lemma embed_one_shape: "embed_one api xs result st = (r, st') \<Longrightarrow> same_shape st st'"
  by (auto simp: embed_one_def Let_def split: if_splits prod.splits sum.splits option.splits)

lemma embed_loop_shape: "embed_loop api going ts i result st = (r, st') \<Longrightarrow> same_shape st st'"
proof (induction ts arbitrary: i result st)
  case (Cons x ts)
  show ?case
    using Cons.prems Cons.IH
    by (auto dest: embed_one_shape split: if_splits prod.splits sum.splits)
      (metis same_shape_trans embed_one_shape)
qed simp

lemma rpc_embed_shape:
  assumes "rpc_embed api cl inputs st = (s, response, st')"
  shows "same_shape st st' \<and> (embeddings st \<or> st' = st)"
proof -
  from assms have "st' = st \<or> embeddings st \<and> (\<exists>r. embed api inputs (Some (\<lambda>i. \<not> cl_cancelled cl i)) st = (r, st'))"
    by (auto simp: rpc_embed_def split: if_splits prod.splits sum.splits)
  then show ?thesis
    using embed_loop_shape by (auto simp: embed_def split: if_splits sum.splits)
qed

lemma served_touches:
  assumes "served api lib svc st st'"
  shows "st' = st
    \<or> \<not> embeddings st \<and> (\<exists>cl clock prompt params stream r w.
        generate api (Some (on_chunk lib cl)) clock prompt params st (start_rpc stream) = Some (r, st', w))
    \<or> embeddings st \<and> same_shape st st'"
  using assms
  by (elim served_cases)
    (blast dest: rpc_generate_generates, blast dest: rpc_chat_generates, blast dest: rpc_embed_shape)

lemma reachable_inv:
  assumes "reachable api lib svc st0 st" "engine_inv api seq st0" "0 < n_batch st0" "n_ctx_seq st0 \<le> 2 ^ 31"
  shows "same_shape st0 st \<and> (\<not> embeddings st0 \<longrightarrow> engine_inv api seq st)"
  using assms(1)
proof (induction rule: reachable.induct)
  case start
  then show ?case using assms(2) by simp
next
  case (step st st')
  have shape: "0 < n_batch st" "n_ctx_seq st \<le> 2 ^ 31" "embeddings st = embeddings st0"
    using step(3) assms(3,4) by (simp_all add: same_shape_def)
  from served_touches [OF step(2)] show ?case
  proof (elim disjE exE conjE)
    assume "st' = st"
    with step show ?thesis by simp
  next
    fix cl clock prompt params stream r w
    assume gen: "generate api (Some (on_chunk lib cl)) clock prompt params st (start_rpc stream) = Some (r, st', w)"
      and "\<not> embeddings st"
    with step(3) shape have "engine_inv api seq st" by simp
    from generate_inv [OF this shape(1,2) gen] step(3) show ?thesis using same_shape_trans by blast
  next
    assume "embeddings st" "same_shape st st'"
    with step(3) shape show ?thesis using same_shape_trans by blast
  qed
qed

text \<open>Every streaming call ends with a status, if the engine's batches are not empty.\<close>

definition answers ::
  "('c, 'h, 'g) llama_api \<Rightarrow> ('x, 't, 'f, 'q, 'r) chat_lib \<Rightarrow> 't service \<Rightarrow> 'c impl \<Rightarrow> bool" where
  "answers api lib svc st \<longleftrightarrow>
     (\<forall>cl clock request. rpc_generate api lib cl clock request st \<noteq> None)
     \<and> (\<forall>cl clock rng request. rpc_chat api lib cl clock rng svc request st \<noteq> None)"

lemma stream_generation_answers:
  assumes "0 < n_batch st"
  shows "\<exists>x. stream_generation api lib cl clock prompt params stream st = Some x"
proof -
  obtain r st' w where "generate api (Some (on_chunk lib cl)) clock prompt params st (start_rpc stream) = Some (r, st', w)"
    using generate_total [OF assms, of api "Some (on_chunk lib cl)" clock prompt params "start_rpc stream"] by blast
  then show ?thesis by (cases r) (auto simp: stream_generation_def split: prod.splits)
qed

lemma batch_answers:
  assumes "0 < n_batch st"
  shows "answers api lib svc st"
  using stream_generation_answers [OF assms]
  by (auto simp: answers_def handler_defs Let_def split: if_splits option.splits sum.splits)

text \<open>
  C7. However many requests the daemon has served, of whatever kind, cancelled or failed, with
  whatever clients: the sizes are those of the start, the next request gets an answer, and in an
  engine that generates the cache record still is what llama.cpp's memory holds and fits the context.
\<close>

theorem daemon_never_loses_its_cache:
  assumes "memory_laws api seq" and "cached st0 = seq (ctx st0)" and "length (cached st0) \<le> n_ctx_seq st0"
    and "0 < n_batch st0" and "n_ctx_seq st0 \<le> 2 ^ 31" and "reachable api lib svc st0 st"
  shows "(\<not> embeddings st0 \<longrightarrow> cached st = seq (ctx st) \<and> length (cached st) \<le> n_ctx_seq st)
    \<and> same_shape st0 st
    \<and> answers api lib svc st"
proof -
  have "engine_inv api seq st0" using assms(1-3) by (simp add: engine_inv_def kv_inv_def)
  from reachable_inv [OF assms(6) this assms(4,5)]
  have inv: "same_shape st0 st \<and> (\<not> embeddings st0 \<longrightarrow> engine_inv api seq st)" .
  then have n: "0 < n_batch st" using assms(4) by (simp add: same_shape_def)
  from batch_answers [OF n] have "answers api lib svc st" .
  with inv show ?thesis unfolding engine_inv_def kv_inv_def by metis
qed

theorem daemon_never_loses_its_cache_witness:
  "\<exists>st. reachable sample_api sample_chat sample_service (sample_impl []) st
    \<and> cached st = ctx st \<and> length (cached st) \<le> 16"
proof -
  have shape: "\<not> embeddings (sample_impl [])" "0 < n_batch (sample_impl [])" "n_ctx_seq (sample_impl []) = 16"
    by (simp_all add: sample_impl_def)
  obtain s st w where "rpc_generate sample_api sample_chat patient_client (\<lambda>_. Fin 0) sample_call
      (sample_impl []) = Some (s, st, w)"
    by (rule rpc_generate_body [OF shape(1,2)])
  then have r: "reachable sample_api sample_chat sample_service (sample_impl []) st"
    by (intro reachable.step [OF reachable.start] served.generate)
  have "cached (sample_impl []) = ctx (sample_impl [])"
    "length (cached (sample_impl [])) \<le> n_ctx_seq (sample_impl [])" "0 < n_batch (sample_impl [])"
    "n_ctx_seq (sample_impl []) \<le> 2 ^ 31"
    by (simp_all add: sample_impl_def)
  from daemon_never_loses_its_cache [OF sample_memory_laws this r]
  have "cached st = ctx st \<and> length (cached st) \<le> n_ctx_seq st \<and> same_shape (sample_impl []) st"
    using shape(1) by blast
  moreover from this have "n_ctx_seq st = 16" using shape(3) by (simp add: same_shape_def)
  ultimately show ?thesis using r by metis
qed

end
