(* ===== verification/Mutex.thy ===== *)
theory Mutex
  imports Prelude
begin

text \<open>
  Threads that share one state under one mutex, as the request threads share the context under
  \<open>context_mutex\<close> (\<open>std::lock_guard\<close>, src/engine.cpp). A call is prepared without the lock, waits for
  it, works in the section it guards step by step, releases it on every way out and finishes
  without it. The threads run in any order. What a handler does in each part is a parameter; the
  theory shows for any handler that the calls are serial, exclude each other and all end.
\<close>

section \<open>Threads\<close>

datatype ('l, 'a, 'r) phase =
    Arrived
  | Waiting 'l
  | Inside 'l
  | Leaving 'a
  | Returned 'a
  | Answered 'r

text \<open>
  The calls with where they are, the owner of the mutex, and the shared state. \<open>trail\<close> only records:
  the calls in the order in which they released the mutex, or were answered without it.
\<close>

record ('q, 'l, 'a, 'r, 's) pool =
  calls :: "('q \<times> ('l, 'a, 'r) phase) list"
  holder :: "nat option"
  shared :: 's
  trail :: "nat list"

definition new_pool :: "'q list \<Rightarrow> 's \<Rightarrow> ('q, 'l, 'a, 'r, 's) pool" where
  "new_pool qs st = \<lparr>calls = map (\<lambda>q. (q, Arrived)) qs, holder = None, shared = st, trail = []\<rparr>"

definition move_to ::
  "nat \<Rightarrow> ('l, 'a, 'r) phase \<Rightarrow> ('q, 'l, 'a, 'r, 's) pool \<Rightarrow> ('q, 'l, 'a, 'r, 's) pool" where
  "move_to i p S = S\<lparr>calls := (calls S)[i := (fst (calls S ! i), p)]\<rparr>"

text \<open>
  The next step of thread \<open>i\<close>; \<open>None\<close> if it has none, or is blocked. Nothing but the lock keeps a
  thread that is inside from going on: that no other is there is a theorem.
\<close>

definition turn ::
  "('q \<Rightarrow> 's \<Rightarrow> 'r + 'l) \<Rightarrow> ('l \<Rightarrow> 's \<Rightarrow> ('l + 'a) \<times> 's) \<Rightarrow> ('q \<Rightarrow> 'a \<Rightarrow> 'r) \<Rightarrow> nat
     \<Rightarrow> ('q, 'l, 'a, 'r, 's) pool \<Rightarrow> ('q, 'l, 'a, 'r, 's) pool option" where
  "turn prep crit post i S =
     (if i < length (calls S) then
        (case snd (calls S ! i) of
           Arrived \<Rightarrow>
             (case prep (fst (calls S ! i)) (shared S) of
                Inl r \<Rightarrow> Some (move_to i (Answered r) S\<lparr>trail := trail S @ [i]\<rparr>)
              | Inr l \<Rightarrow> Some (move_to i (Waiting l) S))
         | Waiting l \<Rightarrow>
             if holder S = None then Some (move_to i (Inside l) S\<lparr>holder := Some i\<rparr>) else None
         | Inside l \<Rightarrow>
             (case crit l (shared S) of
                (Inl l', s) \<Rightarrow> Some (move_to i (Inside l') S\<lparr>shared := s\<rparr>)
              | (Inr a, s) \<Rightarrow> Some (move_to i (Leaving a) S\<lparr>shared := s\<rparr>))
         | Leaving a \<Rightarrow> Some (move_to i (Returned a) S\<lparr>holder := None, trail := trail S @ [i]\<rparr>)
         | Returned a \<Rightarrow> Some (move_to i (Answered (post (fst (calls S ! i)) a)) S)
         | Answered r \<Rightarrow> None)
      else None)"

inductive moves ::
  "('q \<Rightarrow> 's \<Rightarrow> 'r + 'l) \<Rightarrow> ('l \<Rightarrow> 's \<Rightarrow> ('l + 'a) \<times> 's) \<Rightarrow> ('q \<Rightarrow> 'a \<Rightarrow> 'r)
     \<Rightarrow> ('q, 'l, 'a, 'r, 's) pool \<Rightarrow> ('q, 'l, 'a, 'r, 's) pool \<Rightarrow> bool"
  for prep crit post where
  moves: "turn prep crit post i S = Some S' \<Longrightarrow> moves prep crit post S S'"

inductive schedule ::
  "('q \<Rightarrow> 's \<Rightarrow> 'r + 'l) \<Rightarrow> ('l \<Rightarrow> 's \<Rightarrow> ('l + 'a) \<times> 's) \<Rightarrow> ('q \<Rightarrow> 'a \<Rightarrow> 'r)
     \<Rightarrow> ('q, 'l, 'a, 'r, 's) pool \<Rightarrow> ('q, 'l, 'a, 'r, 's) pool \<Rightarrow> bool"
  for prep crit post S0 where
  start: "schedule prep crit post S0 S0"
| step: "schedule prep crit post S0 S \<Longrightarrow> moves prep crit post S S' \<Longrightarrow> schedule prep crit post S0 S'"

text \<open>A schedule given as the list of threads that run.\<close>

fun turns ::
  "('q \<Rightarrow> 's \<Rightarrow> 'r + 'l) \<Rightarrow> ('l \<Rightarrow> 's \<Rightarrow> ('l + 'a) \<times> 's) \<Rightarrow> ('q \<Rightarrow> 'a \<Rightarrow> 'r) \<Rightarrow> nat list
     \<Rightarrow> ('q, 'l, 'a, 'r, 's) pool \<Rightarrow> ('q, 'l, 'a, 'r, 's) pool option" where
  "turns prep crit post [] S = Some S"
| "turns prep crit post (i # is) S =
     (case turn prep crit post i S of None \<Rightarrow> None | Some S' \<Rightarrow> turns prep crit post is S')"

lemma schedule_trans:
  assumes "schedule prep crit post S1 S2" "schedule prep crit post S0 S1"
  shows "schedule prep crit post S0 S2"
  using assms by (induction rule: schedule.induct) (blast intro: schedule.step)+

lemma turns_schedule: "turns prep crit post is S = Some S' \<Longrightarrow> schedule prep crit post S S'"
proof (induction "is" arbitrary: S)
  case (Cons i "is")
  then obtain S1 where "turn prep crit post i S = Some S1" "turns prep crit post is S1 = Some S'"
    by (auto split: option.splits)
  with Cons.IH have "schedule prep crit post S S1" "schedule prep crit post S1 S'"
    by (auto intro: schedule.intros moves.intros)
  then show ?case using schedule_trans by blast
qed (simp add: schedule.start)

text \<open>The section is where the state may be touched.\<close>

fun in_section :: "('l, 'a, 'r) phase \<Rightarrow> bool" where
  "in_section (Inside l) = True"
| "in_section (Leaving a) = True"
| "in_section _ = False"

text \<open>What a call answers, once that is settled.\<close>

fun final_answer :: "('q \<Rightarrow> 'a \<Rightarrow> 'r) \<Rightarrow> 'q \<times> ('l, 'a, 'r) phase \<Rightarrow> 'r option" where
  "final_answer post (q, Returned a) = Some (post q a)"
| "final_answer post (q, Answered r) = Some r"
| "final_answer post (q, _) = None"

text \<open>The calls one after the other, each as a whole.\<close>

fun serial :: "('q \<Rightarrow> 's \<Rightarrow> ('r \<times> 's) option) \<Rightarrow> 'q list \<Rightarrow> 's \<Rightarrow> ('r list \<times> 's) option" where
  "serial atomic [] st = Some ([], st)"
| "serial atomic (q # qs) st =
     (case atomic q st of
        None \<Rightarrow> None
      | Some (r, st) \<Rightarrow> (case serial atomic qs st of None \<Rightarrow> None | Some (rs, st) \<Rightarrow> Some (r # rs, st)))"

lemma serial_snoc:
  "serial atomic (qs @ [q]) st =
     (case serial atomic qs st of
        None \<Rightarrow> None
      | Some (rs, st) \<Rightarrow> (case atomic q st of None \<Rightarrow> None | Some (r, st) \<Rightarrow> Some (rs @ [r], st)))"
  by (induction qs arbitrary: st) (auto split: option.splits)

lemma serial_length: "serial atomic qs st = Some (rs, st') \<Longrightarrow> length rs = length qs"
  by (induction qs arbitrary: st rs) (auto split: option.splits)

definition query :: "('q, 'l, 'a, 'r, 's) pool \<Rightarrow> nat \<Rightarrow> 'q" where
  "query S i = fst (calls S ! i)"

definition phase_of :: "('q, 'l, 'a, 'r, 's) pool \<Rightarrow> nat \<Rightarrow> ('l, 'a, 'r) phase" where
  "phase_of S i = snd (calls S ! i)"

lemma call_of: "calls S ! i = (query S i, phase_of S i)"
  by (simp add: query_def phase_of_def)

lemma move_to_simps [simp]:
  "length (calls (move_to i p S)) = length (calls S)" "holder (move_to i p S) = holder S"
  "shared (move_to i p S) = shared S" "trail (move_to i p S) = trail S"
  "query (move_to i p S) j = query S j"
  "i < length (calls S) \<Longrightarrow> phase_of (move_to i p S) j = (if j = i then p else phase_of S j)"
  by (auto simp: move_to_def query_def phase_of_def nth_list_update)
    (metis fst_conv list_update_beyond linorder_not_less nth_list_update_eq nth_list_update_neq)

lemma pool_simps [simp]:
  "query (S\<lparr>holder := h\<rparr>) = query S" "query (S\<lparr>shared := s\<rparr>) = query S" "query (S\<lparr>trail := t\<rparr>) = query S"
  "phase_of (S\<lparr>holder := h\<rparr>) = phase_of S" "phase_of (S\<lparr>shared := s\<rparr>) = phase_of S"
  "phase_of (S\<lparr>trail := t\<rparr>) = phase_of S"
  by (auto simp: query_def phase_of_def)

lemma turn_cases [consumes 1, case_names refused queued locked worked ended unlocked replied]:
  assumes "turn prep crit post i S = Some S'"
  obtains r where "i < length (calls S)" "phase_of S i = Arrived" "prep (query S i) (shared S) = Inl r"
      "S' = move_to i (Answered r) S\<lparr>trail := trail S @ [i]\<rparr>"
  | l where "i < length (calls S)" "phase_of S i = Arrived" "prep (query S i) (shared S) = Inr l"
      "S' = move_to i (Waiting l) S"
  | l where "i < length (calls S)" "phase_of S i = Waiting l" "holder S = None"
      "S' = move_to i (Inside l) S\<lparr>holder := Some i\<rparr>"
  | l l' s where "i < length (calls S)" "phase_of S i = Inside l" "crit l (shared S) = (Inl l', s)"
      "S' = move_to i (Inside l') S\<lparr>shared := s\<rparr>"
  | l a s where "i < length (calls S)" "phase_of S i = Inside l" "crit l (shared S) = (Inr a, s)"
      "S' = move_to i (Leaving a) S\<lparr>shared := s\<rparr>"
  | a where "i < length (calls S)" "phase_of S i = Leaving a"
      "S' = move_to i (Returned a) S\<lparr>holder := None, trail := trail S @ [i]\<rparr>"
  | a where "i < length (calls S)" "phase_of S i = Returned a"
      "S' = move_to i (Answered (post (query S i) a)) S"
  using assms
  by (auto simp: turn_def call_of split: if_splits phase.splits sum.splits prod.splits)

section \<open>What a handler promises\<close>

text \<open>
  \<open>run\<close> is the whole section from a point in it, \<open>atomic\<close> the whole call. What is prepared depends on
  the part of the state that no section changes (\<open>shape\<close>).
\<close>

locale mutex_handler =
  fixes prep :: "'q \<Rightarrow> 's \<Rightarrow> 'r + 'l"
    and crit :: "'l \<Rightarrow> 's \<Rightarrow> ('l + 'a) \<times> 's"
    and post :: "'q \<Rightarrow> 'a \<Rightarrow> 'r"
    and run :: "'l \<Rightarrow> 's \<Rightarrow> ('a \<times> 's) option"
    and atomic :: "'q \<Rightarrow> 's \<Rightarrow> ('r \<times> 's) option"
    and shape :: "'s \<Rightarrow> 's \<Rightarrow> bool"
    and less :: "(('l \<times> 's) \<times> 'l \<times> 's) set"
    and sound :: "'s \<Rightarrow> bool"
  assumes shape_refl: "shape s s"
    and shape_trans: "\<lbrakk>shape s t; shape t u\<rbrakk> \<Longrightarrow> shape s u"
    and prep_shape: "shape s t \<Longrightarrow> prep q t = prep q s"
    and crit_shape: "crit l s = (x, t) \<Longrightarrow> shape s t"
    and run_work: "crit l s = (Inl l', t) \<Longrightarrow> run l s = run l' t"
    and run_end: "crit l s = (Inr a, t) \<Longrightarrow> run l s = Some (a, t)"
    and atomic_refused: "prep q s = Inl r \<Longrightarrow> atomic q s = Some (r, s)"
    and atomic_run: "prep q s = Inr l \<Longrightarrow> atomic q s = map_option (\<lambda>(a, t). (post q a, t)) (run l s)"
    and sound_shape: "\<lbrakk>shape s t; sound s\<rbrakk> \<Longrightarrow> sound t"
    and less_wf: "wf less"
    and crit_less: "\<lbrakk>crit l s = (Inl l', t); sound s\<rbrakk> \<Longrightarrow> ((l', t), l, s) \<in> less"
begin

text \<open>The owner of the mutex is the one thread in the section.\<close>

definition exclusive :: "('q, 'l, 'a, 'r, 's) pool \<Rightarrow> bool" where
  "exclusive S \<longleftrightarrow> (\<forall>i. i < length (calls S) \<and> in_section (phase_of S i) \<longleftrightarrow> holder S = Some i)"

definition answer_of :: "('q, 'l, 'a, 'r, 's) pool \<Rightarrow> nat \<Rightarrow> 'r option" where
  "answer_of S i = final_answer post (query S i, phase_of S i)"

definition recorded :: "('q, 'l, 'a, 'r, 's) pool \<Rightarrow> bool" where
  "recorded S \<longleftrightarrow> distinct (trail S)
     \<and> (\<forall>i. i \<in> set (trail S) \<longleftrightarrow> i < length (calls S) \<and> answer_of S i \<noteq> None)"

text \<open>Where a thread is when the calls that are settled have left the state \<open>s\<close>.\<close>

definition on_its_way :: "'s \<Rightarrow> 's \<Rightarrow> 'q \<Rightarrow> ('l, 'a, 'r) phase \<Rightarrow> 's \<Rightarrow> bool" where
  "on_its_way s0 s q p now \<longleftrightarrow>
     (case p of
        Waiting l \<Rightarrow> prep q s0 = Inr l
      | Inside l \<Rightarrow> atomic q s = map_option (\<lambda>(a, t). (post q a, t)) (run l now)
      | Leaving a \<Rightarrow> atomic q s = Some (post q a, now)
      | _ \<Rightarrow> True)"

definition serialised :: "'s \<Rightarrow> ('q, 'l, 'a, 'r, 's) pool \<Rightarrow> 'r list \<Rightarrow> 's \<Rightarrow> bool" where
  "serialised s0 S rs s \<longleftrightarrow>
     serial atomic (map (query S) (trail S)) s0 = Some (rs, s)
     \<and> map Some rs = map (answer_of S) (trail S)
     \<and> shape s0 (shared S) \<and> shape s0 s
     \<and> (holder S = None \<longrightarrow> shared S = s)
     \<and> (\<forall>i<length (calls S). on_its_way s0 s (query S i) (phase_of S i) (shared S))"

lemma exclusive_new: "exclusive (new_pool qs s0)"
  by (auto simp: exclusive_def new_pool_def phase_of_def)

lemma exclusive_move:
  assumes "exclusive S" "i < length (calls S)" "in_section p = in_section (phase_of S i)"
  shows "exclusive (move_to i p S)"
  unfolding exclusive_def
proof
  fix j
  show "j < length (calls (move_to i p S)) \<and> in_section (phase_of (move_to i p S) j)
    \<longleftrightarrow> holder (move_to i p S) = Some j"
    using assms(2,3) assms(1) [unfolded exclusive_def, rule_format, of j] by (cases "j = i") simp_all
qed

lemma exclusive_lock:
  assumes "exclusive S" "i < length (calls S)" "holder S = None"
  shows "exclusive (move_to i (Inside l) S\<lparr>holder := Some i\<rparr>)"
  unfolding exclusive_def
proof
  fix j
  show "j < length (calls (move_to i (Inside l) S\<lparr>holder := Some i\<rparr>))
      \<and> in_section (phase_of (move_to i (Inside l) S\<lparr>holder := Some i\<rparr>) j)
    \<longleftrightarrow> holder (move_to i (Inside l) S\<lparr>holder := Some i\<rparr>) = Some j"
    using assms(2,3) assms(1) [unfolded exclusive_def, rule_format, of j] by (cases "j = i") simp_all
qed

lemma exclusive_unlock:
  assumes "exclusive S" "i < length (calls S)" "phase_of S i = Leaving a"
  shows "exclusive (move_to i (Returned a) S\<lparr>holder := None\<rparr>)"
  unfolding exclusive_def
proof
  fix j
  have "holder S = Some i" using assms unfolding exclusive_def by (metis in_section.simps(2))
  then show "j < length (calls (move_to i (Returned a) S\<lparr>holder := None\<rparr>))
      \<and> in_section (phase_of (move_to i (Returned a) S\<lparr>holder := None\<rparr>) j)
    \<longleftrightarrow> holder (move_to i (Returned a) S\<lparr>holder := None\<rparr>) = Some j"
    using assms(2) assms(1) [unfolded exclusive_def, rule_format, of j] by (cases "j = i") simp_all
qed

lemma exclusive_trail [simp]: "exclusive (S\<lparr>trail := tr\<rparr>) = exclusive S" "exclusive (S\<lparr>shared := s\<rparr>) = exclusive S"
  by (simp_all add: exclusive_def)

lemma exclusive_turn:
  assumes "turn prep crit post i S = Some S'" "exclusive S"
  shows "exclusive S'"
  using assms(1)
  by (cases rule: turn_cases) (simp_all add: assms(2) exclusive_move exclusive_lock exclusive_unlock)

lemma exclusive_schedule: "schedule prep crit post S0 S \<Longrightarrow> exclusive S0 \<Longrightarrow> exclusive S"
  by (induction rule: schedule.induct) (auto elim!: moves.cases dest: exclusive_turn)

lemma answer_of_simps [simp]:
  "answer_of (S\<lparr>holder := h\<rparr>) = answer_of S" "answer_of (S\<lparr>shared := s\<rparr>) = answer_of S"
  "answer_of (S\<lparr>trail := t\<rparr>) = answer_of S"
  by (auto simp: answer_of_def)

lemma answer_of_move:
  "i < length (calls S) \<Longrightarrow>
     answer_of (move_to i p S) j = (if j = i then final_answer post (query S i, p) else answer_of S j)"
  by (simp add: answer_of_def)

lemma recorded_new: "recorded (new_pool qs s0)"
  by (auto simp: recorded_def new_pool_def answer_of_def phase_of_def)

lemma recorded_quiet:
  assumes "recorded S" "trail S' = trail S" "length (calls S') = length (calls S)"
    and "\<And>j. (answer_of S' j = None) = (answer_of S j = None)"
  shows "recorded S'"
  using assms by (simp add: recorded_def)

lemma recorded_settles:
  assumes "recorded S" "trail S' = trail S @ [i]" "length (calls S') = length (calls S)" "i < length (calls S)"
    and "answer_of S i = None" "answer_of S' i \<noteq> None" "\<And>j. j \<noteq> i \<Longrightarrow> answer_of S' j = answer_of S j"
  shows "recorded S'"
proof -
  have "i \<notin> set (trail S)" using assms(1,5) by (auto simp: recorded_def)
  moreover have "j \<in> set (trail S') \<longleftrightarrow> j < length (calls S') \<and> answer_of S' j \<noteq> None" for j
    using assms by (cases "j = i") (auto simp: recorded_def)
  ultimately show ?thesis using assms(1,2) by (simp add: recorded_def)
qed

lemma recorded_turn:
  assumes "turn prep crit post i S = Some S'" "recorded S"
  shows "recorded S'"
  using assms(1)
proof (cases rule: turn_cases)
  case refused
  then show ?thesis by (intro recorded_settles [OF assms(2)]) (auto simp: answer_of_def)
next
  case unlocked
  then show ?thesis by (intro recorded_settles [OF assms(2)]) (auto simp: answer_of_def)
qed (intro recorded_quiet [OF assms(2)]; auto simp: answer_of_def)+

lemma serialised_new: "serialised s0 (new_pool qs s0) [] s0"
  using shape_refl by (auto simp: serialised_def new_pool_def on_its_way_def phase_of_def query_def)

text \<open>The steps that settle nothing.\<close>

lemma serialised_quiet:
  assumes "serialised s0 S rs s" "trail S' = trail S" "query S' = query S"
    and "\<And>j. j \<in> set (trail S) \<Longrightarrow> answer_of S' j = answer_of S j"
    and "shape s0 (shared S')" "holder S' = None \<Longrightarrow> shared S' = s"
    and "\<And>j. j < length (calls S') \<Longrightarrow> on_its_way s0 s (query S j) (phase_of S' j) (shared S')"
  shows "serialised s0 S' rs s"
  using assms by (auto simp: serialised_def cong: map_cong)

text \<open>The steps that settle a call: \<open>i\<close> is recorded, and what it answers is what it does as a whole.\<close>

lemma serialised_settles:
  assumes "serialised s0 S rs s" "trail S' = trail S @ [i]" "query S' = query S"
    and "atomic (query S i) s = Some (r, t)" "answer_of S' i = Some r"
    and "\<And>j. j \<in> set (trail S) \<Longrightarrow> answer_of S' j = answer_of S j"
    and "shape s0 (shared S')" "shape s0 t" "holder S' = None \<Longrightarrow> shared S' = t"
    and "\<And>j. j < length (calls S') \<Longrightarrow> on_its_way s0 t (query S j) (phase_of S' j) (shared S')"
  shows "serialised s0 S' (rs @ [r]) t"
  using assms by (auto simp: serialised_def serial_snoc cong: map_cong)

lemma on_its_way_outside:
  "\<lbrakk>on_its_way s0 s q p now; \<not> in_section p\<rbrakk> \<Longrightarrow> on_its_way s0 s' q p now'"
  by (cases p) (auto simp: on_its_way_def)

lemma serialised_turn:
  assumes "turn prep crit post i S = Some S'" "exclusive S" "recorded S" "serialised s0 S rs s"
  shows "\<exists>rs' s'. serialised s0 S' rs' s'"
proof -
  have ways: "on_its_way s0 s (query S j) (phase_of S j) (shared S)" if "j < length (calls S)" for j
    using assms(4) that by (simp add: serialised_def)
  have shapes: "shape s0 (shared S)" "shape s0 s" using assms(4) by (simp_all add: serialised_def)
  have fresh: "i \<notin> set (trail S)" if "answer_of S i = None"
    using assms(3) that by (auto simp: recorded_def)
  have alone: "\<not> in_section (phase_of S j)" if "in_section (phase_of S i)" "j \<noteq> i"
      "i < length (calls S)" "j < length (calls S)" for j
    using assms(2) that unfolding exclusive_def by (metis option.inject)
  have owned: "holder S = Some i" if "in_section (phase_of S i)" "i < length (calls S)"
    using assms(2) that unfolding exclusive_def by blast
  from assms(1) show ?thesis
  proof (cases rule: turn_cases)
    case (refused r)
    have "prep (query S i) s = Inl r"
      using prep_shape [OF shapes(1)] prep_shape [OF shapes(2)] refused(3) by metis
    then have "serialised s0 S' (rs @ [r]) s"
      using assms(4) ways fresh refused shapes
      by (intro serialised_settles [OF assms(4), where i = i])
        (auto simp: atomic_refused answer_of_def serialised_def on_its_way_def)
    then show ?thesis by blast
  next
    case (queued l)
    then have "serialised s0 S' rs s"
      using assms(4) ways fresh shapes prep_shape [OF shapes(1)]
      by (intro serialised_quiet [OF assms(4)]) (auto simp: answer_of_def serialised_def on_its_way_def)
    then show ?thesis by blast
  next
    case (locked l)
    have "shared S = s" using assms(4) locked(3) by (simp add: serialised_def)
    moreover have "prep (query S i) (shared S) = Inr l"
      using ways [OF locked(1)] locked(2) prep_shape [OF shapes(1)] by (simp add: on_its_way_def)
    ultimately have "serialised s0 S' rs s"
      using locked ways shapes
      by (intro serialised_quiet [OF assms(4)])
        (auto simp: answer_of_def on_its_way_def [where p = "Inside l" for l] atomic_run)
    then show ?thesis by blast
  next
    case (worked l l' t)
    have "shape s0 t" using crit_shape [OF worked(3)] shapes shape_trans by blast
    moreover have "on_its_way s0 s (query S j) (phase_of S' j) t" if "j < length (calls S)" for j
    proof (cases "j = i")
      case True
      then show ?thesis using ways [OF worked(1)] worked run_work [OF worked(3)] by (simp add: on_its_way_def)
    next
      case False
      then show ?thesis
        using on_its_way_outside [OF ways [OF that]] alone [OF _ _ worked(1) that] worked by simp
    qed
    ultimately have "serialised s0 S' rs s"
      using worked owned by (intro serialised_quiet [OF assms(4)]) (auto simp: answer_of_def)
    then show ?thesis by blast
  next
    case (ended l a t)
    have "shape s0 t" using crit_shape [OF ended(3)] shapes shape_trans by blast
    moreover have "on_its_way s0 s (query S j) (phase_of S' j) t" if "j < length (calls S)" for j
    proof (cases "j = i")
      case True
      then show ?thesis using ways [OF ended(1)] ended run_end [OF ended(3)] by (simp add: on_its_way_def)
    next
      case False
      then show ?thesis
        using on_its_way_outside [OF ways [OF that]] alone [OF _ _ ended(1) that] ended by simp
    qed
    ultimately have "serialised s0 S' rs s"
      using ended owned by (intro serialised_quiet [OF assms(4)]) (auto simp: answer_of_def)
    then show ?thesis by blast
  next
    case (unlocked a)
    have "on_its_way s0 (shared S) (query S j) (phase_of S' j) (shared S)" if "j < length (calls S)" for j
    proof (cases "j = i")
      case True
      then show ?thesis using unlocked by (simp add: on_its_way_def)
    next
      case False
      then show ?thesis
        using on_its_way_outside [OF ways [OF that]] alone [OF _ _ unlocked(1) that] unlocked by simp
    qed
    then have "serialised s0 S' (rs @ [post (query S i) a]) (shared S)"
      using ways [OF unlocked(1)] unlocked shapes fresh
      by (intro serialised_settles [OF assms(4), where i = i]) (auto simp: answer_of_def on_its_way_def)
    then show ?thesis by blast
  next
    case (replied a)
    then have "serialised s0 S' rs s"
      using assms(4) ways
      by (intro serialised_quiet [OF assms(4)]) (auto simp: answer_of_def serialised_def on_its_way_def)
    then show ?thesis by blast
  qed
qed

text \<open>However the threads are scheduled, the calls that are settled are serial.\<close>

lemma calls_are_serial:
  assumes "schedule prep crit post (new_pool qs s0) S"
  shows "exclusive S \<and> recorded S \<and> (\<exists>rs s. serialised s0 S rs s)"
  using assms
proof (induction rule: schedule.induct)
  case start
  then show ?case using exclusive_new recorded_new serialised_new by blast
next
  case (step S S')
  then show ?case
    by (auto elim!: moves.cases intro: exclusive_turn recorded_turn dest: serialised_turn)
qed

text \<open>The same, spelled out.\<close>

lemma one_in_section:
  assumes "schedule prep crit post (new_pool qs s0) S" "i < length (calls S)"
  shows "in_section (phase_of S i) \<longleftrightarrow> holder S = Some i"
  using calls_are_serial [OF assms(1)] assms(2) unfolding exclusive_def by metis

lemma serial_calls:
  assumes "schedule prep crit post (new_pool qs s0) S"
  shows "\<exists>rs s. serial atomic (map (query S) (trail S)) s0 = Some (rs, s)
    \<and> map Some rs = map (\<lambda>i. final_answer post (query S i, phase_of S i)) (trail S)
    \<and> (holder S = None \<longrightarrow> shared S = s) \<and> distinct (trail S)
    \<and> (\<forall>i. i \<in> set (trail S) \<longleftrightarrow>
          i < length (calls S) \<and> final_answer post (query S i, phase_of S i) \<noteq> None)"
proof -
  obtain rs s where "recorded S" "serialised s0 S rs s" using calls_are_serial [OF assms] by blast
  then show ?thesis
    by (intro exI [of _ rs] exI [of _ s]) (simp add: recorded_def serialised_def answer_of_def)
qed

text \<open>
  What every step of a section keeps holds at every point of every schedule; \<open>J\<close> is what is known of
  the work the threads have before them.
\<close>

lemma schedule_keeps:
  assumes "schedule prep crit post (new_pool qs s0) S" "P s0"
    and "\<And>q s l. P s \<Longrightarrow> prep q s = Inr l \<Longrightarrow> J l"
    and "\<And>l s l' t. P s \<Longrightarrow> J l \<Longrightarrow> crit l s = (Inl l', t) \<Longrightarrow> P t \<and> J l'"
    and "\<And>l s a t. P s \<Longrightarrow> J l \<Longrightarrow> crit l s = (Inr a, t) \<Longrightarrow> P t"
  shows "P (shared S) \<and> (\<forall>i<length (calls S). \<forall>l. phase_of S i = Waiting l \<or> phase_of S i = Inside l \<longrightarrow> J l)"
  using assms(1)
proof (induction rule: schedule.induct)
  case start
  then show ?case using assms(2) by (simp add: new_pool_def phase_of_def)
next
  case (step S S')
  from step.hyps(2) obtain i where "turn prep crit post i S = Some S'" by (auto elim: moves.cases)
  then show ?case
  proof (cases rule: turn_cases)
    case (queued l)
    with step.IH assms(3) show ?thesis by auto
  next
    case (worked l l' t)
    with step.IH assms(4) [OF _ _ worked(3)] show ?thesis by auto
  next
    case (ended l a t)
    with step.IH assms(5) [OF _ _ ended(3)] show ?thesis by auto
  qed (use step.IH in auto)
qed

text \<open>The record only grows.\<close>

lemma schedule_trail:
  assumes "schedule prep crit post S0 S"
  shows "prefix (trail S0) (trail S)"
  using assms
proof (induction rule: schedule.induct)
  case (step S S')
  from step.hyps(2) obtain i where "turn prep crit post i S = Some S'" by (auto elim: moves.cases)
  then show ?case by (cases rule: turn_cases) (use step.IH in auto)
qed simp

section \<open>Every call ends\<close>

text \<open>The queries never change.\<close>

lemma schedule_query:
  assumes "schedule prep crit post S0 S"
  shows "length (calls S) = length (calls S0) \<and> query S = query S0"
  using assms
proof (induction rule: schedule.induct)
  case (step S S')
  from step.hyps(2) obtain i where "turn prep crit post i S = Some S'" by (auto elim: moves.cases)
  then show ?case by (cases rule: turn_cases) (use step.IH in auto)
qed simp

definition weight :: "('l, 'a, 'r) phase \<Rightarrow> nat" where
  "weight p = (case p of Arrived \<Rightarrow> 5 | Waiting _ \<Rightarrow> 4 | Inside _ \<Rightarrow> 3 | Leaving _ \<Rightarrow> 2 | Returned _ \<Rightarrow> 1 | Answered _ \<Rightarrow> 0)"

definition weights :: "('q, 'l, 'a, 'r, 's) pool \<Rightarrow> nat" where
  "weights S = (\<Sum>i<length (calls S). weight (phase_of S i))"

text \<open>The work of the thread that has the lock.\<close>

definition focus :: "('q, 'l, 'a, 'r, 's) pool \<Rightarrow> 'l \<times> 's" where
  "focus S = (case holder S of
      Some i \<Rightarrow> (case phase_of S i of Inside l \<Rightarrow> (l, shared S) | _ \<Rightarrow> undefined) | None \<Rightarrow> undefined)"

lemma weights_simps [simp]:
  "weights (S\<lparr>holder := h\<rparr>) = weights S" "weights (S\<lparr>shared := s\<rparr>) = weights S"
  "weights (S\<lparr>trail := t\<rparr>) = weights S"
  by (simp_all add: weights_def)

lemma weights_move:
  assumes "i < length (calls S)"
  shows "weights (move_to i p S) + weight (phase_of S i) = weights S + weight p"
proof -
  let ?n = "length (calls S)"
  have "(\<Sum>j<?n. f j) = f i + (\<Sum>j\<in>{..<?n} - {i}. f j)" for f :: "nat \<Rightarrow> nat"
    using assms by (intro sum.remove) auto
  moreover have "(\<Sum>j\<in>{..<?n} - {i}. weight (phase_of (move_to i p S) j))
      = (\<Sum>j\<in>{..<?n} - {i}. weight (phase_of S j))"
    using assms by (intro sum.cong) auto
  ultimately show ?thesis using assms by (simp add: weights_def)
qed

lemma weights_less:
  assumes "i < length (calls S)" "weight p < weight (phase_of S i)"
  shows "weights (move_to i p S) < weights S"
  using weights_move [OF assms(1), of p] assms(2) by linarith

definition progress :: "(('q, 'l, 'a, 'r, 's) pool \<times> ('q, 'l, 'a, 'r, 's) pool) set" where
  "progress = inv_image (less_than <*lex*> less) (\<lambda>S. (weights S, focus S))"

lemma wf_progress: "wf progress"
  unfolding progress_def using less_wf by (intro wf_inv_image wf_lex_prod wf_less_than)

lemma turn_progress:
  assumes "turn prep crit post i S = Some S'" "exclusive S" "sound (shared S)"
  shows "(S', S) \<in> progress"
  using assms(1)
proof (cases rule: turn_cases)
  case (worked l l' t)
  then have "holder S = Some i" using assms(2) unfolding exclusive_def by (metis in_section.simps(1))
  moreover have "weights S' = weights S" using weights_move [OF worked(1), of "Inside l'"] worked by (simp add: weight_def)
  ultimately show ?thesis
    using worked crit_less [OF worked(3) assms(3)] by (simp add: progress_def focus_def)
qed (use weights_less [of i S] in \<open>simp_all add: progress_def weight_def\<close>)

lemma schedule_progress:
  assumes "schedule prep crit post (new_pool qs s0) S" "sound s0" "moves prep crit post S S'"
  shows "(S', S) \<in> progress"
proof -
  have "exclusive S" "sound (shared S)"
    using calls_are_serial [OF assms(1)] assms(2) sound_shape by (auto simp: serialised_def)
  then show ?thesis using assms(3) by (auto elim!: moves.cases intro: turn_progress)
qed

text \<open>The steps of all schedules that start in the same state descend.\<close>

lemma schedules_descend:
  assumes "sound s0"
  shows "\<exists>r. wf r \<and> (\<forall>S S'. schedule prep crit post (new_pool qs s0) S \<longrightarrow> moves prep crit post S S'
    \<longrightarrow> (S', S) \<in> r)"
  using wf_progress schedule_progress assms by blast

text \<open>No schedule goes on forever.\<close>

lemma no_endless_schedule:
  assumes "sound s0"
  shows "\<not> (\<exists>f. f 0 = new_pool qs s0 \<and> (\<forall>n. moves prep crit post (f n) (f (Suc n))))"
proof
  assume "\<exists>f. f 0 = new_pool qs s0 \<and> (\<forall>n. moves prep crit post (f n) (f (Suc n)))"
  then obtain f where f: "f 0 = new_pool qs s0" "\<And>n. moves prep crit post (f n) (f (Suc n))" by blast
  have "schedule prep crit post (new_pool qs s0) (f n)" for n
    by (induction n) (use f in \<open>auto intro: schedule.intros\<close>)
  then have "(f (Suc n), f n) \<in> progress" for n using schedule_progress assms f(2) by blast
  then show False using wf_progress unfolding wf_iff_no_infinite_down_chain by blast
qed

text \<open>
  And where none can go on, every call has been answered: there is no deadlock. That holds too when
  no further call is begun.
\<close>

lemma begun_are_answered:
  assumes "schedule prep crit post (new_pool qs s0) S"
    "\<And>j. phase_of S j \<noteq> Arrived \<Longrightarrow> turn prep crit post j S = None"
  shows "holder S = None \<and> (\<forall>i<length (calls S). phase_of S i = Arrived \<or> (\<exists>r. phase_of S i = Answered r))"
proof -
  have ex: "exclusive S" using calls_are_serial [OF assms(1)] by blast
  have free: "holder S = None"
  proof (rule ccontr)
    assume "holder S \<noteq> None"
    then obtain j where "j < length (calls S)" "in_section (phase_of S j)"
      using ex unfolding exclusive_def by blast
    then show False using assms(2) [of j]
      by (cases "phase_of S j") (auto simp: turn_def call_of split: sum.splits prod.splits)
  qed
  moreover have "\<exists>r. phase_of S i = Answered r" if "i < length (calls S)" "phase_of S i \<noteq> Arrived" for i
    using assms(2) [OF that(2)] that free
    by (cases "phase_of S i") (auto simp: turn_def call_of split: sum.splits prod.splits)
  ultimately show ?thesis by blast
qed

lemma no_deadlock:
  assumes "schedule prep crit post (new_pool qs s0) S" "\<And>S'. \<not> moves prep crit post S S'"
  shows "\<forall>i<length (calls S). \<exists>r. phase_of S i = Answered r"
proof (intro allI impI)
  fix i
  assume i: "i < length (calls S)"
  have stuck: "turn prep crit post j S = None" for j
    using assms(2) moves.intros by (metis option.exhaust)
  then have "phase_of S i = Arrived \<or> (\<exists>r. phase_of S i = Answered r)"
    using begun_are_answered [OF assms(1)] i by blast
  moreover have "phase_of S i \<noteq> Arrived"
    using stuck [of i] i by (auto simp: turn_def call_of split: sum.splits)
  ultimately show "\<exists>r. phase_of S i = Answered r" by blast
qed

text \<open>So every schedule can be continued to its end.\<close>

lemma all_answered_eventually:
  assumes "schedule prep crit post (new_pool qs s0) S" "sound s0"
  shows "\<exists>S'. schedule prep crit post S S' \<and> (\<forall>i<length (calls S'). \<exists>r. phase_of S' i = Answered r)"
  using assms(1)
proof (induction S rule: wf_induct_rule [OF wf_progress])
  case (1 S)
  show ?case
  proof (cases "\<exists>S'. moves prep crit post S S'")
    case True
    then obtain S1 where S1: "moves prep crit post S S1" by blast
    have "(S1, S) \<in> progress" by (rule schedule_progress [OF 1(2) assms(2) S1])
    from "1.IH" [OF this schedule.step [OF 1(2) S1]] show ?thesis
      using S1 schedule_trans schedule.intros by metis
  next
    case False
    then show ?thesis using no_deadlock [OF 1(2)] schedule.start by blast
  qed
qed

end

end
