(* ===== verification/Concurrency.thy ===== *)
theory Concurrency
  imports Mutex Service
begin

text \<open>
  The request threads of the daemon. gRPC runs every call on a thread of its own; the engine lets one
  of them at a time into \<open>generate\<close> or \<open>embed\<close>, from the \<open>lock_guard\<close> on \<open>context_mutex\<close> to the
  return or the exception. Here a handler is cut where the code takes and leaves the lock, and inside
  where llama.cpp is called: tokenizing and trimming the cache, one chunk of the prompt, one token,
  one input embedded. The theory shows that the threads, in whatever order they run, do what the
  handlers of Service do one after the other, and that all of them are answered.
\<close>

section \<open>Calls\<close>

datatype 'r request =
    Generate_call client "nat \<Rightarrow> flt" v1_generate_request
  | Chat_call client "nat \<Rightarrow> flt" 'r v1_chat_request
  | Embed_call client "bytes list"
  | Tokenize_call v1_tokenize_request

datatype ('x, 'f, 'q, 'r) reply =
    Streamed grpc_status "('x, 'f, 'q, 'r) chat_stream rpc"
  | Embedded grpc_status "v1_embed_response option"
  | Tokenized grpc_status "token list"

text \<open>A handler as a whole, from Service.\<close>

definition handle ::
  "('c, 'h, 'g) llama_api \<Rightarrow> ('x, 't, 'f, 'q, 'r) chat_lib \<Rightarrow> 't service \<Rightarrow> 'r request \<Rightarrow> 'c impl
     \<Rightarrow> (('x, 'f, 'q, 'r) reply \<times> 'c impl) option" where
  "handle api lib svc call st =
     (case call of
        Generate_call cl clock request \<Rightarrow>
          map_option (\<lambda>(s, st, w). (Streamed s w, st)) (rpc_generate api lib cl clock request st)
      | Chat_call cl clock rng request \<Rightarrow>
          map_option (\<lambda>(s, st, w). (Streamed s w, st)) (rpc_chat api lib cl clock rng svc request st)
      | Embed_call cl inputs \<Rightarrow>
          (case rpc_embed api cl inputs st of (s, response, st) \<Rightarrow> Some (Embedded s response, st))
      | Tokenize_call request \<Rightarrow>
          (case rpc_tokenize api request of (s, tokens) \<Rightarrow> Some (Tokenized s tokens, st)))"

section \<open>A call cut at the lock\<close>

text \<open>The arguments of one \<open>generate\<close>; its callback belongs to the client.\<close>

record gen_call =
  gc_client :: client
  gc_clock :: "nat \<Rightarrow> flt"
  gc_prompt :: bytes
  gc_params :: sampling_params

text \<open>
  Where a thread is between two steps: the locals of \<open>generate\<close> or of \<open>embed\<close>, and in what it leaves
  the lock with, the client to answer or the number of inputs asked for.
\<close>

datatype ('h, 'g, 'w) job =
    Gen_start gen_call 'w
  | Gen_prompt gen_call "token list" resolved_tokens "('h, 'g) sampler_chain" generate_stats nat 'w
  | Gen_next gen_call resolved_tokens "('h, 'g) sampler_chain" generate_stats stream_filter int 'w
  | Embed_next nat "(nat \<Rightarrow> bool) option" "token list list" nat embed_result

datatype 'w outcome =
    Generated client "exn + generate_result" 'w
  | Embedding nat "exn + embed_result"

text \<open>
  What a handler does before the lock: checks, rendering a chat, converting the parameters; \<open>embed\<close>
  also measures its inputs there, \<open>generate\<close> does not.
\<close>

definition before_lock ::
  "('c, 'h, 'g) llama_api \<Rightarrow> ('x, 't, 'f, 'q, 'r) chat_lib \<Rightarrow> 't service \<Rightarrow> 'r request \<Rightarrow> 'c impl
     \<Rightarrow> ('x, 'f, 'q, 'r) reply + ('h, 'g, ('x, 'f, 'q, 'r) chat_stream rpc) job" where
  "before_lock api lib svc call st =
     (let refuse = (\<lambda>r. Inl (Streamed (guarded r) (start_rpc None)));
          refuse_embed = (\<lambda>r. Inl (Embedded (guarded r) None))
      in case call of
        Generate_call cl clock request \<Rightarrow>
          if embeddings st
          then refuse (Inr \<lparr>code = FAILED_PRECONDITION, message = embedding_model_message\<rparr>)
          else Inr (Gen_start
                 \<lparr>gc_client = cl, gc_clock = clock, gc_prompt = v1_prompt request,
                  gc_params = sampling_from_proto (v1_sampling request)\<rparr> (start_rpc None))
      | Chat_call cl clock rng request \<Rightarrow>
          if v1_messages request = []
          then refuse (Inr \<lparr>code = INVALID_ARGUMENT, message = ''messages must not be empty''\<rparr>)
          else if embeddings st
          then refuse (Inr \<lparr>code = FAILED_PRECONDITION, message = embedding_model_message\<rparr>)
          else
            (case svc_chat_format svc of
               None \<Rightarrow> refuse (Inr \<lparr>code = FAILED_PRECONDITION, message = svc_chat_unavailable_reason svc\<rparr>)
             | Some cf \<Rightarrow>
                 (case render lib cf (map message_from_proto (v1_messages request))
                         (map tool_from_proto (v1_tools request)) (v1_response_json_schema request) of
                    Inl e \<Rightarrow> refuse (Inl e)
                  | Inr rendered \<Rightarrow>
                      (case new_stream lib rendered rng of
                         Inl e \<Rightarrow> refuse (Inl e)
                       | Inr stream \<Rightarrow>
                           (let params = sampling_from_proto (v1_chat_sampling request)
                            in Inr (Gen_start
                                 \<lparr>gc_client = cl, gc_clock = clock, gc_prompt = rc_prompt rendered,
                                  gc_params = params\<lparr>sp_grammar := rc_grammar rendered,
                                    sp_preserved_tokens := rc_preserved_tokens rendered,
                                    sp_stop := sp_stop params @ rc_additional_stops rendered\<rparr>\<rparr>
                                 (start_rpc (Some stream)))))))
      | Embed_call cl inputs \<Rightarrow>
          if inputs = []
          then refuse_embed (Inr \<lparr>code = INVALID_ARGUMENT, message = ''inputs must not be empty''\<rparr>)
          else if \<not> embeddings st
          then refuse_embed (Inr \<lparr>code = FAILED_PRECONDITION,
                 message = ''the model is not an embedding model: its GGUF declares no pooling type''\<rparr>)
          else
            (case measure_inputs api (max_embed_tokens st) inputs 0 [] of
               Inl e \<Rightarrow> refuse_embed (Inl e)
             | Inr tokenized \<Rightarrow>
                 Inr (Embed_next (length inputs) (Some (\<lambda>i. \<not> cl_cancelled cl i)) tokenized 0
                        \<lparr>er_embeddings = [], er_input_tokens = 0\<rparr>))
      | Tokenize_call request \<Rightarrow>
          (case rpc_tokenize api request of (s, tokens) \<Rightarrow> Inl (Tokenized s tokens)))"

text \<open>After the lock: the end of the stream, or the answer of \<open>Embed\<close>.\<close>

definition after_lock ::
  "('x, 't, 'f, 'q, 'r) chat_lib \<Rightarrow> 'r request \<Rightarrow> ('x, 'f, 'q, 'r) chat_stream rpc outcome
     \<Rightarrow> ('x, 'f, 'q, 'r) reply" where
  "after_lock lib call x =
     (case x of
        Generated cl (Inl e) w \<Rightarrow> Streamed (guarded (Inl e)) w
      | Generated cl (Inr result) w \<Rightarrow>
          (case finish_stream lib cl result w of (r, w) \<Rightarrow> Streamed (guarded r) w)
      | Embedding wanted (Inl e) \<Rightarrow> Embedded (guarded (Inl e)) None
      | Embedding wanted (Inr result) \<Rightarrow>
          if length (er_embeddings result) < wanted
          then Embedded (guarded (Inr \<lparr>code = CANCELLED, message = ''the client cancelled the call''\<rparr>)) None
          else Embedded (guarded (Inr status_ok)) (Some (embed_to_proto result)))"

section \<open>The steps under the lock\<close>

definition locked_step ::
  "('c, 'h, 'g) llama_api \<Rightarrow> (client \<Rightarrow> 'w chunk_callback) \<Rightarrow> ('h, 'g, 'w) job \<Rightarrow> 'c impl
     \<Rightarrow> (('h, 'g, 'w) job + 'w outcome) \<times> 'c impl" where
  "locked_step api callback job st =
     (case job of
        Gen_start c w \<Rightarrow>
          (let throw = (\<lambda>e. (Inr (Generated (gc_client c) (Inl e) w), st)) in
           case tokenize api (gc_prompt c) True True of
             Inl e \<Rightarrow> throw e
           | Inr tokens \<Rightarrow>
               if tokens = [] then throw (EngineError ''the prompt tokenized to zero tokens'')
               else if n_ctx_seq st \<le> length tokens
               then throw (EngineError (''prompt is too long: '' @ dec_nat (length tokens)
                             @ '' tokens for a context of '' @ dec_nat (n_ctx_seq st)))
               else
                 (case resolve api (gc_params c) of
                    Inl e \<Rightarrow> throw e
                  | Inr resolved \<Rightarrow>
                      (case new_sampler api (gc_params c) resolved of
                         Inl e \<Rightarrow> throw e
                       | Inr s \<Rightarrow>
                           (case keep_prefix api st tokens of
                              (kept, st) \<Rightarrow>
                                (Inl (Gen_prompt c tokens resolved s
                                   (default_stats\<lparr>st_prompt_tokens := i32 (length tokens),
                                                  st_cached_prompt_tokens := i32 kept,
                                                  st_prompt_ms := gc_clock c 0\<rparr>) kept w), st)))))
      | Gen_prompt c tokens resolved s stats off w \<Rightarrow>
          if off < length tokens then
            (let n_chunk = min (n_batch st) (length tokens - off) in
             case decode api st (take n_chunk (drop off tokens)) of
               (Inl e, st) \<Rightarrow> (Inr (Generated (gc_client c) (Inl e) w), st)
             | (Inr ret, st) \<Rightarrow>
                 if ret \<noteq> 0 then (Inr (Generated (gc_client c) (Inl (prompt_error ret)) w), st)
                 else (Inl (Gen_prompt c tokens resolved s stats (off + n_chunk) w), st))
          else
            (Inl (Gen_next c resolved s stats (new_filter (sp_stop (gc_params c)))
                    (st_completion_tokens stats) w),
             st\<lparr>ctx := api_synchronize api (ctx st)\<rparr>)
      | Gen_next c resolved s stats f n w \<Rightarrow>
          (case gen_step api (callback (gc_client c)) (gc_params c) (rt_preserved resolved)
                  \<lparr>g_impl = st, g_sampler = s, g_filter = f, g_sink = w, g_completion = n\<rparr> of
             (v, g) \<Rightarrow>
               if v = Next
               then (Inl (Gen_next c resolved (g_sampler g) stats (g_filter g) (g_completion g) (g_sink g)),
                     g_impl g)
               else (case gen_end (callback (gc_client c)) (gc_clock c) stats v g of
                       (r, st, w) \<Rightarrow> (Inr (Generated (gc_client c) r w), st)))
      | Embed_next wanted going [] i result \<Rightarrow> (Inr (Embedding wanted (Inr result)), st)
      | Embed_next wanted going (tokens # rest) i result \<Rightarrow>
          if told_to_stop going i then (Inr (Embedding wanted (Inr result)), st)
          else
            (case embed_one api tokens result st of
               (Inl e, st) \<Rightarrow> (Inr (Embedding wanted (Inl e)), st)
             | (Inr result, st) \<Rightarrow> (Inl (Embed_next wanted going rest (Suc i) result), st)))"

text \<open>All the steps from a point to the end of the lock, by the loops of \<open>generate\<close> and \<open>embed\<close>.\<close>

definition locked_run ::
  "('c, 'h, 'g) llama_api \<Rightarrow> (client \<Rightarrow> 'w chunk_callback) \<Rightarrow> ('h, 'g, 'w) job \<Rightarrow> 'c impl
     \<Rightarrow> ('w outcome \<times> 'c impl) option" where
  "locked_run api callback job st =
     (case job of
        Gen_start c w \<Rightarrow>
          map_option (\<lambda>(r, st, w). (Generated (gc_client c) r w, st))
            (generate_locked api (callback (gc_client c)) (gc_clock c) (gc_prompt c) (gc_params c) st w)
      | Gen_prompt c tokens resolved s stats off w \<Rightarrow>
          (case prompt_loop (decode api) (n_batch st) tokens off st of
             None \<Rightarrow> None
           | Some (Inl e, st) \<Rightarrow> Some (Generated (gc_client c) (Inl e) w, st)
           | Some (Inr ret, st) \<Rightarrow>
               if ret \<noteq> 0 then Some (Generated (gc_client c) (Inl (prompt_error ret)) w, st)
               else
                 (case gen_reply api (callback (gc_client c)) (gc_clock c) (gc_params c)
                         (rt_preserved resolved) stats s (st\<lparr>ctx := api_synchronize api (ctx st)\<rparr>) w of
                    (r, st, w) \<Rightarrow> Some (Generated (gc_client c) r w, st)))
      | Gen_next c resolved s stats f n w \<Rightarrow>
          (case gen_loop api (callback (gc_client c)) (gc_params c) (rt_preserved resolved)
                  \<lparr>g_impl = st, g_sampler = s, g_filter = f, g_sink = w, g_completion = n\<rparr> of
             (v, g) \<Rightarrow>
               (case gen_end (callback (gc_client c)) (gc_clock c) stats v g of
                  (r, st, w) \<Rightarrow> Some (Generated (gc_client c) r w, st)))
      | Embed_next wanted going rest i result \<Rightarrow>
          (case embed_loop api going rest i result st of (r, st) \<Rightarrow> Some (Embedding wanted r, st)))"

lemma locked_step_shape:
  assumes "locked_step api callback job st = (x, st')"
  shows "same_shape st st'"
proof (cases job)
  case (Gen_start c w)
  with assms show ?thesis
    by (auto simp: locked_step_def Let_def split: sum.splits if_splits prod.splits dest: same_shape_keep)
next
  case (Gen_prompt c tokens resolved s stats off w)
  with assms show ?thesis
    by (auto simp: locked_step_def Let_def split: sum.splits if_splits prod.splits dest: same_shape_decode)
next
  case (Gen_next c resolved s stats f n w)
  let ?g = "\<lparr>g_impl = st, g_sampler = s, g_filter = f, g_sink = w, g_completion = n\<rparr>"
  obtain v g where s: "gen_step api (callback (gc_client c)) (gc_params c) (rt_preserved resolved) ?g = (v, g)"
    by (metis prod.exhaust)
  have "same_shape st (g_impl g)" using gen_step_impl [OF s] by (auto dest: same_shape_decode)
  moreover have "st' = g_impl g"
    using assms Gen_next s by (auto simp: locked_step_def gen_end_def split: if_splits prod.splits verdict.splits sum.splits)
  ultimately show ?thesis by simp
next
  case (Embed_next wanted going rest i result)
  with assms show ?thesis
    by (cases rest) (auto simp: locked_step_def split: if_splits prod.splits sum.splits dest: embed_one_shape)
qed

lemma same_shape_n_batch: "same_shape st st' \<Longrightarrow> n_batch st' = n_batch st"
  by (simp add: same_shape_def)

text \<open>The steps are what the loops do.\<close>

lemma locked_run_step:
  assumes "locked_step api callback job st = (x, st')"
  shows "locked_run api callback job st =
    (case x of Inl job' \<Rightarrow> locked_run api callback job' st' | Inr a \<Rightarrow> Some (a, st'))"
proof (cases job)
  case (Gen_start c w)
  with assms show ?thesis
    by (auto simp: locked_step_def locked_run_def generate_locked_def Let_def
        split: sum.splits if_splits prod.splits option.splits)
next
  case (Gen_prompt c tokens resolved s stats off w)
  show ?thesis
  proof (cases "off < length tokens")
    case False
    then have "prompt_loop (decode api) (n_batch st) tokens off st = Some (Inr 0, st)"
      by (subst prompt_loop.simps) simp
    with False assms Gen_prompt show ?thesis
      by (auto simp: locked_step_def locked_run_def gen_reply_def Let_def split: prod.splits)
  next
    case True
    define n where "n = min (n_batch st) (length tokens - off)"
    obtain r st1 where d: "decode api st (take n (drop off tokens)) = (r, st1)" by (metis prod.exhaust)
    note batch = same_shape_n_batch [OF same_shape_decode [OF d]]
    have "prompt_loop (decode api) (n_batch st) tokens off st =
        (case (r, st1) of
           (Inl e, st') \<Rightarrow> Some (Inl e, st')
         | (Inr ret, st') \<Rightarrow>
             if ret \<noteq> 0 then Some (Inr ret, st')
             else prompt_loop (decode api) (n_batch st1) tokens (off + n) st')"
      using True d batch
      by (subst prompt_loop.simps) (simp add: Let_def n_def [symmetric] split: sum.split)
    with True d assms Gen_prompt show ?thesis
      by (auto simp: locked_step_def locked_run_def Let_def n_def [symmetric] split: sum.splits if_splits)
  qed
next
  case (Gen_next c resolved s stats f n w)
  let ?g = "\<lparr>g_impl = st, g_sampler = s, g_filter = f, g_sink = w, g_completion = n\<rparr>"
  obtain v g where s: "gen_step api (callback (gc_client c)) (gc_params c) (rt_preserved resolved) ?g = (v, g)"
    by (metis prod.exhaust)
  show ?thesis
  proof (cases "v = Next")
    case True
    then have "gen_loop api (callback (gc_client c)) (gc_params c) (rt_preserved resolved) ?g
        = gen_loop api (callback (gc_client c)) (gc_params c) (rt_preserved resolved) g"
      using s by (subst gen_loop.simps) simp
    moreover have "x = Inl (Gen_next c resolved (g_sampler g) stats (g_filter g) (g_completion g) (g_sink g))"
      "st' = g_impl g"
      using True s assms Gen_next by (simp_all add: locked_step_def)
    ultimately show ?thesis using Gen_next by (cases g) (simp add: locked_run_def)
  next
    case False
    then have "gen_loop api (callback (gc_client c)) (gc_params c) (rt_preserved resolved) ?g = (v, g)"
      using s by (subst gen_loop.simps) (simp split: verdict.splits)
    with False s assms Gen_next show ?thesis
      by (auto simp: locked_step_def locked_run_def split: prod.splits)
  qed
next
  case (Embed_next wanted going rest i result)
  with assms show ?thesis
    by (cases rest) (auto simp: locked_step_def locked_run_def split: if_splits prod.splits sum.splits)
qed

text \<open>A handler is its three parts in a row.\<close>

lemma handle_refused: "before_lock api lib svc call st = Inl r \<Longrightarrow> handle api lib svc call st = Some (r, st)"
  by (auto simp: before_lock_def handle_def handler_defs embed_def Let_def
      split: request.splits if_splits option.splits sum.splits prod.splits)

lemma handle_locked:
  assumes "before_lock api lib svc call st = Inr job"
  shows "handle api lib svc call st =
    map_option (\<lambda>(a, st). (after_lock lib call a, st)) (locked_run api (\<lambda>cl. Some (on_chunk lib cl)) job st)"
proof (cases call)
  case (Generate_call cl clock request)
  with assms show ?thesis
    by (auto simp: before_lock_def handle_def handler_defs stream_generation_def generate_def locked_run_def
        after_lock_def Let_def split: if_splits option.splits sum.splits prod.splits)
next
  case (Chat_call cl clock rng request)
  with assms show ?thesis
    by (auto simp: before_lock_def handle_def handler_defs stream_generation_def generate_def locked_run_def
        after_lock_def Let_def split: if_splits option.splits sum.splits prod.splits)
next
  case (Embed_call cl inputs)
  with assms show ?thesis
    by (auto simp: before_lock_def handle_def handler_defs embed_def locked_run_def after_lock_def Let_def
        split: if_splits option.splits sum.splits prod.splits)
next
  case (Tokenize_call request)
  with assms show ?thesis by (simp add: before_lock_def split: prod.splits)
qed

text \<open>What a thread reads without the lock no thread ever writes.\<close>

lemma before_lock_shape: "same_shape st st' \<Longrightarrow> before_lock api lib svc call st' = before_lock api lib svc call st"
  unfolding before_lock_def same_shape_def by (elim conjE) (simp only:)

text \<open>Work left under the lock: the part of \<open>generate\<close>, then what is left of its loop.\<close>

definition job_part :: "('h, 'g, 'w) job \<times> 'c impl \<Rightarrow> nat" where
  "job_part x = (case fst x of Gen_start _ _ \<Rightarrow> 2 | Gen_prompt _ _ _ _ _ _ _ \<Rightarrow> 1 | _ \<Rightarrow> 0)"

definition job_left :: "('h, 'g, 'w) job \<times> 'c impl \<Rightarrow> nat" where
  "job_left x =
     (case x of (job, st) \<Rightarrow>
       (case job of
          Gen_start _ _ \<Rightarrow> 0
        | Gen_prompt _ tokens _ _ _ off _ \<Rightarrow> length tokens - off
        | Gen_next _ _ _ _ _ _ _ \<Rightarrow> n_ctx_seq st - length (cached st)
        | Embed_next _ _ rest _ _ \<Rightarrow> length rest))"

lemma locked_step_less:
  assumes "locked_step api callback job st = (Inl job', st')" "0 < n_batch st"
  shows "((job', st'), (job, st)) \<in> measures [job_part, job_left]"
proof (cases job)
  case (Gen_start c w)
  with assms show ?thesis
    by (auto simp: locked_step_def job_part_def Let_def split: sum.splits if_splits prod.splits)
next
  case (Gen_prompt c tokens resolved s stats off w)
  with assms show ?thesis
    by (auto simp: locked_step_def job_part_def job_left_def Let_def split: sum.splits if_splits prod.splits)
next
  case (Gen_next c resolved s stats f n w)
  let ?g = "\<lparr>g_impl = st, g_sampler = s, g_filter = f, g_sink = w, g_completion = n\<rparr>"
  obtain v g where s: "gen_step api (callback (gc_client c)) (gc_params c) (rt_preserved resolved) ?g = (v, g)"
    by (metis prod.exhaust)
  with assms Gen_next have "v = Next" "st' = g_impl g"
    "job' = Gen_next c resolved (g_sampler g) stats (g_filter g) (g_completion g) (g_sink g)"
    by (auto simp: locked_step_def split: if_splits prod.splits)
  with gen_step_grows [of api "callback (gc_client c)" "gc_params c" "rt_preserved resolved" ?g g] s Gen_next
  show ?thesis by (auto simp: job_part_def job_left_def)
next
  case (Embed_next wanted going rest i result)
  with assms show ?thesis
    by (cases rest)
      (auto simp: locked_step_def job_part_def job_left_def split: if_splits prod.splits sum.splits)
qed

interpretation engine: mutex_handler "before_lock api lib svc" "locked_step api (\<lambda>cl. Some (on_chunk lib cl))"
    "after_lock lib" "locked_run api (\<lambda>cl. Some (on_chunk lib cl))" "handle api lib svc" same_shape
    "measures [job_part, job_left]" "\<lambda>st. 0 < n_batch st"
  for api :: "('c, 'h, 'g) llama_api" and lib :: "('x, 't, 'f, 'q, 'r) chat_lib" and svc :: "'t service"
proof
  fix s t u :: "'c impl"
  show "same_shape s s" by simp
  show "same_shape s t \<Longrightarrow> same_shape t u \<Longrightarrow> same_shape s u" by (rule same_shape_trans)
  show "same_shape s t \<Longrightarrow> 0 < n_batch s \<Longrightarrow> 0 < n_batch t" by (simp add: same_shape_def)
  show "wf (measures [job_part, job_left])" by simp
qed (simp_all add: before_lock_shape locked_step_shape locked_run_step handle_refused handle_locked locked_step_less
    del: in_measures)

section \<open>The request threads of the engine\<close>

type_synonym ('c, 'h, 'g, 'x, 'f, 'q, 'r) engine_pool =
  "('r request, ('h, 'g, ('x, 'f, 'q, 'r) chat_stream rpc) job, ('x, 'f, 'q, 'r) chat_stream rpc outcome,
    ('x, 'f, 'q, 'r) reply, 'c impl) pool"

text \<open>The next step of a thread, any step, and the states any number of steps leads to.\<close>

definition thread_turn ::
  "('c, 'h, 'g) llama_api \<Rightarrow> ('x, 't, 'f, 'q, 'r) chat_lib \<Rightarrow> 't service \<Rightarrow> nat
     \<Rightarrow> ('c, 'h, 'g, 'x, 'f, 'q, 'r) engine_pool \<Rightarrow> ('c, 'h, 'g, 'x, 'f, 'q, 'r) engine_pool option" where
  "thread_turn api lib svc =
     turn (before_lock api lib svc) (locked_step api (\<lambda>cl. Some (on_chunk lib cl))) (after_lock lib)"

definition thread_moves ::
  "('c, 'h, 'g) llama_api \<Rightarrow> ('x, 't, 'f, 'q, 'r) chat_lib \<Rightarrow> 't service
     \<Rightarrow> ('c, 'h, 'g, 'x, 'f, 'q, 'r) engine_pool \<Rightarrow> ('c, 'h, 'g, 'x, 'f, 'q, 'r) engine_pool \<Rightarrow> bool" where
  "thread_moves api lib svc =
     moves (before_lock api lib svc) (locked_step api (\<lambda>cl. Some (on_chunk lib cl))) (after_lock lib)"

definition threads ::
  "('c, 'h, 'g) llama_api \<Rightarrow> ('x, 't, 'f, 'q, 'r) chat_lib \<Rightarrow> 't service \<Rightarrow> 'r request list \<Rightarrow> 'c impl
     \<Rightarrow> ('c, 'h, 'g, 'x, 'f, 'q, 'r) engine_pool \<Rightarrow> bool" where
  "threads api lib svc qs st S \<longleftrightarrow>
     schedule (before_lock api lib svc) (locked_step api (\<lambda>cl. Some (on_chunk lib cl))) (after_lock lib)
       (new_pool qs st) S"

definition later ::
  "('c, 'h, 'g) llama_api \<Rightarrow> ('x, 't, 'f, 'q, 'r) chat_lib \<Rightarrow> 't service
     \<Rightarrow> ('c, 'h, 'g, 'x, 'f, 'q, 'r) engine_pool \<Rightarrow> ('c, 'h, 'g, 'x, 'f, 'q, 'r) engine_pool \<Rightarrow> bool" where
  "later api lib svc =
     schedule (before_lock api lib svc) (locked_step api (\<lambda>cl. Some (on_chunk lib cl))) (after_lock lib)"

lemmas thread_defs = thread_turn_def thread_moves_def threads_def later_def

lemma new_pool_simps [simp]:
  "length (calls (new_pool qs st)) = length qs" "i < length qs \<Longrightarrow> query (new_pool qs st) i = qs ! i"
  "shared (new_pool qs st) = st"
  by (simp_all add: new_pool_def query_def)

lemma threads_query:
  assumes "threads api lib svc qs st S"
  shows "length (calls S) = length qs" "i < length qs \<Longrightarrow> query S i = qs ! i"
  using engine.schedule_query assms by (fastforce simp: thread_defs)+

lemma threads_exclusive:
  assumes "threads api lib svc qs st S" "i < length qs"
  shows "in_section (phase_of S i) \<longleftrightarrow> holder S = Some i"
  by (rule engine.one_in_section [OF assms(1) [unfolded threads_def]])
    (simp add: threads_query(1) [OF assms(1)] assms(2))

lemma threads_serial:
  assumes "threads api lib svc qs st S"
  shows "\<exists>replies st'. serial (handle api lib svc) (map (query S) (trail S)) st = Some (replies, st')
    \<and> map Some replies = map (\<lambda>i. final_answer (after_lock lib) (query S i, phase_of S i)) (trail S)
    \<and> (holder S = None \<longrightarrow> shared S = st') \<and> distinct (trail S)
    \<and> (\<forall>i. i \<in> set (trail S) \<longleftrightarrow>
          i < length qs \<and> final_answer (after_lock lib) (query S i, phase_of S i) \<noteq> None)"
  using engine.serial_calls [OF assms [unfolded threads_def]] by (simp only: threads_query(1) [OF assms])

lemma threads_trail: "threads api lib svc qs st S \<Longrightarrow> i \<in> set (trail S) \<Longrightarrow> i < length qs"
  using threads_serial [of api lib svc qs st S] by blast

lemma threads_free:
  assumes "threads api lib svc qs st S" "holder S = None"
  shows "\<exists>replies. serial (handle api lib svc) (map (query S) (trail S)) st = Some (replies, shared S)"
  using threads_serial [OF assms(1)] assms(2) by (elim exE conjE) simp

text \<open>The calls, one after the other, are requests the daemon serves.\<close>

lemma serial_reachable:
  assumes "serial (handle api lib svc) qs st = Some (rs, st')" "reachable api lib svc st0 st"
  shows "reachable api lib svc st0 st'"
  using assms
proof (induction qs arbitrary: st rs)
  case (Cons q qs)
  then obtain r st1 rs' where h: "handle api lib svc q st = Some (r, st1)"
    "serial (handle api lib svc) qs st1 = Some (rs', st')"
    by (auto split: option.splits)
  have "st1 = st \<or> served api lib svc st st1"
    using h(1) by (auto simp: handle_def split: request.splits prod.splits intro: served.intros)
  then have "reachable api lib svc st0 st1" using Cons.prems(2) reachable.step by metis
  with Cons.IH h(2) show ?case by blast
qed simp

text \<open>Every single step leaves the record in agreement with the memory.\<close>

definition generates :: "('h, 'g, 'w) job \<Rightarrow> bool" where
  "generates job = (case job of Embed_next _ _ _ _ _ \<Rightarrow> False | _ \<Rightarrow> True)"

lemma before_lock_generates:
  "before_lock api lib svc call st = Inr job \<Longrightarrow> \<not> embeddings st \<Longrightarrow> generates job"
  by (auto simp: before_lock_def generates_def Let_def
      split: request.splits if_splits option.splits sum.splits prod.splits)

lemma locked_step_generates:
  "locked_step api callback job st = (Inl job', st') \<Longrightarrow> generates job \<Longrightarrow> generates job'"
  by (auto simp: locked_step_def generates_def Let_def
      split: job.splits if_splits sum.splits prod.splits list.splits)

lemma locked_step_kv:
  assumes "kv_inv api seq st" "n_ctx_seq st \<le> 2 ^ 31" "generates job"
    "locked_step api callback job st = (x, st')"
  shows "kv_inv api seq st'"
proof (cases job)
  case (Gen_start c w)
  have "kv_inv api seq st1" if "keep_prefix api st tokens = (k, st1)" "tokens \<noteq> []" "length tokens < n_ctx_seq st"
    for tokens k st1
    using keep_prefix_spec [OF assms(1) _ that(2,1)] that(3) assms(2) by (simp add: kv_fits_def)
  with assms Gen_start show ?thesis
    by (auto simp: locked_step_def Let_def not_le split: sum.splits if_splits prod.splits)
next
  case (Gen_prompt c tokens resolved s stats off w)
  have "kv_inv api seq (st\<lparr>ctx := api_synchronize api (ctx st)\<rparr>)"
    using assms(1) by (simp add: kv_inv_def memory_laws_def)
  with assms Gen_prompt show ?thesis
    by (auto simp: locked_step_def Let_def dest: kv.dec_inv split: sum.splits if_splits prod.splits)
next
  case (Gen_next c resolved s stats f n w)
  let ?g = "\<lparr>g_impl = st, g_sampler = s, g_filter = f, g_sink = w, g_completion = n\<rparr>"
  obtain v g where s: "gen_step api (callback (gc_client c)) (gc_params c) (rt_preserved resolved) ?g = (v, g)"
    by (metis prod.exhaust)
  have "kv_inv api seq (g_impl g)" using gen_step_impl [OF s] kv.dec_inv assms(1) by auto
  moreover have "st' = g_impl g"
    using assms(4) Gen_next s by (auto simp: locked_step_def gen_end_def split: if_splits prod.splits verdict.splits sum.splits)
  ultimately show ?thesis by simp
qed (use assms in \<open>simp add: generates_def\<close>)

lemma locked_step_keeps:
  assumes "kv_inv api seq st \<and> same_shape st0 st" "generates job" "locked_step api callback job st = (x, st')"
    and "n_ctx_seq st0 \<le> 2 ^ 31"
  shows "kv_inv api seq st' \<and> same_shape st0 st'"
proof -
  have "n_ctx_seq st \<le> 2 ^ 31" using assms(1,4) by (simp add: same_shape_def)
  then have "kv_inv api seq st'" using locked_step_kv [OF _ _ assms(2,3)] assms(1) by blast
  moreover have "same_shape st0 st'"
    using same_shape_trans [OF _ locked_step_shape [OF assms(3)]] assms(1) by blast
  ultimately show ?thesis ..
qed

lemma threads_in_step:
  assumes "memory_laws api seq" "cached st0 = seq (ctx st0)" "n_ctx_seq st0 \<le> 2 ^ 31" "\<not> embeddings st0"
    "threads api lib svc qs st0 S"
  shows "cached (shared S) = seq (ctx (shared S))"
proof -
  let ?P = "\<lambda>st. kv_inv api seq st \<and> same_shape st0 st"
  have "?P (shared S) \<and> (\<forall>i<length (calls S). \<forall>l. phase_of S i = Waiting l \<or> phase_of S i = Inside l \<longrightarrow> generates l)"
  proof (rule engine.schedule_keeps [where P = ?P and J = generates])
    show "schedule (before_lock api lib svc) (locked_step api (\<lambda>cl. Some (on_chunk lib cl))) (after_lock lib)
        (new_pool qs st0) S"
      using assms(5) by (simp add: thread_defs)
    show "?P st0" using assms(1,2) by (simp add: kv_inv_def)
    show "?P s \<Longrightarrow> before_lock api lib svc q s = Inr l \<Longrightarrow> generates l" for q s l
      using before_lock_generates assms(4) by (auto simp: same_shape_def)
    show "?P s \<Longrightarrow> generates l \<Longrightarrow> locked_step api (\<lambda>cl. Some (on_chunk lib cl)) l s = (Inl l', t)
        \<Longrightarrow> ?P t \<and> generates l'" for l s l' t
      using locked_step_keeps [OF _ _ _ assms(3)] locked_step_generates by blast
    show "?P s \<Longrightarrow> generates l \<Longrightarrow> locked_step api (\<lambda>cl. Some (on_chunk lib cl)) l s = (Inr a, t) \<Longrightarrow> ?P t"
      for l s a t
      by (rule locked_step_keeps [OF _ _ _ assms(3)])
  qed
  then show ?thesis by (simp add: kv_inv_def)
qed

text \<open>All calls are answered: the threads cannot run forever, nor stop before the last answer.\<close>

definition all_answered ::
  "('c, 'h, 'g) llama_api \<Rightarrow> ('x, 't, 'f, 'q, 'r) chat_lib \<Rightarrow> 't service \<Rightarrow> 'r request list \<Rightarrow> 'c impl \<Rightarrow> bool" where
  "all_answered api lib svc qs st0 \<longleftrightarrow>
     \<not> (\<exists>f. f 0 = new_pool qs st0 \<and> (\<forall>n. thread_moves api lib svc (f n) (f (Suc n))))
     \<and> (\<forall>S. threads api lib svc qs st0 S \<longrightarrow> (\<forall>i. thread_turn api lib svc i S = None)
          \<longrightarrow> (\<forall>i<length qs. \<exists>r. phase_of S i = Answered r))"

lemma all_are_answered:
  assumes "0 < n_batch st0"
  shows "all_answered api lib svc qs st0"
  unfolding all_answered_def
proof (intro conjI allI impI)
  show "\<not> (\<exists>f. f 0 = new_pool qs st0 \<and> (\<forall>n. thread_moves api lib svc (f n) (f (Suc n))))"
    using engine.no_endless_schedule assms unfolding thread_defs by blast
next
  fix S i
  assume S: "threads api lib svc qs st0 S" "\<forall>i. thread_turn api lib svc i S = None" "i < length qs"
  then have "\<not> thread_moves api lib svc S S'" for S' by (auto simp: thread_defs elim: moves.cases)
  with S engine.no_deadlock [of api lib svc qs st0 S] threads_query(1) [OF S(1)]
  show "\<exists>r. phase_of S i = Answered r" unfolding thread_defs by auto
qed

section \<open>What the mutex gives\<close>

text \<open>
  C2. However the request threads interleave, they do what the handlers do one after the other: in
  the order \<open>trail\<close>, in which the calls released the lock or were refused without it, each handler
  run as a whole from where the one before it left the engine gives exactly the answer its thread
  gave, and leaves the engine as the threads leave it. The order is that of real time: what was
  settled at some moment \<open>S1\<close> stays in front of everything settled later.
\<close>

theorem concurrent_calls_are_serial:
  assumes "threads api lib svc qs st0 S1" and "later api lib svc S1 S"
  shows "\<exists>replies st. serial (handle api lib svc) (map (\<lambda>i. qs ! i) (trail S)) st0 = Some (replies, st)
    \<and> (\<forall>k<length (trail S). \<forall>r. phase_of S (trail S ! k) = Answered r \<longrightarrow> replies ! k = r)
    \<and> (holder S = None \<longrightarrow> shared S = st)
    \<and> (\<forall>i<length qs. \<forall>r. phase_of S i = Answered r \<longrightarrow> i \<in> set (trail S))
    \<and> distinct (trail S) \<and> prefix (trail S1) (trail S)"
proof -
  have run: "threads api lib svc qs st0 S" and trails: "prefix (trail S1) (trail S)"
    using assms schedule_trans engine.schedule_trail unfolding thread_defs by blast+
  obtain replies st where all: "serial (handle api lib svc) (map (query S) (trail S)) st0 = Some (replies, st)
    \<and> map Some replies = map (\<lambda>i. final_answer (after_lock lib) (query S i, phase_of S i)) (trail S)
    \<and> (holder S = None \<longrightarrow> shared S = st) \<and> distinct (trail S)
    \<and> (\<forall>i. i \<in> set (trail S) \<longleftrightarrow>
          i < length qs \<and> final_answer (after_lock lib) (query S i, phase_of S i) \<noteq> None)"
    using threads_serial [OF run] by (elim exE) (rule that)
  note inv = conjunct1 [OF all] conjunct1 [OF conjunct2 [OF all]] conjunct1 [OF conjunct2 [OF conjunct2 [OF all]]]
    conjunct1 [OF conjunct2 [OF conjunct2 [OF conjunct2 [OF all]]]]
    conjunct2 [OF conjunct2 [OF conjunct2 [OF conjunct2 [OF all]]]]
  have queries: "map (query S) (trail S) = map (\<lambda>i. qs ! i) (trail S)"
    using inv(5) threads_query [OF run] by simp
  have "serial (handle api lib svc) (map (\<lambda>i. qs ! i) (trail S)) st0 = Some (replies, st)"
    using inv(1) by (simp only: queries)
  moreover have "replies ! k = r" if "k < length (trail S)" "phase_of S (trail S ! k) = Answered r" for k r
  proof -
    have "Some (replies ! k) = final_answer (after_lock lib) (query S (trail S ! k), phase_of S (trail S ! k))"
      using inv(2) that(1) by (metis (no_types, lifting) length_map nth_map)
    then show ?thesis using that(2) by simp
  qed
  moreover have "i \<in> set (trail S)" if "i < length qs" "phase_of S i = Answered r" for i r
    using that inv(5) by simp
  ultimately show ?thesis
    using inv(1,3,4) trails by (intro exI [of _ replies] exI [of _ st]) simp
qed

text \<open>Two calls on the small instance: one generates, the other is refused while the first works.\<close>

definition two_calls :: "nat request list" where
  "two_calls = [Generate_call patient_client (\<lambda>_. Fin 0) sample_call, Embed_call patient_client [''a'']]"

lemma length_two_calls: "length two_calls = 2"
  by (simp add: two_calls_def)

lemma sample_batch: "0 < n_batch (sample_impl c)"
  by (simp add: sample_impl_def)

lemma two_calls_run:
  "\<exists>S. threads sample_api sample_chat sample_service two_calls (sample_impl []) S
     \<and> (\<forall>i<2. \<exists>r. phase_of S i = Answered r)"
proof -
  have "threads sample_api sample_chat sample_service two_calls (sample_impl []) (new_pool two_calls (sample_impl []))"
    by (simp add: thread_defs schedule.start)
  then obtain S where "later sample_api sample_chat sample_service (new_pool two_calls (sample_impl [])) S"
    "\<forall>i<length (calls S). \<exists>r. phase_of S i = Answered r"
    using engine.all_answered_eventually [of sample_api sample_chat sample_service two_calls "sample_impl []"]
      sample_batch
    unfolding thread_defs by blast
  moreover from this have "length (calls S) = 2"
    using engine.schedule_query unfolding thread_defs by (fastforce simp: two_calls_def)
  ultimately show ?thesis unfolding thread_defs by auto
qed

theorem concurrent_calls_are_serial_witness:
  "\<exists>S replies st. threads sample_api sample_chat sample_service two_calls (sample_impl []) S
     \<and> (\<forall>i<2. \<exists>r. phase_of S i = Answered r) \<and> set (trail S) = {0, 1}
     \<and> serial (handle sample_api sample_chat sample_service) (map (\<lambda>i. two_calls ! i) (trail S)) (sample_impl [])
       = Some (replies, st)
     \<and> (holder S = None \<longrightarrow> shared S = st)"
proof -
  obtain S where S: "threads sample_api sample_chat sample_service two_calls (sample_impl []) S"
    "\<forall>i<2. \<exists>r. phase_of S i = Answered r"
    using two_calls_run by blast
  have "later sample_api sample_chat sample_service S S" by (simp add: thread_defs schedule.start)
  note run = concurrent_calls_are_serial [OF S(1) this]
  obtain replies st where r:
    "serial (handle sample_api sample_chat sample_service) (map (\<lambda>i. two_calls ! i) (trail S)) (sample_impl [])
       = Some (replies, st)"
    "holder S = None \<longrightarrow> shared S = st"
    "\<forall>i<length two_calls. \<forall>r. phase_of S i = Answered r \<longrightarrow> i \<in> set (trail S)"
    using run by (elim exE conjE) (rule that, assumption+)
  have "i \<in> set (trail S)" if i: "i < 2" for i
  proof -
    obtain x where "phase_of S i = Answered x" using S(2) i by blast
    with r(3) i show ?thesis unfolding length_two_calls by blast
  qed
  moreover have "i < 2" if "i \<in> set (trail S)" for i
    using threads_trail [OF S(1) that] by (simp only: length_two_calls)
  ultimately have "set (trail S) = {..<2}" by (intro equalityI subsetI) (simp_all only: lessThan_iff)
  then have "set (trail S) = {0, 1}" by (simp only: numeral_2_eq_2 lessThan_Suc lessThan_0 One_nat_def insert_commute)
  with S r(1,2) show ?thesis by (intro exI [of _ S] exI [of _ replies] exI [of _ st] conjI)
qed

text \<open>
  An answer given without the lock is a refusal: nothing was written, no vector was made. \<open>Tokenize\<close> never
  needs the lock.
\<close>

fun not_run :: "('x, 'f, 'q, 'r) reply \<Rightarrow> bool" where
  "not_run (Streamed s w) \<longleftrightarrow> code s \<noteq> OK \<and> rpc_writes w = []"
| "not_run (Embedded s response) \<longleftrightarrow> code s \<noteq> OK \<and> response = None"
| "not_run (Tokenized s tokens) \<longleftrightarrow> True"

lemma guarded_error: "code (guarded (Inl e)) \<noteq> OK"
  by (cases e) simp_all

lemma before_lock_refuses: "before_lock api lib svc call st = Inl r \<Longrightarrow> not_run r"
  by (auto simp: before_lock_def Let_def start_rpc_def guarded_error
      split: request.splits if_splits option.splits sum.splits prod.splits)

lemma turn_shared:
  "thread_turn api lib svc i S = Some S' \<Longrightarrow> shared S' \<noteq> shared S \<Longrightarrow>
     i < length (calls S) \<and> in_section (phase_of S i)"
  unfolding thread_turn_def by (erule turn_cases) simp_all

lemma turn_answers_early:
  "thread_turn api lib svc i S = Some S' \<Longrightarrow> phase_of S i = Arrived \<Longrightarrow> phase_of S' i = Answered r \<Longrightarrow> not_run r"
  unfolding thread_turn_def by (erule turn_cases) (auto dest: before_lock_refuses)

text \<open>
  C9. At no point of any interleaving, on any engine, are two threads between lock and unlock; the one
  that is there owns the mutex, a step that changes the engine is one of the owner, and a call answered
  without the lock is a refusal that wrote nothing and embedded nothing, or a \<open>Tokenize\<close>. In an engine
  that generates, therefore, the record of cached tokens agrees with llama.cpp's memory after every
  single step, in the middle of a call too, and fits the context whenever the lock is free.
\<close>

theorem one_call_at_a_time:
  assumes "threads api lib svc qs st0 S"
  shows "(\<forall>i<length qs. in_section (phase_of S i) \<longleftrightarrow> holder S = Some i)
    \<and> (\<forall>i<length qs. \<forall>j<length qs. in_section (phase_of S i) \<longrightarrow> in_section (phase_of S j) \<longrightarrow> i = j)
    \<and> (\<forall>i S'. thread_turn api lib svc i S = Some S' \<longrightarrow> shared S' \<noteq> shared S \<longrightarrow> holder S = Some i)
    \<and> (\<forall>i S' r. thread_turn api lib svc i S = Some S' \<longrightarrow> phase_of S i = Arrived \<longrightarrow> phase_of S' i = Answered r
         \<longrightarrow> (case r of
                Streamed s w \<Rightarrow> code s \<noteq> OK \<and> rpc_writes w = []
              | Embedded s response \<Rightarrow> code s \<noteq> OK \<and> response = None
              | Tokenized s tokens \<Rightarrow> True))
    \<and> (\<forall>seq. memory_laws api seq \<and> cached st0 = seq (ctx st0) \<and> length (cached st0) \<le> n_ctx_seq st0
         \<and> 0 < n_batch st0 \<and> n_ctx_seq st0 \<le> 2 ^ 31 \<and> \<not> embeddings st0 \<longrightarrow>
           cached (shared S) = seq (ctx (shared S))
           \<and> (holder S = None \<longrightarrow> length (cached (shared S)) \<le> n_ctx_seq (shared S)))"
proof (intro conjI allI impI)
  note owner = threads_exclusive [OF assms]
  fix i j
  show "i < length qs \<Longrightarrow> in_section (phase_of S i) \<longleftrightarrow> holder S = Some i" by (rule owner)
  show "i < length qs \<Longrightarrow> j < length qs \<Longrightarrow> in_section (phase_of S i) \<Longrightarrow> in_section (phase_of S j) \<Longrightarrow> i = j"
    using owner [of i] owner [of j] by simp
  fix S'
  show "thread_turn api lib svc i S = Some S' \<Longrightarrow> shared S' \<noteq> shared S \<Longrightarrow> holder S = Some i"
    using turn_shared [of api lib svc i S S'] owner [of i] threads_query(1) [OF assms] by simp
  fix r
  show "thread_turn api lib svc i S = Some S' \<Longrightarrow> phase_of S i = Arrived \<Longrightarrow> phase_of S' i = Answered r \<Longrightarrow>
      case r of
        Streamed s w \<Rightarrow> code s \<noteq> OK \<and> rpc_writes w = []
      | Embedded s response \<Rightarrow> code s \<noteq> OK \<and> response = None
      | Tokenized s tokens \<Rightarrow> True"
    using turn_answers_early [of api lib svc i S S' r] by (cases r) simp_all
next
  fix seq
  assume "memory_laws api seq \<and> cached st0 = seq (ctx st0) \<and> length (cached st0) \<le> n_ctx_seq st0
    \<and> 0 < n_batch st0 \<and> n_ctx_seq st0 \<le> 2 ^ 31 \<and> \<not> embeddings st0"
  then have e: "memory_laws api seq" "cached st0 = seq (ctx st0)" "length (cached st0) \<le> n_ctx_seq st0"
    "0 < n_batch st0" "n_ctx_seq st0 \<le> 2 ^ 31" "\<not> embeddings st0" by blast+
  show "cached (shared S) = seq (ctx (shared S))"
    using threads_in_step [OF e(1,2,5,6) assms] .
  assume "holder S = None"
  then have "reachable api lib svc st0 (shared S)"
    using threads_free [OF assms] serial_reachable [OF _ reachable.start] by blast
  moreover have "engine_inv api seq st0" using e(1-3) by (simp add: engine_inv_def kv_inv_def)
  ultimately have "engine_inv api seq (shared S)" using reachable_inv e(4-6) by blast
  then show "length (cached (shared S)) \<le> n_ctx_seq (shared S)" by (simp only: engine_inv_def)
qed

theorem one_call_at_a_time_witness:
  "\<exists>S. threads sample_api sample_chat sample_service two_calls (sample_impl []) S
     \<and> (\<forall>i<2. \<exists>r. phase_of S i = Answered r) \<and> cached (shared S) = ctx (shared S)
     \<and> (\<forall>i<2. in_section (phase_of S i) \<longleftrightarrow> holder S = Some i)"
proof -
  obtain S where S: "threads sample_api sample_chat sample_service two_calls (sample_impl []) S"
    "\<forall>i<2. \<exists>r. phase_of S i = Answered r"
    using two_calls_run by blast
  have start: "cached (sample_impl []) = ctx (sample_impl [])" "length (cached (sample_impl [])) \<le> n_ctx_seq (sample_impl [])"
    "0 < n_batch (sample_impl [])" "n_ctx_seq (sample_impl []) \<le> 2 ^ 31" "\<not> embeddings (sample_impl [])"
    by (simp_all add: sample_impl_def)
  note all = one_call_at_a_time [OF S(1)]
  have "cached (shared S) = ctx (shared S)"
    using conjunct2 [OF conjunct2 [OF conjunct2 [OF conjunct2 [OF all]]]] sample_memory_laws start by blast
  moreover have "\<forall>i<2. in_section (phase_of S i) \<longleftrightarrow> holder S = Some i"
    using conjunct1 [OF all] by (simp only: length_two_calls)
  ultimately show ?thesis using S by (intro exI [of _ S] conjI)
qed

text \<open>
  C8. Every call is answered: no schedule of the request threads goes on forever, and one that cannot
  be continued has answered every call; none is left waiting for the lock, whatever the others did
  and however they ended.
\<close>

theorem every_call_is_answered:
  assumes "0 < n_batch st0"
  shows "\<not> (\<exists>f. f 0 = new_pool qs st0 \<and> (\<forall>n. thread_moves api lib svc (f n) (f (Suc n))))
    \<and> (\<forall>S. threads api lib svc qs st0 S \<longrightarrow> (\<forall>i. thread_turn api lib svc i S = None)
         \<longrightarrow> (\<forall>i<length qs. \<exists>r. phase_of S i = Answered r))"
  using all_are_answered [OF assms, of api lib svc qs] unfolding all_answered_def .

theorem every_call_is_answered_witness:
  "\<not> (\<exists>f. f 0 = new_pool two_calls (sample_impl [])
      \<and> (\<forall>n. thread_moves sample_api sample_chat sample_service (f n) (f (Suc n))))"
  using every_call_is_answered [of "sample_impl []" two_calls sample_api sample_chat sample_service]
  by (simp add: sample_impl_def)

end
