(* ===== verification/Resources.thy ===== *)
theory Resources
  imports Engine_Load Sampler
begin

text \<open>
  Who frees what in src/engine.cpp. The program owns four kinds of llama.cpp objects through raw
  pointers: the model and the context of \<open>Impl\<close>, the chain and the grammar of \<open>SamplerChain\<close>. Here the
  constructors are run with their pointers and a log of what they acquire, use and release, exceptions
  and destructors included; each is shown to return what the plain model returns, and every log to be
  one in which nothing leaks, nothing is freed twice, and nothing is used or outlived by what needs it.
\<close>

section \<open>Events and what is allowed\<close>

datatype object = Model | Context | Chain | Grammar

datatype event = Start_backends | Acquire object | Use object | Release object

text \<open>What an object was made from and keeps pointing into: a grammar reads the vocabulary of the model.\<close>

fun made_from :: "object \<Rightarrow> object list" where
  "made_from Context = [Model]"
| "made_from Grammar = [Model]"
| "made_from _ = []"

text \<open>
  The backends are started once and before any model; an object is acquired when it is not there and
  what it is made from is; it is released when it is there and nothing made from it is.
\<close>

record live =
  backends :: bool
  alive :: "object list"

fun allowed :: "event \<Rightarrow> live \<Rightarrow> live option" where
  "allowed Start_backends l = (if backends l then None else Some (l\<lparr>backends := True\<rparr>))"
| "allowed (Acquire x) l =
     (if backends l \<and> x \<notin> set (alive l) \<and> set (made_from x) \<subseteq> set (alive l)
      then Some (l\<lparr>alive := x # alive l\<rparr>) else None)"
| "allowed (Use x) l = (if x \<in> set (alive l) then Some l else None)"
| "allowed (Release x) l =
     (if x \<in> set (alive l) \<and> (\<forall>y\<in>set (alive l). x \<notin> set (made_from y))
      then Some (l\<lparr>alive := removeAll x (alive l)\<rparr>) else None)"

fun runs :: "event list \<Rightarrow> live \<Rightarrow> live option" where
  "runs [] l = Some l"
| "runs (e # es) l = (case allowed e l of None \<Rightarrow> None | Some l \<Rightarrow> runs es l)"

lemma runs_append: "runs (xs @ ys) l = (case runs xs l of None \<Rightarrow> None | Some l \<Rightarrow> runs ys l)"
  by (induction xs arbitrary: l) (auto split: option.splits)

section \<open>The engine\<close>

text \<open>The pointers of \<open>Impl\<close>, null or not, and the log.\<close>

record owner =
  has_model :: bool
  has_ctx :: bool
  history :: "event list"

definition note_event :: "event \<Rightarrow> owner \<Rightarrow> owner" where
  "note_event e ow = ow\<lparr>history := history ow @ [e]\<rparr>"

text \<open>\<open>init_llama_once\<close>: the flag says whether the lambda has run.\<close>

definition init_llama_once :: "bool \<Rightarrow> event list" where
  "init_llama_once once = (if once then [] else [Start_backends])"

definition free_ctx :: "owner \<Rightarrow> owner" where
  "free_ctx ow = note_event (Release Context) ow\<lparr>has_ctx := False\<rparr>"

text \<open>\<open>~Impl\<close>.\<close>

definition destroy_impl :: "owner \<Rightarrow> event list" where
  "destroy_impl ow =
     (let ow = (if has_ctx ow then note_event (Release Context) ow else ow);
          ow = (if has_model ow then note_event (Release Model) ow else ow)
      in history ow)"

definition init_from_model ::
  "('m, 'c, 'd, 'h, 'g) model_api \<Rightarrow> 'm \<Rightarrow> context_params \<Rightarrow> owner \<Rightarrow> 'c option \<times> owner" where
  "init_from_model mapi m p ow =
     (let ow = note_event (Use Model) ow in
      case init_context mapi m p of
        None \<Rightarrow> (None, ow)
      | Some c \<Rightarrow> (Some c, note_event (Acquire Context) ow\<lparr>has_ctx := True\<rparr>))"

text \<open>The context for generation is freed again when the model pools.\<close>

definition own_context ::
  "('m, 'c, 'd, 'h, 'g) model_api \<Rightarrow> 'm \<Rightarrow> context_params \<Rightarrow> owner \<Rightarrow> 'c option \<times> owner" where
  "own_context mapi m p ow =
     (case init_from_model mapi m (generation_params p) ow of
        (None, ow) \<Rightarrow> init_from_model mapi m p ow
      | (Some c, ow) \<Rightarrow>
          (let ow = note_event (Use Context) ow in
           if pooling_type mapi c \<noteq> Pooling_none then init_from_model mapi m p (free_ctx ow)
           else (Some c, ow)))"

text \<open>From the context on; the state of \<open>Impl\<close> is that of the plain model.\<close>

definition own_engine ::
  "('m, 'c, 'd, 'h, 'g) model_api \<Rightarrow> engine_config \<Rightarrow> 'm \<Rightarrow> ('c, 'h, 'g) llama_api \<Rightarrow> owner
     \<Rightarrow> (exn + ('m, 'c, 'h, 'g) engine) \<times> owner" where
  "own_engine mapi config m api ow =
     (case own_context mapi m (context_params_for mapi config) ow of
        (None, ow) \<Rightarrow>
          (Inl (EngineError (''failed to create a llama context for '' @ quoted (cfg_model_path config))), ow)
      | (Some c, ow) \<Rightarrow>
          (let ctx_seq = get_n_ctx_seq mapi c; batch = get_n_batch mapi c; ow = note_event (Use Context) ow in
           if ctx_seq = 0 \<or> batch = 0
           then (Inl (EngineError ''llama context reports a zero context or batch size''), ow)
           else if pooling_type mapi c = Pooling_rank
           then (Inl (EngineError (quoted (cfg_model_path config)
                  @ '' is a reranking model, which llamad does not serve'')), ow)
           else
             (let pools = (pooling_type mapi c \<noteq> Pooling_none);
                  c' = (if pools then set_embeddings mapi c else c);
                  limit = (if pools then embed_limit mapi m c' ctx_seq else 0);
                  ow = note_event (Use Context) ow
              in case warm_up mapi api m batch c' of
                   Inl e \<Rightarrow> (Inl e, ow)
                 | Inr c'' \<Rightarrow>
                     (Inr \<lparr>eng_model = m, eng_api = api,
                           eng_impl = \<lparr>ctx = c'', n_ctx = get_n_ctx mapi c, n_ctx_seq = ctx_seq,
                             n_batch = batch, embeddings = pools, max_embed_tokens = limit,
                             cached = []\<rparr>\<rparr>, ow))))"

text \<open>
  The constructor. When it throws, \<open>impl_\<close> is destroyed as the member it is; when it does not, the
  pointers live on until \<open>~Engine\<close>.
\<close>

definition construct_engine ::
  "'d ggml_api \<Rightarrow> ('m, 'c, 'd, 'h, 'g) model_api \<Rightarrow> engine_config \<Rightarrow> bool
     \<Rightarrow> (exn + ('m, 'c, 'h, 'g) engine) \<times> owner" where
  "construct_engine hw mapi config once =
     (let ow = \<lparr>has_model = False, has_ctx = False, history = init_llama_once once\<rparr> in
      if cfg_model_path config = [] then (Inl (EngineError ''no model path was given''), ow)
      else
        (case select_offload_devices hw config (all_devices hw) of
           Inl e \<Rightarrow> (Inl e, ow)
         | Inr offload \<Rightarrow>
             (case padded_tensor_split hw config (length offload) of
                Inl e \<Rightarrow> (Inl e, ow)
              | Inr tensor_split \<Rightarrow>
                  (case load_model mapi (cfg_model_path config)
                          (model_params_for mapi config offload tensor_split) of
                     None \<Rightarrow> (Inl (EngineError (''failed to load the model from ''
                         @ quoted (cfg_model_path config)
                         @ '' (missing file, not a supported GGUF, or not enough memory on the offload devices; see the errors above)'')), ow)
                   | Some m \<Rightarrow>
                       (let ow = note_event (Use Model) (note_event (Acquire Model) ow\<lparr>has_model := True\<rparr>) in
                        case model_vocab mapi m of
                          None \<Rightarrow> (Inl (EngineError (''model '' @ quoted (cfg_model_path config)
                              @ '' has no vocabulary'')), ow)
                        | Some api \<Rightarrow> own_engine mapi config m api ow)))))"

section \<open>A request's samplers\<close>

record samplers =
  has_chain :: bool
  has_grammar :: bool
  s_history :: "event list"

text \<open>\<open>free_samplers\<close>, from the constructor's failure path and from the destructor.\<close>

definition free_samplers :: "samplers \<Rightarrow> samplers" where
  "free_samplers sm =
     (let sm = (if has_grammar sm
                then sm\<lparr>has_grammar := False, s_history := s_history sm @ [Release Grammar]\<rparr> else sm)
      in if has_chain sm
         then sm\<lparr>has_chain := False, s_history := s_history sm @ [Release Chain]\<rparr> else sm)"

text \<open>Whether \<open>build\<close> got as far as a grammar, which it then owns even if it throws.\<close>

definition grammar_made :: "('c, 'h, 'g) llama_api \<Rightarrow> sampling_params \<Rightarrow> resolved_tokens \<Rightarrow> bool" where
  "grammar_made api params resolved \<longleftrightarrow>
     (let gs = sp_grammar params in
      gs_grammar gs \<noteq> []
      \<and> (if gs_lazy gs
         then api_grammar_init_lazy api (c_str (gs_grammar gs)) ''root''
                (map c_str (rt_trigger_patterns resolved)) (rt_trigger_tokens resolved)
         else api_grammar_init api (c_str (gs_grammar gs)) ''root'') \<noteq> None)"

definition construct_sampler ::
  "('c, 'h, 'g) llama_api \<Rightarrow> sampling_params \<Rightarrow> resolved_tokens
     \<Rightarrow> (exn + ('h, 'g) sampler_chain) \<times> samplers" where
  "construct_sampler api params resolved =
     (let sm = \<lparr>has_chain = False, has_grammar = False, s_history = [Use Model]\<rparr>;
          n_vocab = api_n_vocab api;
          n_selectable = (if flt_le (sp_temperature params) (Fin 0) then 1
                          else if 0 < sp_top_k params then min (nat (sp_top_k params)) n_vocab
                          else n_vocab)
      in case api_chain_init api of
           None \<Rightarrow> (Inl (EngineError ''failed to create the sampler chain''), sm)
         | Some chain \<Rightarrow>
             (let sm = sm\<lparr>has_chain := True, s_history := s_history sm @ [Acquire Chain]\<rparr>;
                  sm = (if grammar_made api params resolved
                        then sm\<lparr>has_grammar := True, s_history := s_history sm @ [Acquire Grammar]\<rparr>
                        else sm)
              in case build api chain params resolved of
                   Inl e \<Rightarrow> (Inl e, free_samplers sm)
                 | Inr (chain', grammar) \<Rightarrow>
                     (Inr \<lparr>sc_n_vocab = n_vocab, sc_n_selectable = n_selectable, sc_chain = chain',
                           sc_grammar = grammar\<rparr>, sm)))"

text \<open>
  One generation as far as it owns something: the samplers are built, used with the context until
  the reply ends, however it ends, and freed by the destructor.
\<close>

definition request_events ::
  "('c, 'h, 'g) llama_api \<Rightarrow> sampling_params \<Rightarrow> resolved_tokens \<Rightarrow> event list" where
  "request_events api params resolved =
     (case construct_sampler api params resolved of
        (Inl e, sm) \<Rightarrow> s_history sm
      | (Inr s, sm) \<Rightarrow>
          s_history (free_samplers (sm\<lparr>s_history := s_history sm
             @ [Use Context, Use Chain] @ (if has_grammar sm then [Use Grammar] else [])\<rparr>)))"

section \<open>The process\<close>

text \<open>
  Engines one after the other, each serving some generations, and device lists in between: \<open>main\<close>
  opens one or lists the devices, the other binaries do both.
\<close>

datatype process_job = List_devices | Run_engine engine_config "(sampling_params \<times> resolved_tokens) list"

definition job_events ::
  "'d ggml_api \<Rightarrow> ('m, 'c, 'd, 'h, 'g) model_api \<Rightarrow> bool \<Rightarrow> process_job \<Rightarrow> event list" where
  "job_events hw mapi once work =
     (case work of
        List_devices \<Rightarrow> init_llama_once once
      | Run_engine config requests \<Rightarrow>
          (case construct_engine hw mapi config once of
             (Inl e, ow) \<Rightarrow> destroy_impl ow
           | (Inr eng, ow) \<Rightarrow>
               destroy_impl (ow\<lparr>history := history ow
                 @ concat (map (\<lambda>(params, resolved). request_events (eng_api eng) params resolved) requests)\<rparr>)))"

fun process_events ::
  "'d ggml_api \<Rightarrow> ('m, 'c, 'd, 'h, 'g) model_api \<Rightarrow> bool \<Rightarrow> process_job list \<Rightarrow> event list" where
  "process_events hw mapi once [] = []"
| "process_events hw mapi once (work # rest) =
     job_events hw mapi once work @ process_events hw mapi True rest"

section \<open>The same results\<close>

lemma own_context_result: "fst (own_context mapi m p ow) = open_context mapi m p"
  by (auto simp: own_context_def open_context_def init_from_model_def Let_def split: option.splits)

lemma own_engine_result: "fst (own_engine mapi config m api ow) = open_engine mapi config m api"
proof -
  obtain r ow' where r: "own_context mapi m (context_params_for mapi config) ow = (r, ow')" by (metis prod.exhaust)
  then have "open_context mapi m (context_params_for mapi config) = r"
    using own_context_result by (metis fst_conv)
  then show ?thesis
    using r by (auto simp: own_engine_def open_engine_def Let_def split: option.splits sum.splits)
qed

lemma construct_engine_result: "fst (construct_engine hw mapi config once) = new_engine hw mapi config"
  by (auto simp: construct_engine_def new_engine_def own_engine_result Let_def split: sum.splits option.splits)

lemma construct_sampler_result: "fst (construct_sampler api params resolved) = new_sampler api params resolved"
  by (auto simp: construct_sampler_def new_sampler_def Let_def split: option.splits sum.splits)

section \<open>The logs\<close>

text \<open>The log so far is allowed, and what it leaves alive is what the pointers hold.\<close>

definition holds :: "owner \<Rightarrow> object list" where
  "holds ow = (if has_ctx ow then [Context] else []) @ (if has_model ow then [Model] else [])"

definition owner_inv :: "bool \<Rightarrow> owner \<Rightarrow> bool" where
  "owner_inv once ow \<longleftrightarrow> (has_ctx ow \<longrightarrow> has_model ow)
     \<and> runs (history ow) \<lparr>backends = once, alive = []\<rparr> = Some \<lparr>backends = True, alive = holds ow\<rparr>"

lemmas owner_simps = owner_inv_def holds_def note_event_def runs_append

lemma owner_inv_use:
  "owner_inv once ow \<Longrightarrow> x \<in> set (holds ow) \<Longrightarrow> owner_inv once (note_event (Use x) ow)"
  by (simp add: owner_simps)

lemma owner_inv_ctx:
  "owner_inv once ow \<Longrightarrow> has_model ow \<Longrightarrow> \<not> has_ctx ow
     \<Longrightarrow> owner_inv once (note_event (Acquire Context) ow\<lparr>has_ctx := True\<rparr>)"
  by (simp add: owner_simps)

lemma owner_inv_model:
  "owner_inv once ow \<Longrightarrow> \<not> has_model ow \<Longrightarrow> owner_inv once (note_event (Acquire Model) ow\<lparr>has_model := True\<rparr>)"
  by (auto simp: owner_simps)

lemma owner_inv_free_ctx: "owner_inv once ow \<Longrightarrow> has_ctx ow \<Longrightarrow> owner_inv once (free_ctx ow)"
  by (simp add: owner_simps free_ctx_def)

lemma init_from_model_inv:
  assumes "init_from_model mapi m p ow = (r, ow')" "owner_inv once ow" "has_model ow" "\<not> has_ctx ow"
  shows "owner_inv once ow' \<and> has_model ow' \<and> (has_ctx ow' \<longleftrightarrow> r \<noteq> None)"
  using assms by (cases r) (auto simp: init_from_model_def owner_simps Let_def split: option.splits)

lemma own_context_inv:
  assumes "own_context mapi m p ow = (r, ow')" "owner_inv once ow" "has_model ow" "\<not> has_ctx ow"
  shows "owner_inv once ow' \<and> has_model ow' \<and> (has_ctx ow' \<longleftrightarrow> r \<noteq> None)"
proof -
  obtain r1 ow1 where r1: "init_from_model mapi m (generation_params p) ow = (r1, ow1)" by (metis prod.exhaust)
  note inv1 = init_from_model_inv [OF r1 assms(2-4)]
  show ?thesis
  proof (cases r1)
    case None
    with assms(1) r1 have "init_from_model mapi m p ow1 = (r, ow')" by (simp add: own_context_def)
    with inv1 None show ?thesis by (intro init_from_model_inv) auto
  next
    case (Some c)
    let ?ow = "note_event (Use Context) ow1"
    have used: "owner_inv once ?ow" "has_model ?ow" "has_ctx ?ow"
      using inv1 Some owner_inv_use [of once ow1 Context] by (auto simp: note_event_def holds_def)
    show ?thesis
    proof (cases "pooling_type mapi c = Pooling_none")
      case True
      with assms(1) r1 Some used show ?thesis by (auto simp: own_context_def Let_def)
    next
      case False
      with assms(1) r1 Some have "init_from_model mapi m p (free_ctx ?ow) = (r, ow')"
        by (simp add: own_context_def Let_def)
      moreover have "owner_inv once (free_ctx ?ow)" using used owner_inv_free_ctx by blast
      moreover have "has_model (free_ctx ?ow)" "\<not> has_ctx (free_ctx ?ow)"
        using used(2) by (simp_all add: free_ctx_def note_event_def)
      ultimately show ?thesis by (intro init_from_model_inv)
    qed
  qed
qed

lemma own_engine_inv:
  assumes "own_engine mapi config m api ow = (r, ow')" "owner_inv once ow" "has_model ow" "\<not> has_ctx ow"
  shows "owner_inv once ow' \<and> has_model ow' \<and> (is_ok r \<longrightarrow> has_ctx ow')"
proof -
  obtain c ow1 where c: "own_context mapi m (context_params_for mapi config) ow = (c, ow1)" by (metis prod.exhaust)
  note inv1 = own_context_inv [OF c assms(2-4)]
  show ?thesis
  proof (cases c)
    case None
    with assms(1) c inv1 show ?thesis by (auto simp: own_engine_def)
  next
    case (Some c')
    let ?a = "note_event (Use Context) ow1"
    let ?b = "note_event (Use Context) ?a"
    have keeps: "has_model (note_event e x) = has_model x" "has_ctx (note_event e x) = has_ctx x" for e x
      by (simp_all add: note_event_def)
    have a: "owner_inv once ?a" using inv1 Some by (intro owner_inv_use) (simp_all add: holds_def)
    then have b: "owner_inv once ?b" using inv1 Some by (intro owner_inv_use) (simp_all add: holds_def keeps)
    have "ow' = ?a \<or> ow' = ?b"
      using assms(1) c Some by (auto simp: own_engine_def Let_def split: if_splits sum.splits)
    with a b inv1 Some show ?thesis by (auto simp: keeps)
  qed
qed

lemma construct_engine_inv:
  assumes "construct_engine hw mapi config once = (r, ow)"
  shows "owner_inv once ow \<and> (is_ok r \<longrightarrow> has_model ow \<and> has_ctx ow)"
proof -
  let ?start = "\<lparr>has_model = False, has_ctx = False, history = init_llama_once once\<rparr>"
  let ?loaded = "note_event (Use Model) (note_event (Acquire Model) ?start\<lparr>has_model := True\<rparr>)"
  have start: "owner_inv once ?start" by (simp add: owner_simps init_llama_once_def)
  have "owner_inv once (note_event (Acquire Model) ?start\<lparr>has_model := True\<rparr>)"
    using owner_inv_model [OF start] by simp
  then have loaded: "owner_inv once ?loaded" by (rule owner_inv_use) (simp add: holds_def note_event_def)
  have flags: "has_model ?loaded" "\<not> has_ctx ?loaded" by (simp_all add: note_event_def)
  have "ow = ?start \<and> \<not> is_ok r \<or> ow = ?loaded \<and> \<not> is_ok r
      \<or> (\<exists>m api. own_engine mapi config m api ?loaded = (r, ow))"
    using assms by (auto simp: construct_engine_def Let_def split: if_splits sum.splits option.splits)
  then show ?thesis
  proof (elim disjE conjE exE)
    fix m api
    assume "own_engine mapi config m api ?loaded = (r, ow)"
    from own_engine_inv [OF this loaded flags] show ?thesis by blast
  qed (use start loaded in simp_all)
qed

lemma destroy_impl_runs:
  assumes "owner_inv once ow"
  shows "runs (destroy_impl ow) \<lparr>backends = once, alive = []\<rparr> = Some \<lparr>backends = True, alive = []\<rparr>"
  using assms by (auto simp: destroy_impl_def owner_simps)

text \<open>A request finds the model and the context, and leaves nothing but them.\<close>

lemma build_without_grammar:
  assumes "build api chain params resolved = Inr (chain', grammar)" "\<not> grammar_made api params resolved"
  shows "grammar = None"
  using assms
  by (auto simp: build_def add_grammar_def grammar_made_def Let_def split: if_splits option.splits sum.splits)

lemma request_events_run:
  "runs (request_events api params resolved) \<lparr>backends = True, alive = [Context, Model]\<rparr>
     = Some \<lparr>backends = True, alive = [Context, Model]\<rparr>"
proof (cases "api_chain_init api")
  case None
  then show ?thesis by (simp add: request_events_def construct_sampler_def)
next
  case (Some chain)
  then show ?thesis
    by (cases "build api chain params resolved"; cases "grammar_made api params resolved")
      (auto simp: request_events_def construct_sampler_def free_samplers_def Let_def split: prod.splits)
qed

lemma requests_run:
  "runs (concat (map (\<lambda>(params, resolved). request_events api params resolved) requests))
      \<lparr>backends = True, alive = [Context, Model]\<rparr> = Some \<lparr>backends = True, alive = [Context, Model]\<rparr>"
  by (induction requests) (auto simp: runs_append request_events_run)

lemma job_runs:
  "runs (job_events hw mapi once work) \<lparr>backends = once, alive = []\<rparr> = Some \<lparr>backends = True, alive = []\<rparr>"
proof (cases work)
  case List_devices
  then show ?thesis by (simp add: job_events_def init_llama_once_def)
next
  case (Run_engine config requests)
  obtain r ow where r: "construct_engine hw mapi config once = (r, ow)" by (metis prod.exhaust)
  note inv = construct_engine_inv [OF r]
  show ?thesis
  proof (cases r)
    case (Inl e)
    with r Run_engine inv destroy_impl_runs show ?thesis by (simp add: job_events_def)
  next
    case (Inr eng)
    let ?ow = "ow\<lparr>history := history ow
       @ concat (map (\<lambda>(params, resolved). request_events (eng_api eng) params resolved) requests)\<rparr>"
    have "owner_inv once ?ow" using inv Inr requests_run by (simp add: owner_inv_def holds_def runs_append)
    with r Run_engine Inr destroy_impl_runs [of once ?ow] show ?thesis by (simp add: job_events_def)
  qed
qed

text \<open>
  C17. Every object is released exactly once, on every path: whatever llama.cpp answers or throws while
  an engine is built or a request is served, the backends are started once, nothing is used before it
  was acquired or after it was released, a context or a grammar is never outlived by what it was made
  from, and at the end nothing is left. The constructors so run are those of the engine and sampler
  models.
\<close>

theorem everything_is_released_once:
  "runs (process_events hw mapi once jobs) \<lparr>backends = once, alive = []\<rparr>
     = Some \<lparr>backends = (if jobs = [] then once else True), alive = []\<rparr>
   \<and> fst (construct_engine hw mapi config once) = new_engine hw mapi config
   \<and> fst (construct_sampler api params resolved) = new_sampler api params resolved"
proof -
  have "runs (process_events hw mapi once jobs) \<lparr>backends = once, alive = []\<rparr>
     = Some \<lparr>backends = (if jobs = [] then once else True), alive = []\<rparr>"
  proof (induction jobs arbitrary: once)
    case (Cons work rest)
    then show ?case using Cons.IH [of True] by (simp add: runs_append job_runs)
  qed simp
  then show ?thesis by (simp add: construct_engine_result construct_sampler_result)
qed

end
