(* ===== verification/Flags.thy ===== *)
theory Flags
  imports Floats
begin

text \<open>
  The command-line reader of src/flags.h: numbers read whole from an argument (\<open>parse_number\<close>, for
  integer types and for \<open>float\<close>) and the walk over \<open>argv\<close> (\<open>Args\<close>). A \<open>FlagError\<close> carries the
  message that the binaries print; nothing else is thrown here.
\<close>

datatype flag_error = FlagError bytes

section \<open>Integers\<close>

text \<open>An integral \<open>T\<close> of \<open>parse_number\<close>, and its limits.\<close>

record int_type =
  it_signed :: bool
  it_bits :: nat

definition int32_t :: int_type where
  "int32_t = \<lparr>it_signed = True, it_bits = 32\<rparr>"

definition uint32_t :: int_type where
  "uint32_t = \<lparr>it_signed = False, it_bits = 32\<rparr>"

definition int_min :: "int_type \<Rightarrow> int" where
  "int_min ty = (if it_signed ty then - (2 ^ (it_bits ty - 1)) else 0)"

definition int_max :: "int_type \<Rightarrow> int" where
  "int_max ty = (if it_signed ty then 2 ^ (it_bits ty - 1) - 1 else 2 ^ it_bits ty - 1)"

text \<open>
  \<open>std::from_chars\<close> in base ten: the longest run of digits, after a minus sign when the type is
  signed, and how many bytes it took. It reads no plus sign and no space.
\<close>

datatype from_chars_result = Read int | Invalid_argument | Result_out_of_range

definition from_chars :: "int_type \<Rightarrow> bytes \<Rightarrow> from_chars_result \<times> nat" where
  "from_chars ty s =
     (let neg = it_signed ty \<and> s \<noteq> [] \<and> hd s = CHR ''-'';
          ds = takeWhile is_digit (if neg then tl s else s);
          v = (if neg then - int (dec_value ds) else int (dec_value ds));
          used = (if neg then Suc (length ds) else length ds)
      in if ds = [] then (Invalid_argument, 0)
         else if int_min ty \<le> v \<and> v \<le> int_max ty then (Read v, used)
         else (Result_out_of_range, used))"

text \<open>The integral branch of \<open>parse_number\<close>.\<close>

definition parse_int :: "int_type \<Rightarrow> bytes \<Rightarrow> bytes \<Rightarrow> flag_error + int" where
  "parse_int ty flag text =
     (case from_chars ty text of
        (Result_out_of_range, _) \<Rightarrow> Inl (FlagError (flag @ '' is out of range''))
      | (Read v, used) \<Rightarrow>
          if used = length text then Inr v
          else Inl (FlagError (flag @ (if it_signed ty then '' needs an integer''
                                       else '' needs a non-negative integer'')))
      | (Invalid_argument, _) \<Rightarrow>
          Inl (FlagError (flag @ (if it_signed ty then '' needs an integer''
                                  else '' needs a non-negative integer''))))"

lemma takeWhile_digits [simp]: "\<forall>c\<in>set ds. is_digit c \<Longrightarrow> takeWhile is_digit ds = ds"
  by (simp add: takeWhile_eq_all_conv)

lemma takeWhile_full: "length (takeWhile P xs) = length xs \<Longrightarrow> takeWhile P xs = xs"
  by (metis takeWhile_eq_take take_all order_refl)

text \<open>The texts that denote an integer of the type, and the integer.\<close>

definition numeral_of :: "int_type \<Rightarrow> bytes \<Rightarrow> int \<Rightarrow> bool" where
  "numeral_of ty text v \<longleftrightarrow>
     (\<exists>ds. ds \<noteq> [] \<and> (\<forall>c\<in>set ds. is_digit c)
        \<and> (text = ds \<and> v = int (dec_value ds)
           \<or> it_signed ty \<and> text = CHR ''-'' # ds \<and> v = - int (dec_value ds)))"

lemma digits_no_sign: "\<forall>c\<in>set ds. is_digit c \<Longrightarrow> ds \<noteq> [] \<Longrightarrow> hd ds \<noteq> CHR ''-''"
  by (metis hd_in_set minus_not_digit)

lemma numeral_parse_int:
  assumes "numeral_of ty text v"
  shows "parse_int ty flag text =
      (if int_min ty \<le> v \<and> v \<le> int_max ty then Inr v
       else Inl (FlagError (flag @ '' is out of range'')))"
proof -
  from assms obtain ds where ds: "ds \<noteq> []" "\<forall>c\<in>set ds. is_digit c"
    and which: "text = ds \<and> v = int (dec_value ds)
      \<or> it_signed ty \<and> text = CHR ''-'' # ds \<and> v = - int (dec_value ds)"
    by (auto simp: numeral_of_def)
  from which show ?thesis
  proof
    assume "text = ds \<and> v = int (dec_value ds)"
    with ds digits_no_sign [of ds] show ?thesis by (simp add: parse_int_def from_chars_def Let_def)
  next
    assume "it_signed ty \<and> text = CHR ''-'' # ds \<and> v = - int (dec_value ds)"
    with ds show ?thesis by (simp add: parse_int_def from_chars_def Let_def)
  qed
qed

lemma parse_int_numeral:
  assumes "parse_int ty flag text = Inr v"
  shows "numeral_of ty text v"
proof -
  define neg where "neg \<longleftrightarrow> it_signed ty \<and> text \<noteq> [] \<and> hd text = CHR ''-''"
  define ds where "ds = takeWhile is_digit (if neg then tl text else text)"
  have body: "ds \<noteq> []" "v = (if neg then - int (dec_value ds) else int (dec_value ds))"
    "(if neg then Suc (length ds) else length ds) = length text"
    using assms unfolding parse_int_def from_chars_def Let_def neg_def [symmetric] ds_def [symmetric]
    by (auto split: if_splits)
  have digits: "\<forall>c\<in>set ds. is_digit c" by (auto simp: ds_def dest: set_takeWhileD)
  show ?thesis
  proof (cases neg)
    case True
    then have "length ds = length (tl text)" "text = CHR ''-'' # tl text"
      using body(3) True unfolding neg_def by (auto, metis list.collapse)
    moreover from this(1) True have "tl text = ds" using takeWhile_full ds_def by metis
    ultimately show ?thesis using True body digits unfolding numeral_of_def neg_def by auto
  next
    case False
    then have "text = ds" using body(3) takeWhile_full ds_def by metis
    then show ?thesis using False body digits unfolding numeral_of_def by auto
  qed
qed

lemma numeral_of_dec_int: "it_signed ty \<or> 0 \<le> v \<Longrightarrow> numeral_of ty (dec_int v) v"
proof -
  assume "it_signed ty \<or> 0 \<le> v"
  moreover have "dec_nat (nat \<bar>v\<bar>) \<noteq> []" "\<forall>c\<in>set (dec_nat (nat \<bar>v\<bar>)). is_digit c"
    "int (dec_value (dec_nat (nat \<bar>v\<bar>))) = \<bar>v\<bar>"
    using dec_nat_digits by auto
  ultimately show ?thesis
    unfolding numeral_of_def dec_int_def by (intro exI [of _ "dec_nat (nat \<bar>v\<bar>)"]) auto
qed

text \<open>
  C38. An integer flag reads back what \<open>std::to_string\<close> writes, or says that it is out of range; and
  it takes nothing but integers of its type: the argument is digits, after a minus sign where the
  type has one, and nothing else.
\<close>

theorem integer_flags_round_trip:
  "parse_int ty flag (dec_int v) =
      (if v < 0 \<and> \<not> it_signed ty then Inl (FlagError (flag @ '' needs a non-negative integer''))
       else if int_min ty \<le> v \<and> v \<le> int_max ty then Inr v
       else Inl (FlagError (flag @ '' is out of range'')))
   \<and> (parse_int ty flag text = Inr w \<longleftrightarrow> numeral_of ty text w \<and> int_min ty \<le> w \<and> w \<le> int_max ty)"
proof
  show "parse_int ty flag (dec_int v) =
      (if v < 0 \<and> \<not> it_signed ty then Inl (FlagError (flag @ '' needs a non-negative integer''))
       else if int_min ty \<le> v \<and> v \<le> int_max ty then Inr v
       else Inl (FlagError (flag @ '' is out of range'')))"
  proof (cases "v < 0 \<and> \<not> it_signed ty")
    case True
    then show ?thesis by (simp add: parse_int_def from_chars_def dec_int_def)
  next
    case False
    then have "it_signed ty \<or> 0 \<le> v" by auto
    from numeral_parse_int [OF numeral_of_dec_int [OF this]] False show ?thesis by simp
  qed
  show "parse_int ty flag text = Inr w \<longleftrightarrow> numeral_of ty text w \<and> int_min ty \<le> w \<and> w \<le> int_max ty"
    using numeral_parse_int [of ty "text" w flag] parse_int_numeral [of ty flag "text" w]
    by (metis Inl_Inr_False)
qed

section \<open>Floating point\<close>

text \<open>
  \<open>std::strtod\<close> in the \<open>C\<close> locale: the value, how many bytes it took (0 when there is no number), and
  whether it set \<open>errno\<close> to \<open>ERANGE\<close>. The decimal and the hexadecimal forms are read exactly and
  rounded once.
\<close>

definition to_lower :: "char \<Rightarrow> char" where
  "to_lower c = (if 65 \<le> (of_char c :: nat) \<and> (of_char c :: nat) \<le> 90 then char_of ((of_char c :: nat) + 32) else c)"

text \<open>The value of a digit in base ten or sixteen.\<close>

definition digit_in :: "nat \<Rightarrow> char \<Rightarrow> nat option" where
  "digit_in base c =
     (let n = (of_char (to_lower c) :: nat);
          d = (if 48 \<le> n \<and> n \<le> 57 then n - 48 else if 97 \<le> n \<and> n \<le> 102 then n - 87 else 16)
      in if d < base then Some d else None)"

definition digits_value :: "nat \<Rightarrow> bytes \<Rightarrow> nat" where
  "digits_value base ds = foldl (\<lambda>n c. base * n + the (digit_in base c)) 0 ds"

text \<open>An exponent: the letter, an optional sign and at least one decimal digit; else nothing.\<close>

definition exponent_at :: "char \<Rightarrow> bytes \<Rightarrow> int \<times> nat" where
  "exponent_at letter s =
     (if s \<noteq> [] \<and> to_lower (hd s) = letter
      then
        (let r = tl s;
             signed = r \<noteq> [] \<and> (hd r = CHR ''+'' \<or> hd r = CHR ''-'');
             ds = takeWhile is_digit (if signed then tl r else r)
         in if ds = [] then (0, 0)
            else ((if signed \<and> hd r = CHR ''-'' then - int (dec_value ds) else int (dec_value ds)),
                  length ds + (if signed then 2 else 1)))
      else (0, 0))"

text \<open>An unsigned number in the base, with its fraction and its exponent to the power of \<open>radix\<close>.\<close>

definition power_of :: "nat \<Rightarrow> int \<Rightarrow> rat" where
  "power_of radix k = (if 0 \<le> k then of_nat radix ^ nat k else 1 / of_nat radix ^ nat (- k))"

definition number_at :: "nat \<Rightarrow> nat \<Rightarrow> char \<Rightarrow> bytes \<Rightarrow> (rat \<times> nat) option" where
  "number_at base radix letter s =
     (let whole = takeWhile (\<lambda>c. digit_in base c \<noteq> None) s;
          r = drop (length whole) s;
          point = r \<noteq> [] \<and> hd r = CHR ''.'';
          frac = (if point then takeWhile (\<lambda>c. digit_in base c \<noteq> None) (tl r) else []);
          used = length whole + (if point then Suc (length frac) else 0)
      in if whole = [] \<and> frac = [] then None
         else
           (let (e, more) = exponent_at letter (drop used s)
            in Some (of_nat (digits_value base (whole @ frac)) / of_nat base ^ length frac * power_of radix e,
                     used + more)))"

text \<open>
  Rounding to \<open>double\<close>, and \<open>ERANGE\<close>: overflow, or an inexact value too small for a normal number.
\<close>

definition to_double :: "rat \<Rightarrow> flt \<times> bool" where
  "to_double x =
     (case f64 x of
        Fin y \<Rightarrow>
          (Fin y, y \<noteq> x \<and>
             (case round_flt 53 (rat_log2 \<bar>x\<bar> - 52) 1024 x of
                Fin z \<Rightarrow> \<bar>z\<bar> < pow2 (- 1022) | _ \<Rightarrow> False))
      | v \<Rightarrow> (v, True))"

definition negated :: "flt \<Rightarrow> flt" where
  "negated v = (case v of Fin x \<Rightarrow> Fin (- x) | PosInf \<Rightarrow> NegInf | NegInf \<Rightarrow> PosInf | NaN \<Rightarrow> NaN)"

text \<open>The bytes \<open>nan(...)\<close> takes after its name.\<close>

definition nan_payload :: "bytes \<Rightarrow> nat" where
  "nan_payload s =
     (let body = takeWhile (\<lambda>c. is_digit c \<or> (97 \<le> (of_char (to_lower c) :: nat) \<and> (of_char (to_lower c) :: nat) \<le> 122)
                               \<or> c = CHR ''_'') (tl s)
      in if s \<noteq> [] \<and> hd s = CHR ''('' \<and> drop (Suc (length body)) s \<noteq> []
            \<and> s ! Suc (length body) = CHR '')''
         then length body + 2 else 0)"

definition unsigned_at :: "bytes \<Rightarrow> flt \<times> nat \<times> bool" where
  "unsigned_at s =
     (let low = map to_lower s
      in if prefix ''infinity'' low then (PosInf, 8, False)
         else if prefix ''inf'' low then (PosInf, 3, False)
         else if prefix ''nan'' low then (NaN, 3 + nan_payload (drop 3 s), False)
         else
           (case (if prefix ''0x'' low then number_at 16 2 (CHR ''p'') (drop 2 s) else None) of
              Some (x, n) \<Rightarrow> (case to_double x of (v, erange) \<Rightarrow> (v, n + 2, erange))
            | None \<Rightarrow>
                (case number_at 10 10 (CHR ''e'') s of
                   Some (x, n) \<Rightarrow> (case to_double x of (v, erange) \<Rightarrow> (v, n, erange))
                 | None \<Rightarrow> (Fin 0, 0, False))))"

definition strtod :: "bytes \<Rightarrow> flt \<times> nat \<times> bool" where
  "strtod s =
     (let space = length (takeWhile isspace s);
          r = drop space s;
          signed = r \<noteq> [] \<and> (hd r = CHR ''+'' \<or> hd r = CHR ''-'')
      in case unsigned_at (if signed then tl r else r) of
           (v, n, erange) \<Rightarrow>
             if n = 0 then (Fin 0, 0, False)
             else ((if signed \<and> hd r = CHR ''-'' then negated v else v),
                   space + (if signed then 1 else 0) + n, erange))"

text \<open>\<open>std::numeric_limits<float>::max()\<close>.\<close>

definition float_max :: rat where
  "float_max = of_int (2 ^ 24 - 1) * 2 ^ 104"

text \<open>The floating-point branch of \<open>parse_number\<close>, for \<open>float\<close>.\<close>

definition parse_float :: "bytes \<Rightarrow> bytes \<Rightarrow> flag_error + flt" where
  "parse_float flag text =
     (if text = [] \<or> isspace (text ! 0) then Inl (FlagError (flag @ '' needs a number''))
      else
        (case strtod text of
           (val, used, erange) \<Rightarrow>
             if used \<noteq> length text \<or> \<not> is_finite val
             then Inl (FlagError (flag @ '' needs a number''))
             else
               (case val of
                  Fin x \<Rightarrow>
                    if erange \<or> float_max < \<bar>x\<bar>
                    then Inl (FlagError (flag @ '' is out of range''))
                    else Inr (f32 x)
                | _ \<Rightarrow> Inl (FlagError (flag @ '' needs a number'')))))"

lemma round_even_le: "x \<le> of_int n \<Longrightarrow> round_even x \<le> n"
  by (auto simp: round_even_def Let_def) linarith+

lemma round_even_bound: "\<bar>x\<bar> \<le> of_int n \<Longrightarrow> \<bar>round_even x\<bar> \<le> n"
proof -
  assume x: "\<bar>x\<bar> \<le> of_int n"
  then have "round_even x \<le> n" by (intro round_even_le) auto
  moreover from x have "- x \<le> of_int n" by auto
  then have "- n \<le> \<lfloor>x\<rfloor>" by linarith
  ultimately show ?thesis using round_even_ge [of x] by linarith
qed

lemma f32_in_range:
  assumes "\<bar>x\<bar> \<le> float_max"
  shows "\<exists>y. f32 x = Fin y \<and> \<bar>y\<bar> \<le> float_max"
proof (cases "x = 0")
  case True
  then show ?thesis by (simp add: f32_def round_flt_def float_max_def)
next
  case False
  define e where "e = max (rat_log2 \<bar>x\<bar> - 23) (- 149)"
  have "float_max < pow2 128" by (simp add: float_max_def pow2_def)
  with assms pow2_rat_log2_le [of "\<bar>x\<bar>"] False have "pow2 (rat_log2 \<bar>x\<bar>) < pow2 128" by simp
  then have "rat_log2 \<bar>x\<bar> < 128" using pow2_mono [of 128] by (meson not_le)
  then have e: "e \<le> 104" by (simp add: e_def)
  define n :: int where "n = (2 ^ 24 - 1) * 2 ^ nat (104 - e)"
  have n: "of_int n * pow2 e = float_max"
  proof -
    have "pow2 (104 - e) = 2 ^ nat (104 - e)" using e by (simp add: pow2_def)
    then have "2 ^ nat (104 - e) * pow2 e = pow2 104"
      using pow2_diff [of 104 e] by (metis nonzero_eq_divide_eq pow2_nonzero)
    then show ?thesis by (simp add: n_def float_max_def pow2_def [of 104] mult.assoc)
  qed
  then have "\<bar>x / pow2 e\<bar> \<le> of_int n" using assms by (simp add: divide_le_eq flip: abs_div_pos)
  then have "\<bar>round_even (x / pow2 e)\<bar> \<le> n" by (rule round_even_bound)
  then have "\<bar>of_int (round_even (x / pow2 e)) :: rat\<bar> \<le> of_int n"
    by (metis of_int_abs of_int_le_iff)
  then have b: "\<bar>of_int (round_even (x / pow2 e)) * pow2 e\<bar> \<le> float_max"
    unfolding n [symmetric] by (simp add: abs_mult mult_right_mono)
  with \<open>float_max < pow2 128\<close> have "\<not> pow2 128 \<le> \<bar>of_int (round_even (x / pow2 e)) * pow2 e\<bar>" by simp
  with False b show ?thesis by (auto simp: f32_def round_flt_def Let_def e_def)
qed

text \<open>
  A float flag takes the whole argument and yields a finite number of its type: never an
  infinity, whatever the text, since what is read is at most the largest \<open>float\<close>.
\<close>

lemma float_flags_are_finite:
  assumes "parse_float flag text = Inr v"
  shows "\<exists>x y erange. strtod text = (Fin x, length text, erange) \<and> v = f32 x \<and> v = Fin y
    \<and> \<bar>x\<bar> \<le> float_max \<and> \<bar>y\<bar> \<le> float_max"
proof -
  obtain val used erange where s: "strtod text = (val, used, erange)" by (metis prod.exhaust)
  with assms obtain x where "val = Fin x" "used = length text" "\<not> erange" "\<bar>x\<bar> \<le> float_max" "v = f32 x"
    by (auto simp: parse_float_def split: if_splits flt.splits)
  with s f32_in_range [of x] show ?thesis by auto
qed

text \<open>An overflow is not finite, and so never the out-of-range error.\<close>

lemma overflow_is_no_number:
  "\<not> is_finite (fst (strtod text)) \<Longrightarrow> parse_float flag text = Inl (FlagError (flag @ '' needs a number''))"
  by (auto simp: parse_float_def split: prod.splits)

section \<open>The arguments\<close>

text \<open>\<open>Args\<close>: \<open>argv\<close> and the index of the current argument. \<open>argc\<close> is the length of \<open>argv\<close>.\<close>

record args =
  argv :: "bytes list"
  arg_at :: nat

definition new_args :: "bytes list \<Rightarrow> args" where
  "new_args v = \<lparr>argv = v, arg_at = 0\<rparr>"

definition next_arg :: "args \<Rightarrow> bool \<times> args" where
  "next_arg a = (let a' = a\<lparr>arg_at := Suc (arg_at a)\<rparr> in (arg_at a' < length (argv a'), a'))"

definition current :: "args \<Rightarrow> bytes" where
  "current a = argv a ! arg_at a"

definition is_flag :: "args \<Rightarrow> bool" where
  "is_flag a \<longleftrightarrow> prefix ''--'' (current a) \<or> current a = ''-h''"

definition is_arg :: "args \<Rightarrow> bytes \<Rightarrow> bool" where
  "is_arg a name \<longleftrightarrow> current a = name \<or> current a = ''-h'' \<and> name = ''--help''"

definition value_arg :: "args \<Rightarrow> flag_error + (bytes \<times> args)" where
  "value_arg a =
     (if length (argv a) \<le> Suc (arg_at a) then Inl (FlagError (current a @ '' needs a value''))
      else (let a' = a\<lparr>arg_at := Suc (arg_at a)\<rparr> in Inr (current a', a')))"

text \<open>\<open>Args::number<int32_t>\<close>: the flag is the one that was current before its value was taken.\<close>

definition number_arg :: "int_type \<Rightarrow> args \<Rightarrow> flag_error + (int \<times> args)" where
  "number_arg ty a =
     (let flag = current a
      in case value_arg a of
           Inl e \<Rightarrow> Inl e
         | Inr (v, a') \<Rightarrow>
             (case parse_int ty flag v of Inl e \<Rightarrow> Inl e | Inr n \<Rightarrow> Inr (n, a')))"

definition unknown_arg :: "args \<Rightarrow> flag_error" where
  "unknown_arg a = FlagError (''unknown argument '' @ quoted (current a))"

end
