(* ===== verification/Engine_Flags.thy ===== *)
theory Engine_Flags
  imports Flags Devices
begin

text \<open>
  The flags shared by the binaries (src/engine_flags.h) and the command line of the daemon
  (\<open>Options\<close> and \<open>parse_command_line\<close> of src/main.cpp): reading one argument, reading them all, the
  configuration that the flags describe, and the device table.
\<close>

section \<open>Flags\<close>

record engine_flags =
  ef_ctx :: int
  ef_ngl :: int
  ef_threads :: int
  ef_devices :: "bytes option"
  ef_tensor_split :: "bytes option"
  ef_list_devices :: bool

definition default_flags :: engine_flags where
  "default_flags =
     \<lparr>ef_ctx = 4096, ef_ngl = 99, ef_threads = 0, ef_devices = None, ef_tensor_split = None,
      ef_list_devices = False\<rparr>"

text \<open>A flag that takes a value: the value is stored, and the arguments have moved past it.\<close>

definition parse_engine_flag :: "args \<Rightarrow> engine_flags \<Rightarrow> flag_error + (bool \<times> args \<times> engine_flags)" where
  "parse_engine_flag a f =
     (if is_arg a ''--ctx'' then
        (case number_arg int32_t a of Inl e \<Rightarrow> Inl e | Inr (n, a') \<Rightarrow> Inr (True, a', f\<lparr>ef_ctx := n\<rparr>))
      else if is_arg a ''--ngl'' then
        (case number_arg int32_t a of Inl e \<Rightarrow> Inl e | Inr (n, a') \<Rightarrow> Inr (True, a', f\<lparr>ef_ngl := n\<rparr>))
      else if is_arg a ''--threads'' then
        (case number_arg int32_t a of Inl e \<Rightarrow> Inl e | Inr (n, a') \<Rightarrow> Inr (True, a', f\<lparr>ef_threads := n\<rparr>))
      else if is_arg a ''--devices'' then
        (case value_arg a of Inl e \<Rightarrow> Inl e | Inr (v, a') \<Rightarrow> Inr (True, a', f\<lparr>ef_devices := Some v\<rparr>))
      else if is_arg a ''--tensor-split'' then
        (case value_arg a of Inl e \<Rightarrow> Inl e | Inr (v, a') \<Rightarrow> Inr (True, a', f\<lparr>ef_tensor_split := Some v\<rparr>))
      else if is_arg a ''--list-devices'' then Inr (True, a, f\<lparr>ef_list_devices := True\<rparr>)
      else Inr (False, a, f))"

section \<open>The daemon's command line\<close>

record options =
  opt_model :: bytes
  opt_socket :: "bytes option"
  opt_help :: bool
  opt_version :: bool

definition default_options :: options where
  "default_options = \<lparr>opt_model = [], opt_socket = None, opt_help = False, opt_version = False\<rparr>"

text \<open>The body of the loop of \<open>parse_command_line\<close>.\<close>

definition read_arg ::
  "args \<Rightarrow> options \<times> engine_flags \<Rightarrow> flag_error + (args \<times> options \<times> engine_flags)" where
  "read_arg a st =
     (case st of
        (opts, f) \<Rightarrow>
          if is_arg a ''--model'' then
            (case value_arg a of Inl e \<Rightarrow> Inl e | Inr (v, a') \<Rightarrow> Inr (a', opts\<lparr>opt_model := v\<rparr>, f))
          else if is_arg a ''--socket'' then
            (case value_arg a of Inl e \<Rightarrow> Inl e | Inr (v, a') \<Rightarrow> Inr (a', opts\<lparr>opt_socket := Some v\<rparr>, f))
          else if is_arg a ''--help'' then Inr (a, opts\<lparr>opt_help := True\<rparr>, f)
          else if is_arg a ''--version'' then Inr (a, opts\<lparr>opt_version := True\<rparr>, f)
          else
            (case parse_engine_flag a f of
               Inl e \<Rightarrow> Inl e
             | Inr (taken, a', f') \<Rightarrow> if taken then Inr (a', opts, f') else Inl (unknown_arg a)))"

lemma value_arg_moves: "value_arg a = Inr (v, a') \<Longrightarrow> argv a' = argv a \<and> arg_at a \<le> arg_at a'"
  by (auto simp: value_arg_def Let_def split: if_splits)

lemma number_arg_moves: "number_arg ty a = Inr (n, a') \<Longrightarrow> argv a' = argv a \<and> arg_at a \<le> arg_at a'"
  by (auto simp: number_arg_def Let_def dest: value_arg_moves split: sum.splits)

lemma parse_engine_flag_moves:
  "parse_engine_flag a f = Inr (t, a', f') \<Longrightarrow> argv a' = argv a \<and> arg_at a \<le> arg_at a'"
  by (auto simp: parse_engine_flag_def dest!: value_arg_moves number_arg_moves
      split: if_splits sum.splits)

lemma read_arg_moves: "read_arg a st = Inr (a', st') \<Longrightarrow> argv a' = argv a \<and> arg_at a \<le> arg_at a'"
  by (auto simp: read_arg_def dest!: value_arg_moves parse_engine_flag_moves
      split: if_splits sum.splits prod.splits)

text \<open>The loop; it ends because every turn takes at least one argument.\<close>

function command_line ::
  "args \<Rightarrow> options \<times> engine_flags \<Rightarrow> flag_error + (options \<times> engine_flags)" where
  "command_line a st =
     (let (more, a') = next_arg a
      in if \<not> more then Inr st
         else (case read_arg a' st of Inl e \<Rightarrow> Inl e | Inr (b, st') \<Rightarrow> command_line b st'))"
  by pat_completeness auto

termination
  by (relation "measure (\<lambda>(a, st). length (argv a) - arg_at a)")
    (auto simp: next_arg_def Let_def dest!: read_arg_moves)

declare command_line.simps [simp del]

definition parse_command_line :: "bytes list \<Rightarrow> flag_error + (options \<times> engine_flags)" where
  "parse_command_line args = command_line (new_args args) (default_options, default_flags)"

section \<open>What a command line says\<close>

text \<open>
  The abstract command line: a list of settings, later ones overriding earlier ones, each spelled
  by one or two words. An integer may be spelled by any numeral for it.
\<close>

datatype setting =
    Set_model bytes | Set_socket bytes | Ask_help | Ask_version
  | Set_ctx int | Set_ngl int | Set_threads int
  | Set_devices bytes | Set_tensor_split bytes | Ask_list_devices

fun apply_setting :: "setting \<Rightarrow> options \<times> engine_flags \<Rightarrow> options \<times> engine_flags" where
  "apply_setting (Set_model v) (opts, f) = (opts\<lparr>opt_model := v\<rparr>, f)"
| "apply_setting (Set_socket v) (opts, f) = (opts\<lparr>opt_socket := Some v\<rparr>, f)"
| "apply_setting Ask_help (opts, f) = (opts\<lparr>opt_help := True\<rparr>, f)"
| "apply_setting Ask_version (opts, f) = (opts\<lparr>opt_version := True\<rparr>, f)"
| "apply_setting (Set_ctx n) (opts, f) = (opts, f\<lparr>ef_ctx := n\<rparr>)"
| "apply_setting (Set_ngl n) (opts, f) = (opts, f\<lparr>ef_ngl := n\<rparr>)"
| "apply_setting (Set_threads n) (opts, f) = (opts, f\<lparr>ef_threads := n\<rparr>)"
| "apply_setting (Set_devices v) (opts, f) = (opts, f\<lparr>ef_devices := Some v\<rparr>)"
| "apply_setting (Set_tensor_split v) (opts, f) = (opts, f\<lparr>ef_tensor_split := Some v\<rparr>)"
| "apply_setting Ask_list_devices (opts, f) = (opts, f\<lparr>ef_list_devices := True\<rparr>)"

text \<open>The numerals of an \<open>int32_t\<close>.\<close>

definition int32_text :: "bytes \<Rightarrow> int \<Rightarrow> bool" where
  "int32_text t n \<longleftrightarrow> numeral_of int32_t t n \<and> - 2147483648 \<le> n \<and> n \<le> 2147483647"

lemma parse_int32: "parse_int int32_t flag t = Inr n \<longleftrightarrow> int32_text t n"
  using numeral_parse_int [of int32_t t n flag] parse_int_numeral [of int32_t flag t n]
  by (auto simp: int32_text_def int32_t_def int_min_def int_max_def split: if_splits)

fun spelled :: "setting \<Rightarrow> bytes list \<Rightarrow> bool" where
  "spelled (Set_model v) ws \<longleftrightarrow> ws = [''--model'', v]"
| "spelled (Set_socket v) ws \<longleftrightarrow> ws = [''--socket'', v]"
| "spelled Ask_help ws \<longleftrightarrow> ws = [''--help''] \<or> ws = [''-h'']"
| "spelled Ask_version ws \<longleftrightarrow> ws = [''--version'']"
| "spelled (Set_ctx n) ws \<longleftrightarrow> (\<exists>t. int32_text t n \<and> ws = [''--ctx'', t])"
| "spelled (Set_ngl n) ws \<longleftrightarrow> (\<exists>t. int32_text t n \<and> ws = [''--ngl'', t])"
| "spelled (Set_threads n) ws \<longleftrightarrow> (\<exists>t. int32_text t n \<and> ws = [''--threads'', t])"
| "spelled (Set_devices v) ws \<longleftrightarrow> ws = [''--devices'', v]"
| "spelled (Set_tensor_split v) ws \<longleftrightarrow> ws = [''--tensor-split'', v]"
| "spelled Ask_list_devices ws \<longleftrightarrow> ws = [''--list-devices'']"

inductive spells :: "bytes list \<Rightarrow> setting list \<Rightarrow> bool" where
  no_words: "spells [] []"
| more_words: "spelled s ws \<Longrightarrow> spells rest ss \<Longrightarrow> spells (ws @ rest) (s # ss)"

inductive_simps spells_Nil [simp]: "spells ws []"

text \<open>One argument, over the words from the current one on.\<close>

lemma value_arg_at [arg_simps]:
  "value_arg \<lparr>argv = v, arg_at = i\<rparr> =
     (if Suc i < length v then Inr (v ! Suc i, \<lparr>argv = v, arg_at = Suc i\<rparr>)
      else Inl (FlagError (v ! i @ '' needs a value'')))"
  by (simp add: value_arg_def current_def)

lemma number_arg_at [arg_simps]:
  "number_arg int32_t \<lparr>argv = v, arg_at = i\<rparr> = Inr (n, a) \<longleftrightarrow>
     Suc i < length v \<and> int32_text (v ! Suc i) n \<and> a = \<lparr>argv = v, arg_at = Suc i\<rparr>"
  using parse_int32 [of "v ! i" "v ! Suc i"]
  by (auto simp: number_arg_def value_arg_at current_def split: sum.splits) (metis sum.inject(2))

text \<open>The argument read, by the word it is.\<close>

lemma read_arg_word [arg_simps]:
  "current a = ''--model'' \<Longrightarrow> read_arg a (opts, f) =
     (case value_arg a of Inl e \<Rightarrow> Inl e | Inr (v, a') \<Rightarrow> Inr (a', opts\<lparr>opt_model := v\<rparr>, f))"
  "current a = ''--socket'' \<Longrightarrow> read_arg a (opts, f) =
     (case value_arg a of Inl e \<Rightarrow> Inl e | Inr (v, a') \<Rightarrow> Inr (a', opts\<lparr>opt_socket := Some v\<rparr>, f))"
  "current a = ''--help'' \<or> current a = ''-h'' \<Longrightarrow> read_arg a (opts, f) = Inr (a, opts\<lparr>opt_help := True\<rparr>, f)"
  "current a = ''--version'' \<Longrightarrow> read_arg a (opts, f) = Inr (a, opts\<lparr>opt_version := True\<rparr>, f)"
  "current a = ''--ctx'' \<Longrightarrow> read_arg a (opts, f) =
     (case number_arg int32_t a of Inl e \<Rightarrow> Inl e | Inr (n, a') \<Rightarrow> Inr (a', opts, f\<lparr>ef_ctx := n\<rparr>))"
  "current a = ''--ngl'' \<Longrightarrow> read_arg a (opts, f) =
     (case number_arg int32_t a of Inl e \<Rightarrow> Inl e | Inr (n, a') \<Rightarrow> Inr (a', opts, f\<lparr>ef_ngl := n\<rparr>))"
  "current a = ''--threads'' \<Longrightarrow> read_arg a (opts, f) =
     (case number_arg int32_t a of Inl e \<Rightarrow> Inl e | Inr (n, a') \<Rightarrow> Inr (a', opts, f\<lparr>ef_threads := n\<rparr>))"
  "current a = ''--devices'' \<Longrightarrow> read_arg a (opts, f) =
     (case value_arg a of Inl e \<Rightarrow> Inl e | Inr (v, a') \<Rightarrow> Inr (a', opts, f\<lparr>ef_devices := Some v\<rparr>))"
  "current a = ''--tensor-split'' \<Longrightarrow> read_arg a (opts, f) =
     (case value_arg a of Inl e \<Rightarrow> Inl e | Inr (v, a') \<Rightarrow> Inr (a', opts, f\<lparr>ef_tensor_split := Some v\<rparr>))"
  "current a = ''--list-devices'' \<Longrightarrow> read_arg a (opts, f) = Inr (a, opts, f\<lparr>ef_list_devices := True\<rparr>)"
  by (auto simp: read_arg_def parse_engine_flag_def is_arg_def split: sum.splits)

lemma read_arg_unknown:
  "current a \<notin> {''--model'', ''--socket'', ''--help'', ''-h'', ''--version'', ''--ctx'', ''--ngl'',
      ''--threads'', ''--devices'', ''--tensor-split'', ''--list-devices''} \<Longrightarrow>
   read_arg a (opts, f) = Inl (unknown_arg a)"
  by (simp add: read_arg_def parse_engine_flag_def is_arg_def)

lemma current_at [simp]: "current \<lparr>argv = v, arg_at = i\<rparr> = v ! i"
  by (simp add: current_def)

lemma read_arg_spelled:
  assumes "spelled s ws" "drop i v = ws @ rest"
  shows "read_arg \<lparr>argv = v, arg_at = i\<rparr> st = Inr (\<lparr>argv = v, arg_at = i + length ws - 1\<rparr>, apply_setting s st)"
proof -
  obtain opts f where st: "st = (opts, f)" by fastforce
  have len: "i + length ws + length rest = length v" if "ws \<noteq> []"
    using arg_cong [OF assms(2), of length] that by (cases "length v \<le> i") auto
  consider (one) w where "ws = [w]" | (two) w t where "ws = [w, t]"
    using assms(1) by (cases s) auto
  then show ?thesis
  proof cases
    case one
    then have "v ! i = w" using assms(2) by (simp add: nth_via_drop)
    with assms(1) show ?thesis
      unfolding st one by (cases s) (auto simp: read_arg_word)
  next
    case two
    then have w: "v ! i = w" using assms(2) by (simp add: nth_via_drop)
    have "drop (Suc i) v = tl (drop i v)" by (simp add: drop_Suc tl_drop)
    with assms(2) two have "drop (Suc i) v = t # rest" by simp
    then have t: "v ! Suc i = t" by (rule nth_via_drop)
    have l: "Suc i < length v" using len two by simp
    from assms(1) w t l show ?thesis
      unfolding st two
      by (cases s) (auto simp: read_arg_word value_arg_at number_arg_at [THEN iffD2])
  qed
qed

lemma spelled_read_arg:
  assumes "read_arg \<lparr>argv = v, arg_at = i\<rparr> st = Inr (a, st')" "i < length v"
  shows "\<exists>s ws. spelled s ws \<and> st' = apply_setting s st \<and> ws \<noteq> []
    \<and> a = \<lparr>argv = v, arg_at = i + length ws - 1\<rparr> \<and> drop i v = ws @ drop (i + length ws) v"
proof -
  obtain opts f where st: "st = (opts, f)" by fastforce
  have one: ?thesis if "spelled s [v ! i]" "st' = apply_setting s st" "a = \<lparr>argv = v, arg_at = i\<rparr>" for s
    using that assms(2) Cons_nth_drop_Suc [OF assms(2)] by (intro exI [of _ s]) force
  have two: ?thesis if "spelled s [v ! i, v ! Suc i]" "st' = apply_setting s st"
    "a = \<lparr>argv = v, arg_at = Suc i\<rparr>" "Suc i < length v" for s
    using that assms(2) Cons_nth_drop_Suc [OF assms(2)] Cons_nth_drop_Suc [OF that(4)]
    by (intro exI [of _ s] exI [of _ "[v ! i, v ! Suc i]"]) force
  note run = assms(1) [unfolded st]
  consider (model) "v ! i = ''--model''" | (socket) "v ! i = ''--socket''" | (usage) "v ! i = ''--help'' \<or> v ! i = ''-h''"
    | (version) "v ! i = ''--version''" | (ctx) "v ! i = ''--ctx''" | (ngl) "v ! i = ''--ngl''"
    | (threads) "v ! i = ''--threads''" | (devices) "v ! i = ''--devices''"
    | (tensor_split) "v ! i = ''--tensor-split''" | (list) "v ! i = ''--list-devices''"
    using run read_arg_unknown [of "\<lparr>argv = v, arg_at = i\<rparr>" opts f] by fastforce
  then show ?thesis
  proof cases
    case model
    with run two [of "Set_model (v ! Suc i)"] show ?thesis
      by (auto simp: st arg_simps split: if_splits)
  next
    case socket
    with run two [of "Set_socket (v ! Suc i)"] show ?thesis
      by (auto simp: st arg_simps split: if_splits)
  next
    case usage
    with run one [of Ask_help] show ?thesis by (auto simp: st arg_simps)
  next
    case version
    with run one [of Ask_version] show ?thesis by (auto simp: st arg_simps)
  next
    case ctx
    with run two [of "Set_ctx n" for n] show ?thesis
      by (auto simp: st arg_simps split: sum.splits)
  next
    case ngl
    with run two [of "Set_ngl n" for n] show ?thesis
      by (auto simp: st arg_simps split: sum.splits)
  next
    case threads
    with run two [of "Set_threads n" for n] show ?thesis
      by (auto simp: st arg_simps split: sum.splits)
  next
    case devices
    with run two [of "Set_devices (v ! Suc i)"] show ?thesis
      by (auto simp: st arg_simps split: if_splits)
  next
    case tensor_split
    with run two [of "Set_tensor_split (v ! Suc i)"] show ?thesis
      by (auto simp: st arg_simps split: if_splits)
  next
    case list
    with run one [of Ask_list_devices] show ?thesis by (auto simp: st arg_simps)
  qed
qed

lemma command_line_spells:
  "spells ws ss \<Longrightarrow> drop (Suc i) v = ws \<Longrightarrow>
     command_line \<lparr>argv = v, arg_at = i\<rparr> st = Inr (fold apply_setting ss st)"
proof (induction arbitrary: i st rule: spells.induct)
  case no_words
  then show ?case by (simp add: command_line.simps next_arg_def)
next
  case (more_words s ws rest ss)
  have ws: "ws \<noteq> []" using more_words.hyps(1) by (cases s) auto
  then have i: "Suc i < length v" using more_words.prems by (metis append_is_Nil_conv drop_all not_le)
  have "drop (Suc (i + length ws)) v = drop (length ws) (drop (Suc i) v)" by (simp add: add.commute)
  then have rest: "drop (Suc (i + length ws)) v = rest" using more_words.prems by simp
  have "read_arg \<lparr>argv = v, arg_at = Suc i\<rparr> st
      = Inr (\<lparr>argv = v, arg_at = i + length ws\<rparr>, apply_setting s st)"
    using read_arg_spelled [OF more_words.hyps(1) more_words.prems, of st] by simp
  then have "command_line \<lparr>argv = v, arg_at = i\<rparr> st
      = command_line \<lparr>argv = v, arg_at = i + length ws\<rparr> (apply_setting s st)"
    using i by (subst command_line.simps) (simp add: next_arg_def)
  also have "\<dots> = Inr (fold apply_setting ss (apply_setting s st))"
    by (rule more_words.IH [OF rest])
  finally show ?case by simp
qed

lemma command_line_says:
  "command_line a st = Inr r \<Longrightarrow> \<exists>ss. spells (drop (Suc (arg_at a)) (argv a)) ss \<and> r = fold apply_setting ss st"
proof (induction a st rule: command_line.induct)
  case (1 a st)
  let ?b = "a\<lparr>arg_at := Suc (arg_at a)\<rparr>"
  show ?case
  proof (cases "Suc (arg_at a) < length (argv a)")
    case False
    with "1.prems" show ?thesis
      by (subst (asm) command_line.simps)
        (auto simp: next_arg_def intro!: exI [of _ "[]"])
  next
    case True
    with "1.prems" obtain c st' where read: "read_arg ?b st = Inr (c, st')" and
      run: "command_line c st' = Inr r"
      by (subst (asm) command_line.simps) (auto simp: next_arg_def Let_def split: sum.splits)
    have b: "?b = \<lparr>argv = argv a, arg_at = Suc (arg_at a)\<rparr>" by simp
    obtain s ws where s: "spelled s ws" "st' = apply_setting s st" "ws \<noteq> []"
        "c = \<lparr>argv = argv a, arg_at = Suc (arg_at a) + length ws - 1\<rparr>"
        "drop (Suc (arg_at a)) (argv a) = ws @ drop (Suc (arg_at a) + length ws) (argv a)"
      using spelled_read_arg [OF read [unfolded b] True] by blast
    have "\<exists>ss. spells (drop (Suc (arg_at c)) (argv c)) ss \<and> r = fold apply_setting ss st'"
      using "1.IH" [OF refl _ _ read refl run] True by (simp add: next_arg_def)
    then obtain ss where "spells (drop (Suc (arg_at c)) (argv c)) ss" "r = fold apply_setting ss st'"
      by blast
    with s spells.more_words [OF s(1) this(1)] show ?thesis
      by (intro exI [of _ "s # ss"]) (cases ws, auto)
  qed
qed

text \<open>
  C36. The command line means a list of settings: it is accepted exactly when its words spell one,
  and then the options are the defaults with the settings applied in order, so that a later one
  overrides an earlier one. Nothing is skipped, a value is never read as a flag nor a flag as a
  value, and the walk ends.
\<close>

theorem command_line_means_settings:
  "parse_command_line (program # words) = Inr r \<longleftrightarrow>
     (\<exists>ss. spells words ss \<and> r = fold apply_setting ss (default_options, default_flags))"
proof
  assume "parse_command_line (program # words) = Inr r"
  from command_line_says [OF this [unfolded parse_command_line_def]]
  show "\<exists>ss. spells words ss \<and> r = fold apply_setting ss (default_options, default_flags)"
    by (simp add: new_args_def)
next
  assume "\<exists>ss. spells words ss \<and> r = fold apply_setting ss (default_options, default_flags)"
  then obtain ss where "spells words ss" "r = fold apply_setting ss (default_options, default_flags)"
    by blast
  with command_line_spells [of words ss 0 "program # words"]
  show "parse_command_line (program # words) = Inr r"
    by (simp add: parse_command_line_def new_args_def)
qed

section \<open>Comma-separated lists\<close>

text \<open>\<open>text.find(',', start)\<close>.\<close>

definition find_comma :: "bytes \<Rightarrow> nat \<Rightarrow> nat option" where
  "find_comma s start = map_option (\<lambda>p. start + p) (str_find (drop start s) '','')"

lemma find_comma_Some:
  "find_comma s start = Some c \<Longrightarrow>
     start \<le> c \<and> c < length s \<and> drop start s = take (c - start) (drop start s) @ CHR '','' # drop (Suc c) s
     \<and> CHR '','' \<notin> set (take (c - start) (drop start s))"
proof -
  assume "find_comma s start = Some c"
  then obtain p where c: "c = start + p" and p: "str_find (drop start s) '','' = Some p"
    by (auto simp: find_comma_def)
  let ?r = "drop start s"
  from p have at: "p \<le> length ?r" "prefix '','' (drop p ?r)" and before: "\<forall>q<p. \<not> prefix '','' (drop q ?r)"
    by (auto simp: str_find_Some_iff occurs_at_def)
  from at(2) obtain rest where rest: "drop p ?r = CHR '','' # rest" by (auto simp: prefix_def)
  then have lt: "p < length ?r" by (metis drop_all list.distinct(1) not_le)
  have "rest = drop (Suc p) ?r" using rest by (metis drop_Suc list.sel(3) tl_drop)
  moreover have "CHR '','' \<notin> set (take p ?r)"
  proof
    assume "CHR '','' \<in> set (take p ?r)"
    then obtain q where q: "q < p" "?r ! q = CHR '',''" using lt by (auto simp: in_set_conv_nth)
    then have "prefix '','' (drop q ?r)"
      using lt Cons_nth_drop_Suc [of q ?r] by (metis Cons_prefix_Cons Nil_prefix less_trans)
    with before q show False by blast
  qed
  ultimately show ?thesis
    using lt rest append_take_drop_id [of p ?r] by (simp add: c add.commute)
qed

lemma find_comma_None: "find_comma s start = None \<Longrightarrow> CHR '','' \<notin> set (drop start s)"
proof
  assume none: "find_comma s start = None" and "CHR '','' \<in> set (drop start s)"
  then obtain us vs where "drop start s = us @ CHR '','' # vs" by (meson split_list)
  then have "occurs_at (drop start s) '','' (length us)" by (simp add: occurs_at_def)
  with none show False by (auto simp: find_comma_def str_find_None_iff)
qed

text \<open>The loop of \<open>split_list\<close> from \<open>start\<close>, with the parts so far.\<close>

function split_from :: "bytes \<Rightarrow> nat \<Rightarrow> bytes list \<Rightarrow> bytes list option" where
  "split_from s start parts =
     (let comma = find_comma s start;
          part = (case comma of None \<Rightarrow> drop start s | Some c \<Rightarrow> take (c - start) (drop start s))
      in if part = [] then None
         else (case comma of
                 None \<Rightarrow> Some (parts @ [part])
               | Some c \<Rightarrow> split_from s (Suc c) (parts @ [part])))"
  by pat_completeness auto

termination
  by (relation "measure (\<lambda>(s, start, parts). length s - start)") (auto dest!: find_comma_Some [OF sym])

declare split_from.simps [simp del]

definition split_list_on_commas :: "bytes \<Rightarrow> bytes list option" where
  "split_list_on_commas s = split_from s 0 []"

text \<open>The inverse: the parts with commas between them.\<close>

fun join_commas :: "bytes list \<Rightarrow> bytes" where
  "join_commas [] = []"
| "join_commas [p] = p"
| "join_commas (p # ps) = p @ CHR '','' # join_commas ps"

definition list_part :: "bytes \<Rightarrow> bool" where
  "list_part p \<longleftrightarrow> p \<noteq> [] \<and> CHR '','' \<notin> set p"

lemma join_commas_Cons: "ps \<noteq> [] \<Longrightarrow> join_commas (p # ps) = p @ CHR '','' # join_commas ps"
  by (cases ps) auto

lemma join_no_comma:
  "\<forall>p\<in>set ps. list_part p \<Longrightarrow> ps \<noteq> [] \<Longrightarrow> CHR '','' \<notin> set (join_commas ps) \<Longrightarrow> \<exists>p. ps = [p]"
  by (cases ps rule: join_commas.cases) auto

lemma one_part:
  assumes "CHR '','' \<notin> set s"
  shows "s \<noteq> [] \<and> r = parts @ [s] \<longleftrightarrow>
    (\<exists>ps. r = parts @ ps \<and> ps \<noteq> [] \<and> (\<forall>p\<in>set ps. list_part p) \<and> join_commas ps = s)"
proof
  assume "s \<noteq> [] \<and> r = parts @ [s]"
  with assms show "\<exists>ps. r = parts @ ps \<and> ps \<noteq> [] \<and> (\<forall>p\<in>set ps. list_part p) \<and> join_commas ps = s"
    by (intro exI [of _ "[s]"]) (simp add: list_part_def)
next
  assume "\<exists>ps. r = parts @ ps \<and> ps \<noteq> [] \<and> (\<forall>p\<in>set ps. list_part p) \<and> join_commas ps = s"
  then obtain ps where ps: "r = parts @ ps" "ps \<noteq> []" "\<forall>p\<in>set ps. list_part p" "join_commas ps = s"
    by blast
  with assms join_no_comma [OF ps(3,2)] obtain p where "ps = [p]" by blast
  with ps show "s \<noteq> [] \<and> r = parts @ [s]" by (simp add: list_part_def)
qed

lemma join_at_comma:
  assumes "\<forall>p\<in>set ps. list_part p" "join_commas ps = u @ CHR '','' # r" "CHR '','' \<notin> set u"
  obtains qs where "ps = u # qs" "qs \<noteq> []" "join_commas qs = r"
proof (cases ps)
  case Nil
  with assms that show ?thesis by simp
next
  case (Cons p qs)
  show ?thesis
  proof (cases "qs = []")
    case True
    with Cons assms have "CHR '','' \<notin> set p" "p = u @ CHR '','' # r" by (auto simp: list_part_def)
    then show ?thesis by simp
  next
    case False
    with Cons assms have "p @ CHR '','' # join_commas qs = u @ CHR '','' # r" "CHR '','' \<notin> set p"
      by (auto simp: join_commas_Cons list_part_def)
    with assms(3) have "p = u" "join_commas qs = r"
      by (auto simp: append_eq_append_conv2 Cons_eq_append_conv append_eq_Cons_conv)
    with Cons False that show ?thesis by blast
  qed
qed

lemma split_from_iff:
  "split_from s start parts = Some r \<longleftrightarrow>
     (\<exists>ps. r = parts @ ps \<and> ps \<noteq> [] \<and> (\<forall>p\<in>set ps. list_part p) \<and> join_commas ps = drop start s)"
proof (induction s start parts rule: split_from.induct)
  case (1 s start parts)
  show ?case
  proof (cases "find_comma s start")
    case None
    let ?part = "drop start s"
    from None have no: "CHR '','' \<notin> set ?part" by (rule find_comma_None)
    have "split_from s start parts = Some r \<longleftrightarrow> ?part \<noteq> [] \<and> r = parts @ [?part]"
      using None by (subst split_from.simps) (auto simp: Let_def)
    also have "\<dots> \<longleftrightarrow> (\<exists>ps. r = parts @ ps \<and> ps \<noteq> [] \<and> (\<forall>p\<in>set ps. list_part p) \<and> join_commas ps = ?part)"
      by (rule one_part [OF no])
    finally show ?thesis .
  next
    case (Some c)
    let ?part = "take (c - start) (drop start s)"
    from find_comma_Some [OF Some]
    have c: "drop start s = ?part @ CHR '','' # drop (Suc c) s" "CHR '','' \<notin> set ?part" by auto
    have "split_from s start parts = Some r \<longleftrightarrow>
        ?part \<noteq> [] \<and> split_from s (Suc c) (parts @ [?part]) = Some r"
      using Some by (subst split_from.simps) (auto simp: Let_def)
    moreover have "?part \<noteq> [] \<Longrightarrow> split_from s (Suc c) (parts @ [?part]) = Some r \<longleftrightarrow>
        (\<exists>ps. r = (parts @ [?part]) @ ps \<and> ps \<noteq> [] \<and> (\<forall>p\<in>set ps. list_part p)
           \<and> join_commas ps = drop (Suc c) s)"
      using "1.IH" [OF refl refl, of c] Some by simp
    ultimately have step: "split_from s start parts = Some r \<longleftrightarrow>
        ?part \<noteq> [] \<and> (\<exists>ps. r = (parts @ [?part]) @ ps \<and> ps \<noteq> [] \<and> (\<forall>p\<in>set ps. list_part p)
           \<and> join_commas ps = drop (Suc c) s)" by blast
    show ?thesis
    proof
      assume "split_from s start parts = Some r"
      with step obtain ps where "?part \<noteq> []" "r = parts @ ?part # ps" "ps \<noteq> []"
          "\<forall>p\<in>set ps. list_part p" "join_commas ps = drop (Suc c) s" by auto
      with c(2) c(1) [symmetric] show "\<exists>ps. r = parts @ ps \<and> ps \<noteq> [] \<and> (\<forall>p\<in>set ps. list_part p) \<and> join_commas ps = drop start s"
        by (intro exI [of _ "?part # ps"]) (auto simp: join_commas_Cons list_part_def)
    next
      assume "\<exists>ps. r = parts @ ps \<and> ps \<noteq> [] \<and> (\<forall>p\<in>set ps. list_part p) \<and> join_commas ps = drop start s"
      then obtain ps where ps: "r = parts @ ps" "\<forall>p\<in>set ps. list_part p" "join_commas ps = drop start s"
        by blast
      from join_at_comma [OF ps(2) trans [OF ps(3) c(1)] c(2)] obtain qs
        where "ps = ?part # qs" "qs \<noteq> []" "join_commas qs = drop (Suc c) s" .
      with ps step show "split_from s start parts = Some r"
        unfolding list_part_def by (metis append.assoc append_Cons append_Nil list.set_intros)
    qed
  qed
qed

lemma split_list_round_trip:
  "split_list_on_commas s = Some ps \<longleftrightarrow> ps \<noteq> [] \<and> (\<forall>p\<in>set ps. list_part p) \<and> join_commas ps = s"
  by (auto simp: split_list_on_commas_def split_from_iff)

section \<open>The configuration\<close>

definition share_error :: flag_error where
  "share_error = FlagError ''--tensor-split needs a comma-separated list of non-negative numbers, e.g. 3,1''"

text \<open>The loop over the parts of \<open>--tensor-split\<close>.\<close>

fun parse_shares :: "bytes list \<Rightarrow> flt list \<Rightarrow> flag_error + flt list" where
  "parse_shares [] acc = Inr acc"
| "parse_shares (p # ps) acc =
     (case parse_float ''--tensor-split'' p of
        Inl _ \<Rightarrow> Inl share_error
      | Inr v \<Rightarrow> if \<not> flt_le (Fin 0) v then Inl share_error else parse_shares ps (acc @ [v]))"

definition to_config :: "engine_flags \<Rightarrow> flag_error + engine_config" where
  "to_config f =
     (if ef_ctx f \<le> 0 then Inl (FlagError ''--ctx needs a positive integer'')
      else if ef_threads f < 0 then Inl (FlagError ''--threads needs a non-negative integer'')
      else
        (let config = default_config
               \<lparr>cfg_n_ctx := word_of_int (ef_ctx f), cfg_n_gpu_layers := ef_ngl f,
                cfg_n_threads := ef_threads f\<rparr>
         in case (case ef_devices f of
                    None \<Rightarrow> Inr config
                  | Some names \<Rightarrow>
                      (case split_list_on_commas names of
                         None \<Rightarrow> Inl (FlagError
                           ''--devices needs a comma-separated list of device names (see --list-devices)'')
                       | Some ds \<Rightarrow> Inr (config\<lparr>cfg_devices := ds\<rparr>))) of
              Inl e \<Rightarrow> Inl e
            | Inr config' \<Rightarrow>
                (case ef_tensor_split f of
                   None \<Rightarrow> Inr config'
                 | Some t \<Rightarrow>
                     (case split_list_on_commas t of
                        None \<Rightarrow> Inl share_error
                      | Some parts \<Rightarrow>
                          (case parse_shares parts [] of
                             Inl e \<Rightarrow> Inl e
                           | Inr vs \<Rightarrow> Inr (config'\<lparr>cfg_tensor_split := vs\<rparr>))))))"

lemma parse_shares_Inr_iff:
  "parse_shares ps acc = Inr r \<longleftrightarrow>
     (\<exists>vs. r = acc @ vs \<and> list_all2 (\<lambda>p v. parse_float ''--tensor-split'' p = Inr v \<and> flt_le (Fin 0) v) ps vs)"
  by (induction ps arbitrary: acc) (auto simp: list_all2_Cons1 split: sum.splits)

text \<open>A number read from a flag that is not negative is a share: a value that a \<open>float\<close> holds.\<close>

lemma parse_float_share: "parse_float flag t = Inr v \<Longrightarrow> flt_le (Fin 0) v \<longleftrightarrow> share v"
proof -
  assume "parse_float flag t = Inr v"
  then obtain x where x: "v = f32 x" by (auto simp: parse_float_def split: if_splits flt.splits prod.splits)
  show ?thesis
  proof
    assume "flt_le (Fin 0) v"
    then show "share v"
      using round_flt_grid [of 24 "- 149" 128 x] unfolding x f32_def
      by (cases "round_flt 24 (- 149) 128 x") (auto simp: share_def flt_le_def less_le)
  qed (rule share_not_negative)
qed

lemma parse_shares_list_all2:
  "list_all2 (\<lambda>p v. parse_float flag p = Inr v \<and> flt_le (Fin 0) v) ps vs \<longleftrightarrow>
   list_all2 (\<lambda>p v. parse_float flag p = Inr v \<and> share v) ps vs"
  using parse_float_share by (intro list.rel_cong refl) blast

text \<open>The two lists of the configuration.\<close>

definition devices_of :: "engine_flags \<Rightarrow> bytes list \<Rightarrow> bool" where
  "devices_of f ds \<longleftrightarrow>
     (case ef_devices f of None \<Rightarrow> ds = [] | Some names \<Rightarrow> split_list_on_commas names = Some ds)"

definition shares_of :: "engine_flags \<Rightarrow> flt list \<Rightarrow> bool" where
  "shares_of f vs \<longleftrightarrow>
     (case ef_tensor_split f of
        None \<Rightarrow> vs = []
      | Some t \<Rightarrow> (\<exists>parts. split_list_on_commas t = Some parts \<and> parse_shares parts [] = Inr vs))"

lemma to_config_iff:
  "to_config f = Inr c \<longleftrightarrow>
     0 < ef_ctx f \<and> 0 \<le> ef_threads f
     \<and> c = \<lparr>cfg_model_path = [], cfg_n_ctx = word_of_int (ef_ctx f), cfg_n_gpu_layers = ef_ngl f,
            cfg_n_threads = ef_threads f, cfg_devices = cfg_devices c, cfg_tensor_split = cfg_tensor_split c\<rparr>
     \<and> devices_of f (cfg_devices c) \<and> shares_of f (cfg_tensor_split c)"
  (is "?l \<longleftrightarrow> ?r")
proof
  show "?l \<Longrightarrow> ?r"
    by (auto simp: to_config_def Let_def devices_of_def shares_of_def default_config_def
        split: if_splits option.splits sum.splits)
next
  assume r: ?r
  obtain path n ngl th ds vs where c: "c = \<lparr>cfg_model_path = path, cfg_n_ctx = n, cfg_n_gpu_layers = ngl,
      cfg_n_threads = th, cfg_devices = ds, cfg_tensor_split = vs\<rparr>"
    by (cases c) auto
  from r show ?l
    by (auto simp: c to_config_def Let_def devices_of_def shares_of_def default_config_def
        split: option.splits)
qed

text \<open>
  C37. The configuration is what the flags say. It is made exactly when the context size is positive,
  the thread count is not negative, the device names and the shares are comma-separated lists
  without holes, and every share is a number that is not negative. Then the context size survives
  the cast to 32 unsigned bits, and joining the names and the shares' texts with commas gives the
  arguments back.
\<close>

theorem config_is_what_the_flags_say:
  assumes "- 2147483648 \<le> ef_ctx f" and "ef_ctx f \<le> 2147483647"
  shows "to_config f = Inr c \<longleftrightarrow>
      0 < ef_ctx f \<and> 0 \<le> ef_threads f
      \<and> int (unat (cfg_n_ctx c)) = ef_ctx f \<and> cfg_n_gpu_layers c = ef_ngl f
      \<and> cfg_n_threads c = ef_threads f \<and> cfg_model_path c = []
      \<and> (case ef_devices f of
            None \<Rightarrow> cfg_devices c = []
          | Some names \<Rightarrow> cfg_devices c \<noteq> [] \<and> (\<forall>d\<in>set (cfg_devices c). list_part d)
                          \<and> join_commas (cfg_devices c) = names)
      \<and> (case ef_tensor_split f of
            None \<Rightarrow> cfg_tensor_split c = []
          | Some t \<Rightarrow>
              (\<exists>parts. parts \<noteq> [] \<and> (\<forall>p\<in>set parts. list_part p) \<and> join_commas parts = t
                 \<and> list_all2 (\<lambda>p v. parse_float ''--tensor-split'' p = Inr v \<and> share v)
                     parts (cfg_tensor_split c)))"
proof -
  have ctx: "int (unat (cfg_n_ctx c)) = ef_ctx f \<longleftrightarrow> cfg_n_ctx c = word_of_int (ef_ctx f)" if "0 < ef_ctx f"
  proof -
    have "uint (word_of_int (ef_ctx f) :: u32) = ef_ctx f"
      using that assms(2) by (simp add: uint_word_of_int)
    then show ?thesis by (metis uint_nat word_of_int_uint)
  qed
  have rec: "c = \<lparr>cfg_model_path = [], cfg_n_ctx = word_of_int (ef_ctx f), cfg_n_gpu_layers = ef_ngl f,
            cfg_n_threads = ef_threads f, cfg_devices = cfg_devices c, cfg_tensor_split = cfg_tensor_split c\<rparr>
      \<longleftrightarrow> cfg_n_ctx c = word_of_int (ef_ctx f) \<and> cfg_n_gpu_layers c = ef_ngl f
        \<and> cfg_n_threads c = ef_threads f \<and> cfg_model_path c = []"
    by (cases c) auto
  have devs: "devices_of f ds \<longleftrightarrow>
      (case ef_devices f of
         None \<Rightarrow> ds = []
       | Some names \<Rightarrow> ds \<noteq> [] \<and> (\<forall>d\<in>set ds. list_part d) \<and> join_commas ds = names)" for ds
    by (simp add: devices_of_def split_list_round_trip split: option.splits)
  have shares: "shares_of f vs \<longleftrightarrow>
      (case ef_tensor_split f of
         None \<Rightarrow> vs = []
       | Some t \<Rightarrow>
           (\<exists>parts. parts \<noteq> [] \<and> (\<forall>p\<in>set parts. list_part p) \<and> join_commas parts = t
              \<and> list_all2 (\<lambda>p v. parse_float ''--tensor-split'' p = Inr v \<and> share v) parts vs))" for vs
    by (simp add: shares_of_def split_list_round_trip parse_shares_Inr_iff parse_shares_list_all2 conj_assoc
        split: option.splits)
  show ?thesis unfolding to_config_iff rec using ctx devs shares by blast
qed

text \<open>
  The witness: \<open>--ctx 8192 --devices CUDA1,CUDA0 --tensor-split 0,0\<close>, whose shares are read but
  would be refused by the engine, which alone knows that they are all zero.
\<close>

definition sample_flags :: engine_flags where
  "sample_flags = default_flags
     \<lparr>ef_ctx := 8192, ef_devices := Some ''CUDA1,CUDA0'', ef_tensor_split := Some ''0,0''\<rparr>"

definition sample_config :: engine_config where
  "sample_config = default_config
     \<lparr>cfg_n_ctx := 8192, cfg_devices := [''CUDA1'', ''CUDA0''], cfg_tensor_split := [Fin 0, Fin 0]\<rparr>"

lemma parse_zero: "parse_float flag ''0'' = Inr (Fin 0)"
proof -
  have "strtod ''0'' = (Fin 0, 1, False)"
    by (simp add: strtod_def isspace_def unsigned_at_def number_at_def digit_in_def to_lower_def
        exponent_at_def digits_value_def power_of_def to_double_def Let_def)
  then show ?thesis by (simp add: parse_float_def isspace_def float_max_def)
qed

theorem config_is_what_the_flags_say_witness:
  "to_config sample_flags = Inr sample_config"
proof -
  have "- 2147483648 \<le> ef_ctx sample_flags" "ef_ctx sample_flags \<le> 2147483647"
    by (simp_all add: sample_flags_def)
  from config_is_what_the_flags_say [OF this, of sample_config] show ?thesis
    by (simp add: sample_flags_def sample_config_def default_flags_def default_config_def list_part_def)
      (intro exI [of _ "[''0'', ''0'']"], simp add: list_part_def parse_zero share_def)
qed

section \<open>The device table\<close>

text \<open>\<open>%-*s\<close> and \<open>%9s\<close>: padded with spaces on the right to a width that is an \<open>int\<close>, or on the left.\<close>

definition pad_right :: "nat \<Rightarrow> bytes \<Rightarrow> bytes" where
  "pad_right w s = c_str s @ replicate (nat \<bar>i32 w\<bar> - length (c_str s)) (CHR '' '')"

definition pad_left :: "nat \<Rightarrow> bytes \<Rightarrow> bytes" where
  "pad_left w s = replicate (w - length s) (CHR '' '') @ s"

definition format_gib :: "u64 \<Rightarrow> bytes" where
  "format_gib b = take 31 (fixed1 (as_gib b) @ '' GiB'')"

definition device_row :: "nat \<Rightarrow> nat \<Rightarrow> bytes \<Rightarrow> bytes \<Rightarrow> bytes \<Rightarrow> bytes \<Rightarrow> bytes \<Rightarrow> bytes" where
  "device_row w_name w_type name type free_mem total_mem desc =
     pad_right w_name name @ ''  '' @ pad_right w_type type @ ''  '' @ pad_left 9 free_mem @ ''  ''
     @ pad_left 9 total_mem @ ''  '' @ c_str desc @ newline"

definition print_device_table :: "'d ggml_api \<Rightarrow> bytes" where
  "print_device_table hw =
     (let devices = list_devices hw
      in if devices = [] then ''no devices (this build has no ggml backend registered)'' @ newline
         else
           (let w_name = fold (\<lambda>d w. max w (length (dev_name d))) devices 4;
                w_type = fold (\<lambda>d w. max w (length (dev_type d))) devices 4
            in device_row w_name w_type ''NAME'' ''TYPE'' ''FREE'' ''TOTAL'' ''DESCRIPTION''
               @ concat (map (\<lambda>d. device_row w_name w_type (dev_name d) (dev_type d)
                      (format_gib (dev_memory_free d)) (format_gib (dev_memory_total d))
                      (dev_description d)) devices)))"

end
