(* ===== verification/Messages.thy ===== *)
theory Messages
  imports Service Engine_Flags
begin

text \<open>
  What the daemon prints: the usage text (\<open>print_usage\<close> of src/main.cpp and \<open>kEngineFlagsHelp\<close> of
  src/engine_flags.h) and the log line of a request (src/service.cpp). The usage text is checked
  against the command line reader: it documents exactly the flags that are read, with the defaults
  that are used.
\<close>

section \<open>The usage text\<close>

definition line :: "bytes \<Rightarrow> bytes" where
  "line s = s @ newline"

definition engine_flags_help :: bytes where
  "engine_flags_help =
     line ''  --ctx N             context size (default 4096)''
     @ line ''  --ngl N             layers to offload to the GPU (default 99)''
     @ line ''  --threads N         threads for inference, 0 = auto: half the hardware threads''
     @ line ''                      to generate, all of them for prompts (default 0)''
     @ line ''  --devices NAMES     comma-separated devices to offload to (default: every discrete GPU)''
     @ line ''  --tensor-split S    comma-separated share per device, e.g. 3,1 (default: by free memory)''
     @ line ''  --list-devices      list the devices this build can offload to, and exit''"

definition print_usage :: "bytes \<Rightarrow> bytes" where
  "print_usage argv0 =
     line (''usage: '' @ c_str argv0 @ '' --model PATH [options]'')
     @ line []
     @ line ''  --model PATH        GGUF model to load (required)''
     @ line ''  --socket PATH       unix socket to listen on''
     @ line ''                      (default: $XDG_RUNTIME_DIR/llamad.sock, else /tmp/llamad-<uid>.sock)''
     @ engine_flags_help
     @ line ''  --help              show this message''
     @ line ''  --version           show the version, and exit''"

section \<open>What the usage text says\<close>

text \<open>The lines of a text whose last line is ended by a newline.\<close>

fun lines_from :: "bytes \<Rightarrow> bytes \<Rightarrow> bytes list" where
  "lines_from acc [] = []"
| "lines_from acc (c # cs) =
     (if c = CHR 0x0A then acc # lines_from [] cs else lines_from (acc @ [c]) cs)"

lemma lines_from_line: "CHR 0x0A \<notin> set s \<Longrightarrow> lines_from acc (line s @ rest) = (acc @ s) # lines_from [] rest"
  by (induction s arbitrary: acc) (auto simp: line_def newline_def)

text \<open>A line that documents a flag starts with two spaces and two dashes; the flag is its first word.\<close>

definition documented :: "bytes \<Rightarrow> bytes list" where
  "documented t =
     map (\<lambda>l. takeWhile (\<lambda>c. c \<noteq> CHR '' '') (drop 2 l)) (filter (\<lambda>l. take 4 l = ''  --'') (lines_from [] t))"

text \<open>A word the command line reader takes for a flag, whatever follows it.\<close>

definition reads_flag :: "bytes \<Rightarrow> bool" where
  "reads_flag w \<longleftrightarrow>
     (\<forall>argv0 rest st. read_arg \<lparr>argv = argv0 # w # rest, arg_at = 1\<rparr> st
        \<noteq> Inl (unknown_arg \<lparr>argv = argv0 # w # rest, arg_at = 1\<rparr>))"

lemma parse_int_error: "parse_int ty flag t = Inl e \<Longrightarrow> \<exists>m. e = FlagError (flag @ m)"
  by (auto simp: parse_int_def Let_def split: prod.splits from_chars_result.splits if_splits)

lemma number_arg_error: "number_arg ty a = Inl e \<Longrightarrow> \<exists>m. e = FlagError (current a @ m)"
  by (auto simp: number_arg_def value_arg_def Let_def dest: parse_int_error split: sum.splits if_splits)

lemma value_arg_error: "value_arg a = Inl e \<Longrightarrow> \<exists>m. e = FlagError (current a @ m)"
  by (auto simp: value_arg_def Let_def split: if_splits)

lemma dash_not_unknown:
  assumes "current a = CHR ''-'' # w"
  shows "value_arg a \<noteq> Inl (unknown_arg a)" "number_arg ty a \<noteq> Inl (unknown_arg a)"
  using value_arg_error [of a] number_arg_error [of ty a] assms by (auto simp: unknown_arg_def)

lemma sublist_first: "sublist x a \<Longrightarrow> sublist x (a @ b)"
  unfolding sublist_def by (metis append.assoc)

lemma sublist_later: "sublist x b \<Longrightarrow> sublist x (a @ b)"
  unfolding sublist_def by (metis append.assoc)

definition flag_names :: "bytes list" where
  "flag_names = [''--model'', ''--socket'', ''--ctx'', ''--ngl'', ''--threads'', ''--devices'',
     ''--tensor-split'', ''--list-devices'', ''--help'', ''--version'']"

lemma reads_flag_iff: "reads_flag w \<longleftrightarrow> w \<in> set flag_names \<or> w = ''-h''"
proof
  assume "reads_flag w"
  then have "read_arg \<lparr>argv = [[], w], arg_at = 1\<rparr> (default_options, default_flags)
      \<noteq> Inl (unknown_arg \<lparr>argv = [[], w], arg_at = 1\<rparr>)"
    unfolding reads_flag_def by blast
  then show "w \<in> set flag_names \<or> w = ''-h''"
    using read_arg_unknown [of "\<lparr>argv = [[], w], arg_at = 1\<rparr>" default_options default_flags]
    by (auto simp: flag_names_def)
next
  assume w: "w \<in> set flag_names \<or> w = ''-h''"
  have "read_arg a (opts, f) \<noteq> Inl (unknown_arg a)" if "current a = w" for a opts f
    using w that dash_not_unknown [of a "tl w"]
    by (auto simp: flag_names_def arg_simps split: sum.splits)
  then show "reads_flag w" unfolding reads_flag_def by auto
qed

lemma long_flags: "reads_flag w \<and> prefix ''--'' w \<longleftrightarrow> w \<in> set flag_names"
proof -
  have "\<forall>w\<in>set flag_names. prefix ''--'' w" by (simp add: flag_names_def)
  moreover have "\<not> prefix ''--'' ''-h''" by simp
  ultimately show ?thesis using reads_flag_iff by blast
qed

text \<open>
  C39. The usage text documents exactly the long flags the command line reader takes, and the defaults
  it names are those of a command line without flags.
\<close>

theorem usage_documents_the_flags:
  assumes "CHR 0x0A \<notin> set argv0"
  shows "set (documented (print_usage argv0)) = {w. reads_flag w \<and> prefix ''--'' w}
    \<and> (\<exists>opts f. parse_command_line [argv0] = Inr (opts, f)
         \<and> sublist (''context size (default '' @ dec_int (ef_ctx f) @ '')'') (print_usage argv0)
         \<and> sublist (''to the GPU (default '' @ dec_int (ef_ngl f) @ '')'') (print_usage argv0)
         \<and> sublist (''for prompts (default '' @ dec_int (ef_threads f) @ '')'') (print_usage argv0))"
proof -
  have first: "CHR 0x0A \<notin> set (''usage: '' @ c_str argv0 @ '' --model PATH [options]'')"
    using assms by (auto simp: c_str_def dest: set_takeWhileD)
  obtain rest where usage: "print_usage argv0 = line (''usage: '' @ c_str argv0 @ '' --model PATH [options]'') @ rest"
    and rest: "rest = line []
     @ line ''  --model PATH        GGUF model to load (required)''
     @ line ''  --socket PATH       unix socket to listen on''
     @ line ''                      (default: $XDG_RUNTIME_DIR/llamad.sock, else /tmp/llamad-<uid>.sock)''
     @ engine_flags_help
     @ line ''  --help              show this message''
     @ line ''  --version           show the version, and exit''"
    by (simp add: print_usage_def)
  have "documented (print_usage argv0) = documented rest"
    unfolding usage documented_def lines_from_line [OF first] by simp
  moreover have "documented rest = flag_names"
    unfolding rest engine_flags_help_def documented_def flag_names_def
    by (simp add: lines_from_line lines_from_line [where rest = "[]", simplified])
  moreover have "{w. reads_flag w \<and> prefix ''--'' w} = set flag_names"
    using long_flags by blast
  ultimately have names: "set (documented (print_usage argv0)) = {w. reads_flag w \<and> prefix ''--'' w}"
    by (simp only:)
  have inside: "sublist x (print_usage argv0)" if "sublist x engine_flags_help" for x
    unfolding print_usage_def
    by (rule sublist_later, rule sublist_later, rule sublist_later, rule sublist_later, rule sublist_later,
        rule sublist_first, rule that)
  have "sublist (''context size (default '' @ dec_int 4096 @ '')'') engine_flags_help"
    "sublist (''to the GPU (default '' @ dec_int 99 @ '')'') engine_flags_help"
    "sublist (''for prompts (default '' @ dec_int 0 @ '')'') engine_flags_help"
    by code_simp+
  then have "sublist (''context size (default '' @ dec_int (ef_ctx default_flags) @ '')'') (print_usage argv0)"
    "sublist (''to the GPU (default '' @ dec_int (ef_ngl default_flags) @ '')'') (print_usage argv0)"
    "sublist (''for prompts (default '' @ dec_int (ef_threads default_flags) @ '')'') (print_usage argv0)"
    by (simp_all only: default_flags_def engine_flags.simps inside)
  moreover have "parse_command_line [argv0] = Inr (default_options, default_flags)"
    by (simp add: parse_command_line_def new_args_def command_line.simps next_arg_def)
  ultimately show ?thesis
    using names by blast
qed

theorem usage_documents_the_flags_witness:
  "''--tensor-split'' \<in> set (documented (print_usage ''llamad''))
   \<and> ''--port'' \<notin> set (documented (print_usage ''llamad''))"
proof -
  have "CHR 0x0A \<notin> set ''llamad''" by simp
  from conjunct1 [OF usage_documents_the_flags [OF this]]
  have "set (documented (print_usage ''llamad'')) = set flag_names" using long_flags by blast
  then show ?thesis by (simp add: flag_names_def)
qed

section \<open>Log lines of requests\<close>

text \<open>\<open>snprintf\<close> into \<open>char tools[32]\<close> keeps 31 bytes.\<close>

definition tools_text :: "int \<Rightarrow> bytes" where
  "tools_text tool_calls = (if 0 \<le> tool_calls then take 31 ('' tool_calls='' @ dec_int tool_calls) else [])"

text \<open>\<open>%.0f\<close> of a duration.\<close>

definition fixed0 :: "flt \<Rightarrow> bytes" where
  "fixed0 v =
     (case v of
        Fin x \<Rightarrow> dec_int (round_even x)
      | PosInf \<Rightarrow> ''inf'' | NegInf \<Rightarrow> ''-inf'' | NaN \<Rightarrow> ''nan'')"

text \<open>\<open>v1::FinishReason_Name\<close> is the name of the constant in the protocol definition.\<close>

fun finish_reason_name :: "v1_finish_reason \<Rightarrow> bytes" where
  "finish_reason_name FINISH_REASON_UNSPECIFIED = ''FINISH_REASON_UNSPECIFIED''"
| "finish_reason_name FINISH_REASON_EOG = ''FINISH_REASON_EOG''"
| "finish_reason_name FINISH_REASON_LENGTH = ''FINISH_REASON_LENGTH''"
| "finish_reason_name FINISH_REASON_STOP = ''FINISH_REASON_STOP''"
| "finish_reason_name FINISH_REASON_CANCELLED = ''FINISH_REASON_CANCELLED''"
| "finish_reason_name FINISH_REASON_TOOL_CALLS = ''FINISH_REASON_TOOL_CALLS''"

definition log_request :: "bytes \<Rightarrow> generate_stats \<Rightarrow> bytes \<Rightarrow> flt \<Rightarrow> int \<Rightarrow> bytes" where
  "log_request rpc_name stats reason wall_ms tool_calls =
     line (''[llamad] '' @ rpc_name @ '' prompt_tokens='' @ dec_int (st_prompt_tokens stats)
       @ '' cached_prompt_tokens='' @ dec_int (st_cached_prompt_tokens stats)
       @ '' completion_tokens='' @ dec_int (st_completion_tokens stats)
       @ '' finish='' @ c_str reason @ tools_text tool_calls @ '' '' @ fixed0 wall_ms @ ''ms'')"

text \<open>
  The line at the end of \<open>stream_generation\<close>, for the result and the calls of its finish chunk; the
  line of a failed call (\<open>guarded\<close>); and those of the unary calls.
\<close>

definition stream_log :: "bytes \<Rightarrow> bool \<Rightarrow> generate_result \<Rightarrow> tool_call list \<Rightarrow> flt \<Rightarrow> bytes" where
  "stream_log rpc_name is_chat result calls wall_ms =
     (case finish_chunk (res_reason result) (res_stats result) calls of
        Finish_chunk f \<Rightarrow>
          log_request rpc_name (res_stats result) (finish_reason_name (v1_reason f)) wall_ms
            (if is_chat then i32 (length (v1_finish_calls f)) else - 1)
      | Text_chunk _ \<Rightarrow> [])"

fun guarded_log :: "bytes \<Rightarrow> exn + grpc_status \<Rightarrow> bytes" where
  "guarded_log rpc_name (Inr s) = []"
| "guarded_log rpc_name (Inl (EngineError m)) = line (''[llamad] '' @ rpc_name @ '' error: '' @ c_str m)"
| "guarded_log rpc_name (Inl (ChatFormatError m)) = line (''[llamad] '' @ rpc_name @ '' error: '' @ c_str m)"
| "guarded_log rpc_name (Inl (StdException m)) = line (''[llamad] '' @ rpc_name @ '' internal error: '' @ c_str m)"
| "guarded_log rpc_name (Inl OtherException) = line (''[llamad] '' @ rpc_name @ '' internal error: unknown exception'')"

definition tokenize_log :: "token list \<Rightarrow> bytes" where
  "tokenize_log tokens = line (''[llamad] Tokenize tokens='' @ dec_nat (length tokens))"

definition model_info_log :: bytes where
  "model_info_log = line ''[llamad] GetModelInfo''"

definition embed_log :: "nat \<Rightarrow> embed_result \<Rightarrow> flt \<Rightarrow> bytes" where
  "embed_log n_inputs result wall_ms =
     line (''[llamad] Embed inputs='' @ dec_int (i32 n_inputs) @ '' embedded='' @ dec_nat (length (er_embeddings result))
       @ '' input_tokens='' @ dec_int (er_input_tokens result)
       @ (if length (er_embeddings result) < n_inputs then '' cancelled'' else []) @ '' '' @ fixed0 wall_ms @ ''ms'')"

text \<open>The buffer holds the count whatever it is: nothing is cut off.\<close>

lemma length_dec_nat: "n < 10 ^ Suc k \<Longrightarrow> length (dec_nat n) \<le> Suc k"
proof (induction k arbitrary: n)
  case 0
  then show ?case by (subst dec_nat.simps) simp
next
  case (Suc k)
  then have "n div 10 < 10 ^ Suc k" by (simp add: less_mult_imp_div_less mult.commute)
  with Suc.IH show ?case by (subst dec_nat.simps) auto
qed

lemma tools_text_fits:
  assumes "0 \<le> n" "n < 2 ^ 31"
  shows "tools_text n = '' tool_calls='' @ dec_int n"
proof -
  have "length (dec_nat (nat n)) \<le> Suc 9"
    by (rule length_dec_nat) (use assms in simp)
  then show ?thesis using assms by (simp add: tools_text_def dec_int_def)
qed

end
