(* ===== verification/Daemon.thy ===== *)
theory Daemon
  imports Concurrency Messages
begin

text \<open>
  The daemon's entry point, src/main.cpp: the command line, the life of its Unix socket, loading the
  model and the chat template, and the end. The operating system is a state with the files and the
  process's umask, and a record of the answers it gives; the server that gRPC builds is a parameter.
  What \<open>main\<close> prints is part of every result. The theory shows that the socket is private, that
  nothing of anyone else's is removed, that a failure is reported, and that a daemon that serves is
  one whose engine is ready and answers whatever its request threads are asked.
\<close>

section \<open>The operating system\<close>

type_synonym mode = "32 word"

datatype entry = Socket_entry (listening: bool) (mode: mode) | Other_entry

record world =
  files :: "bytes \<Rightarrow> entry option"
  umask :: mode

text \<open>
  \<open>os_lstat_error\<close> and \<open>os_unlink_error\<close> give the text of an error other than a missing file;
  \<open>os_socket\<close>, \<open>os_fcntl\<close> and \<open>os_connect\<close> say whether the calls of the probe succeed, and
  \<open>os_sun_path_size\<close> is the capacity of \<open>sun_path\<close>.
\<close>

record os =
  os_runtime_dir :: "bytes option"
  os_uid :: nat
  os_sun_path_size :: nat
  os_lstat_error :: "bytes \<Rightarrow> bytes option"
  os_unlink_error :: "bytes \<Rightarrow> bytes option"
  os_socket :: bool
  os_fcntl :: bool
  os_connect :: "world \<Rightarrow> bytes \<Rightarrow> bool"
  os_sigmask :: bool

section \<open>The socket path\<close>

definition default_socket_path :: "os \<Rightarrow> bytes" where
  "default_socket_path os =
     (case os_runtime_dir os of
        Some dir \<Rightarrow> if dir \<noteq> [] then dir @ ''/llamad.sock''
                    else ''/tmp/llamad-'' @ dec_nat (os_uid os) @ ''.sock''
      | None \<Rightarrow> ''/tmp/llamad-'' @ dec_nat (os_uid os) @ ''.sock'')"

definition socket_is_live :: "os \<Rightarrow> world \<Rightarrow> bytes \<Rightarrow> bool" where
  "socket_is_live os w path =
     (if \<not> os_socket os then False
      else if \<not> os_fcntl os then False
      else os_connect os w (take (os_sun_path_size os - 1) (c_str path)))"

text \<open>Whether the path can be used, the files afterwards, and what is printed.\<close>

definition prepare_socket_path :: "os \<Rightarrow> world \<Rightarrow> bytes \<Rightarrow> bool \<times> world \<times> bytes" where
  "prepare_socket_path os w path =
     (if os_sun_path_size os \<le> length path
      then (False, w, ''error: socket path is '' @ dec_nat (length path) @ '' bytes, the maximum is ''
                      @ dec_nat (os_sun_path_size os - 1) @ '': '' @ c_str path @ newline)
      else
        (case os_lstat_error os (c_str path) of
           Some err \<Rightarrow> (False, w, ''error: cannot stat '' @ c_str path @ '': '' @ err @ newline)
         | None \<Rightarrow>
             (case files w (c_str path) of
                None \<Rightarrow> (True, w, [])
              | Some Other_entry \<Rightarrow>
                  (False, w, ''error: '' @ c_str path @ '' exists and is not a socket; refusing to remove it'' @ newline)
              | Some (Socket_entry _ _) \<Rightarrow>
                  if socket_is_live os w path
                  then (False, w, ''error: another llamad is already listening on '' @ c_str path @ newline)
                  else
                    (let removing = ''[llamad] removing stale socket '' @ c_str path @ newline in
                     case os_unlink_error os (c_str path) of
                       Some err \<Rightarrow> (False, w, removing @ ''error: cannot remove stale socket '' @ c_str path
                                              @ '': '' @ err @ newline)
                     | None \<Rightarrow> (True, w\<lparr>files := (files w)(c_str path := None)\<rparr>, removing)))))"

section \<open>The command line\<close>

text \<open>
  What the first part of \<open>main\<close> decides: an exit code with what goes to the standard output and to
  the standard error, or to run. The first argument is the program's name; without any argument
  at all it counts as empty here.
\<close>

datatype start = Leave int bytes bytes | Run engine_config options

definition program_name :: "bytes list \<Rightarrow> bytes" where
  "program_name args = (case args of [] \<Rightarrow> [] | argv0 # _ \<Rightarrow> argv0)"

definition usage_error :: "bytes list \<Rightarrow> flag_error \<Rightarrow> start" where
  "usage_error args e =
     (case e of FlagError m \<Rightarrow>
        Leave 2 [] (line (''error: '' @ c_str m) @ print_usage (program_name args)))"

definition read_command :: "'d ggml_api \<Rightarrow> bytes \<Rightarrow> bytes list \<Rightarrow> start" where
  "read_command hw version args =
     (case parse_command_line args of
        Inl e \<Rightarrow> usage_error args e
      | Inr (opts, f) \<Rightarrow>
          if opt_help opts then Leave 0 [] (print_usage (program_name args))
          else if opt_version opts then Leave 0 (line (''llamad '' @ version)) []
          else
            (case to_config f of
               Inl e \<Rightarrow> usage_error args e
             | Inr config \<Rightarrow>
                 if ef_list_devices f then Leave 0 (print_device_table hw) []
                 else if opt_model opts = [] then usage_error args (FlagError ''--model is required'')
                 else Run (config\<lparr>cfg_model_path := opt_model opts\<rparr>) opts))"

section \<open>Serving\<close>

text \<open>
  The chat format of the daemon and why there is none, from the model's template, with the lines
  printed about it.
\<close>

definition make_chat_format ::
  "('m, 'c, 'd, 'h, 'g) model_api \<Rightarrow> ('x, 't, 'f, 'q, 'r) chat_lib \<Rightarrow> ('m, 'c, 'h, 'g) engine
     \<Rightarrow> exn + ('t service \<times> bytes)" where
  "make_chat_format mapi lib eng =
     (let model = info mapi eng;
          none = \<lparr>svc_chat_format = None,
                  svc_chat_unavailable_reason = ''the model has no built-in chat template''\<rparr>
      in if mi_serves_embeddings model
         then Inr (none, line (''[llamad] embedding model (n_embd='' @ dec_nat (unat (mi_n_embd model))
                          @ ''): serves Embed; Generate and Chat are disabled''))
         else
           (case chat_template mapi eng of
              Inl e \<Rightarrow> Inl e
            | Inr tmpl \<Rightarrow>
                if tmpl_source tmpl = []
                then Inr (none, line (''[llamad] warning: '' @ c_str (svc_chat_unavailable_reason none)
                                 @ ''; Chat is disabled''))
                else
                  (case new_chat_format lib (tmpl_source tmpl) (tmpl_bos_token tmpl) (tmpl_eos_token tmpl) of
                     Inr cf \<Rightarrow> Inr (none\<lparr>svc_chat_format := Some cf\<rparr>, [])
                   | Inl e \<Rightarrow>
                       (case exn_what e of
                          Some m \<Rightarrow>
                            (let reason = ''the model'' @ [CHR 0x27]
                                            @ ''s chat template could not be parsed: '' @ m
                             in Inr (none\<lparr>svc_chat_unavailable_reason := reason\<rparr>,
                                  line (''[llamad] warning: '' @ c_str reason)
                                  @ line ''[llamad] warning: Chat is disabled; Generate still works''))
                        | None \<Rightarrow> Inl e))))"

text \<open>
  How the start ends: with an exit code and what was printed to the two outputs, with an exception
  that nothing catches, or serving, with the path of the socket, the engine and the service. The
  last component is what was printed to the standard error.
\<close>

datatype ('e, 't) startup =
    Exited int bytes bytes | Aborted exn bytes | Serving bytes 'e "'t service" bytes

text \<open>The mode that \<open>bind\<close> is given while the server is built: \<open>umask(0177)\<close>.\<close>

definition private_umask :: mode where
  "private_umask = 127"

text \<open>What the constructor of the engine prints when it does not throw.\<close>

definition devices_report :: "'d ggml_api \<Rightarrow> engine_config \<Rightarrow> bytes" where
  "devices_report hw config =
     (case select_offload_devices hw config (all_devices hw) of
        Inl _ \<Rightarrow> [] | Inr offload \<Rightarrow> report_offload_devices hw config offload)"

definition serve ::
  "'d ggml_api \<Rightarrow> ('m, 'c, 'd, 'h, 'g) model_api \<Rightarrow> ('x, 't, 'f, 'q, 'r) chat_lib \<Rightarrow> os
     \<Rightarrow> (bytes \<Rightarrow> world \<Rightarrow> world option) \<Rightarrow> engine_config \<Rightarrow> options \<Rightarrow> world
     \<Rightarrow> (('m, 'c, 'h, 'g) engine, 't) startup \<times> world" where
  "serve hw mapi lib os listen config opts w =
     (let socket_path = (case opt_socket opts of Some p \<Rightarrow> p | None \<Rightarrow> default_socket_path os)
      in if \<not> os_sigmask os then (Exited 1 [] (line ''error: cannot block SIGINT/SIGTERM''), w)
         else
           (case prepare_socket_path os w socket_path of
              (ok, w, prepared) \<Rightarrow>
                if \<not> ok then (Exited 1 [] prepared, w)
                else
                  (let loading = prepared @ line (''[llamad] loading '' @ c_str (cfg_model_path config) @ '' ...'')
                   in case new_engine hw mapi config of
                     Inl e \<Rightarrow>
                       (case exn_what e of
                          None \<Rightarrow> Aborted e loading
                        | Some m \<Rightarrow> Exited 1 [] (loading @ line (''error: '' @ c_str m)), w)
                   | Inr eng \<Rightarrow>
                       (case make_chat_format mapi lib eng of
                          Inl e \<Rightarrow> (Aborted e (loading @ devices_report hw config), w)
                        | Inr (svc, about_chat) \<Rightarrow>
                            (let loaded = loading @ devices_report hw config @ about_chat;
                                 model = info mapi eng;
                                 saved_umask = umask w; w = w\<lparr>umask := private_umask\<rparr> in
                             case listen socket_path w of
                               None \<Rightarrow>
                                 (Exited 1 [] (loaded @ line (''error: failed to listen on unix:'' @ c_str socket_path)),
                                  w\<lparr>umask := saved_umask\<rparr>)
                             | Some w \<Rightarrow>
                                 (Serving socket_path eng svc
                                    (loaded
                                     @ line (''[llamad] model: '' @ c_str (mi_description model)
                                         @ '' (n_ctx='' @ dec_nat (unat (mi_n_ctx model)) @ '')'')
                                     @ line (''[llamad] listening on unix:'' @ c_str socket_path)),
                                  w\<lparr>umask := saved_umask\<rparr>))))))"

definition start_daemon ::
  "'d ggml_api \<Rightarrow> ('m, 'c, 'd, 'h, 'g) model_api \<Rightarrow> ('x, 't, 'f, 'q, 'r) chat_lib \<Rightarrow> os
     \<Rightarrow> (bytes \<Rightarrow> world \<Rightarrow> world option) \<Rightarrow> bytes \<Rightarrow> bytes list \<Rightarrow> world
     \<Rightarrow> (('m, 'c, 'h, 'g) engine, 't) startup \<times> world" where
  "start_daemon hw mapi lib os listen version args w =
     (case read_command hw version args of
        Leave exit_code out err \<Rightarrow> (Exited exit_code out err, w)
      | Run config opts \<Rightarrow> serve hw mapi lib os listen config opts w)"

text \<open>
  The end, once a signal has arrived and the server has stopped: the exit code, the files, and what
  is printed. \<open>signal\<close> is the signal's name, as \<open>strsignal\<close> gives it.
\<close>

definition stop_daemon :: "os \<Rightarrow> bytes \<Rightarrow> bytes \<Rightarrow> world \<Rightarrow> int \<times> world \<times> bytes" where
  "stop_daemon os signal socket_path w =
     (0,
      (case (os_lstat_error os (c_str socket_path), files w (c_str socket_path)) of
        (None, Some (Socket_entry _ _)) \<Rightarrow>
          (if os_unlink_error os (c_str socket_path) = None
           then w\<lparr>files := (files w)(c_str socket_path := None)\<rparr> else w)
      | _ \<Rightarrow> w),
      line (''[llamad] caught '' @ signal @ '', shutting down'') @ line ''[llamad] stopped'')"

section \<open>What is printed\<close>

definition says :: "bytes \<Rightarrow> bytes \<Rightarrow> bool" where
  "says t m \<longleftrightarrow> sublist m t"

lemma says_later: "says t m \<Longrightarrow> says (a @ t) m"
  by (simp add: says_def sublist_later)

lemma says_first: "says t m \<Longrightarrow> says (t @ a) m"
  by (simp add: says_def sublist_first)

lemma says_Cons: "says (c # t) m \<longleftrightarrow> prefix m (c # t) \<or> says t m"
  by (simp add: says_def sublist_Cons_right)

lemmas says_simps = says_Cons says_first says_later

text \<open>A path that is refused is refused with an error as the last line.\<close>

definition last_is_error :: "bytes \<Rightarrow> bool" where
  "last_is_error out \<longleftrightarrow> (\<exists>lines m. out = lines @ line (''error: '' @ m))"

lemma last_is_errorI:
  assumes "prefix ''error: '' r" "suffix newline r"
  shows "last_is_error (lines @ r)"
proof -
  obtain m where m: "r = ''error: '' @ m" using assms(1) by (auto simp: prefix_def)
  have "m \<noteq> []" using assms(2) m by (auto simp: newline_def suffix_def append_eq_Cons_conv Cons_eq_append_conv)
  moreover have "last m = CHR 0x0A"
    using assms(2) m calculation by (auto simp: newline_def suffix_def) (metis last_ConsR last_append last_snoc list.distinct(1))
  ultimately have "m = butlast m @ newline" by (metis append_butlast_last_id newline_def)
  then show ?thesis unfolding last_is_error_def line_def m by (metis append.assoc)
qed

lemma last_is_error_alone: "prefix ''error: '' r \<Longrightarrow> suffix newline r \<Longrightarrow> last_is_error r"
  using last_is_errorI [of r "[]"] by simp

lemma prepare_reports:
  assumes "prepare_socket_path os w path = (False, w', out)"
  shows "last_is_error out"
proof -
  let ?removing = "''[llamad] removing stale socket '' @ c_str path @ newline"
  have "prefix ''error: '' out \<and> suffix newline out
      \<or> (\<exists>err. out = ?removing @ ''error: cannot remove stale socket '' @ c_str path @ '': '' @ err @ newline)"
    using assms
    by (auto simp: prepare_socket_path_def Let_def split: if_splits option.splits entry.splits
        intro!: suffix_appendI suffix_ConsI)
  then show ?thesis
  proof (elim disjE exE)
    assume "prefix ''error: '' out \<and> suffix newline out"
    then show ?thesis by (intro last_is_error_alone) simp_all
  next
    fix err
    assume "out = ?removing @ ''error: cannot remove stale socket '' @ c_str path @ '': '' @ err @ newline"
    moreover have "last_is_error (?removing @ ''error: cannot remove stale socket '' @ c_str path @ '': '' @ err @ newline)"
      unfolding append_assoc [of _ "c_str path" newline, symmetric]
      by (subst (2) append_assoc [symmetric], rule last_is_errorI) (auto intro!: suffix_appendI suffix_ConsI)
    ultimately show ?thesis by simp
  qed
qed

lemma chat_refusal_is_announced:
  assumes "make_chat_format mapi lib eng = Inr (svc, text)" "svc_chat_format svc = None"
  shows "says text ''disabled''"
  using assms
  by (auto simp: make_chat_format_def Let_def line_def says_simps split: if_splits sum.splits option.splits)

section \<open>Nothing of anyone else's is removed\<close>

text \<open>
  The probe works: its calls succeed, and a connection to a listening socket is accepted.
\<close>

definition probe_works :: "os \<Rightarrow> bool" where
  "probe_works os \<longleftrightarrow> os_socket os \<and> os_fcntl os
     \<and> (\<forall>w path m. files w path = Some (Socket_entry True m) \<longrightarrow> os_connect os w path)"

lemma c_str_length: "length (c_str s) \<le> length s"
  by (simp add: c_str_def length_takeWhile_le)

text \<open>The path held nothing, or a socket nobody listens on.\<close>

definition free_path :: "world \<Rightarrow> bytes \<Rightarrow> bool" where
  "free_path w p \<longleftrightarrow> files w p = None \<or> (\<exists>m. files w p = Some (Socket_entry False m))"

text \<open>At most a stale socket at the path was removed.\<close>

definition only_stale_removed :: "world \<Rightarrow> bytes \<Rightarrow> world \<Rightarrow> bool" where
  "only_stale_removed w p w' \<longleftrightarrow> umask w' = umask w
     \<and> (files w' = files w \<or> free_path w p \<and> files w' = (files w)(p := None))"

lemma prepare_removes:
  assumes "probe_works os" and "prepare_socket_path os w path = (ok, w', out)"
  shows "only_stale_removed w (c_str path) w'
    \<and> (ok \<longrightarrow> length path < os_sun_path_size os \<and> free_path w (c_str path)
          \<and> files w' = (files w)(c_str path := None))"
proof -
  have live: "socket_is_live os w path"
    if "length path < os_sun_path_size os" "files w (c_str path) = Some (Socket_entry True m)" for m
  proof -
    have "take (os_sun_path_size os - 1) (c_str path) = c_str path"
      using that(1) c_str_length [of path] by simp
    then show ?thesis using that(2) assms(1) unfolding probe_works_def socket_is_live_def by metis
  qed
  have stale: "\<not> b"
    if "length path < os_sun_path_size os" "files w (c_str path) = Some (Socket_entry b m)"
      "\<not> socket_is_live os w path" for b m
    using live that by (cases b) auto
  from assms(2) show ?thesis
    using stale
    by (auto simp: prepare_socket_path_def Let_def only_stale_removed_def free_path_def fun_upd_idem
        split: if_splits option.splits entry.splits)
qed

text \<open>
  C16. Preparing the socket path removes at most a stale socket at that very path: never a file of
  another kind, never a socket that someone listens on, and nothing anywhere else. When the path is
  declared usable it fits the address and nothing is there. Stopping removes at most a socket at the
  path, and nothing else.
\<close>

theorem only_a_stale_socket_is_removed:
  assumes "probe_works os" and "prepare_socket_path os w path = (ok, w', out)"
  shows "umask w' = umask w
    \<and> (\<forall>p e. files w p = Some e \<and> (p \<noteq> c_str path \<or> e = Other_entry \<or> listening e) \<longrightarrow> files w' p = Some e)
    \<and> (\<forall>p. files w p = None \<longrightarrow> files w' p = None)
    \<and> (ok \<longrightarrow> length path < os_sun_path_size os \<and> files w' (c_str path) = None)
    \<and> (\<forall>v signal p e. files v p = Some e \<and> (p \<noteq> c_str path \<or> e = Other_entry)
         \<longrightarrow> files (fst (snd (stop_daemon os signal path v))) p = Some e)"
proof -
  have "\<forall>v signal p e. files v p = Some e \<and> (p \<noteq> c_str path \<or> e = Other_entry)
         \<longrightarrow> files (fst (snd (stop_daemon os signal path v))) p = Some e"
    by (auto simp: stop_daemon_def split: option.splits entry.splits)
  with prepare_removes [OF assms] show ?thesis
    by (auto simp: only_stale_removed_def free_path_def)
qed

definition sample_os :: os where
  "sample_os =
     \<lparr>os_runtime_dir = Some ''/run'', os_uid = 1000, os_sun_path_size = 108,
      os_lstat_error = (\<lambda>p. None), os_unlink_error = (\<lambda>p. None), os_socket = True, os_fcntl = True,
      os_connect = (\<lambda>w p. case files w p of Some (Socket_entry b m) \<Rightarrow> b | _ \<Rightarrow> False), os_sigmask = True\<rparr>"

definition sample_world :: world where
  "sample_world =
     \<lparr>files = [''/run/llamad.sock'' \<mapsto> Socket_entry False 384, ''/run/other.sock'' \<mapsto> Socket_entry True 384],
      umask = 18\<rparr>"

lemma sample_probe: "probe_works sample_os"
  by (simp add: probe_works_def sample_os_def)

theorem only_a_stale_socket_is_removed_witness:
  "\<exists>w' out. prepare_socket_path sample_os sample_world ''/run/llamad.sock'' = (True, w', out)
    \<and> files w' ''/run/llamad.sock'' = None \<and> files w' ''/run/other.sock'' = Some (Socket_entry True 384)"
proof -
  have path: "c_str ''/run/llamad.sock'' = ''/run/llamad.sock''" by (simp add: c_str_def)
  have "fst (prepare_socket_path sample_os sample_world ''/run/llamad.sock'')"
    by (simp add: prepare_socket_path_def sample_os_def sample_world_def path socket_is_live_def Let_def)
  then obtain w' out where
    run: "prepare_socket_path sample_os sample_world ''/run/llamad.sock'' = (True, w', out)"
    by (metis prod.collapse)
  have "files sample_world ''/run/other.sock'' = Some (Socket_entry True 384)"
    by (simp add: sample_world_def)
  with only_a_stale_socket_is_removed [OF sample_probe run] run show ?thesis
    unfolding path by (intro exI [of _ w'] exI [of _ out]) auto
qed

text \<open>
  The probe has to work: where the probing socket cannot be made, a socket that is being listened on
  counts as stale and is removed.
\<close>

lemma live_socket_lost_without_probe:
  assumes "\<not> os_socket os \<or> \<not> os_fcntl os" and "length path < os_sun_path_size os"
    and "os_lstat_error os (c_str path) = None" and "os_unlink_error os (c_str path) = None"
    and "files w (c_str path) = Some (Socket_entry True m)"
  shows "\<exists>out. prepare_socket_path os w path = (True, w\<lparr>files := (files w)(c_str path := None)\<rparr>, out)"
  using assms by (auto simp: prepare_socket_path_def socket_is_live_def Let_def)

text \<open>The end asks for no more than a socket at the path, whoever made it and listens on it.\<close>

lemma any_socket_is_removed:
  assumes "files w (c_str path) = Some (Socket_entry b m)" and "os_lstat_error os (c_str path) = None"
    and "os_unlink_error os (c_str path) = None"
  shows "files (fst (snd (stop_daemon os signal path w))) = (files w)(c_str path := None)"
  using assms by (simp add: stop_daemon_def)

section \<open>From the command line to the requests\<close>

text \<open>
  A server that gRPC managed to start listens on the path and touched no other file. Its mode is
  known for the umask that \<open>main\<close> sets around the start: 0666 without the bits of 0177, as the comment
  there has it. Nothing is assumed of other umasks.
\<close>

definition listen_laws :: "(bytes \<Rightarrow> world \<Rightarrow> world option) \<Rightarrow> bool" where
  "listen_laws listen \<longleftrightarrow>
     (\<forall>p w w'. listen p w = Some w' \<longrightarrow> umask w = private_umask \<longrightarrow>
        files w' = (files w)(c_str p \<mapsto> Socket_entry True 384))"

text \<open>Every model's operations keep the laws of the memory.\<close>

definition model_laws :: "('m, 'c, 'd, 'h, 'g) model_api \<Rightarrow> ('c \<Rightarrow> token list) \<Rightarrow> bool" where
  "model_laws mapi seq \<longleftrightarrow> fresh_laws mapi seq
     \<and> (\<forall>m api. model_vocab mapi m = Some api \<longrightarrow> memory_laws api seq)
     \<and> (\<forall>c. get_n_ctx_seq mapi c \<le> 2 ^ 31)"

lemma loaded_engine:
  assumes "new_engine hw mapi config = Inr eng" "model_laws mapi seq"
  shows "engine_inv (eng_api eng) seq (eng_impl eng) \<and> 0 < n_batch (eng_impl eng)
    \<and> n_ctx_seq (eng_impl eng) \<le> 2 ^ 31"
proof -
  obtain m api where made: "model_vocab mapi m = Some api" "open_engine mapi config m api = Inr eng"
    using new_engine_open [OF assms(1)] by blast
  then have laws: "memory_laws api seq" "fresh_laws mapi seq" using assms(2) by (auto simp: model_laws_def)
  from open_engine_ready [OF made(2) laws] laws(1) assms(2) show ?thesis
    unfolding engine_inv_def kv_inv_def model_laws_def by auto
qed

text \<open>What the command line asks for, read off what was parsed, before anything else is done.\<close>

definition command_error :: "bytes list \<Rightarrow> bytes option" where
  "command_error args =
     (case parse_command_line args of
        Inl (FlagError m) \<Rightarrow> Some m
      | Inr (opts, f) \<Rightarrow>
          if opt_help opts \<or> opt_version opts then None
          else
            (case to_config f of
               Inl (FlagError m) \<Rightarrow> Some m
             | Inr config \<Rightarrow>
                 if \<not> ef_list_devices f \<and> opt_model opts = [] then Some ''--model is required'' else None))"

text \<open>A command line that only asks a question, with what is printed on the two outputs.\<close>

definition command_answer :: "'d ggml_api \<Rightarrow> bytes \<Rightarrow> bytes list \<Rightarrow> (bytes \<times> bytes) option" where
  "command_answer hw version args =
     (case parse_command_line args of
        Inl e \<Rightarrow> None
      | Inr (opts, f) \<Rightarrow>
          if opt_help opts then Some ([], print_usage (program_name args))
          else if opt_version opts then Some (line (''llamad '' @ version), [])
          else if ef_list_devices f then Some (print_device_table hw, []) else None)"

text \<open>The settings of a daemon that is to run, and the path of its socket.\<close>

definition command_settings :: "os \<Rightarrow> bytes list \<Rightarrow> (engine_config \<times> bytes) option" where
  "command_settings os args =
     (case parse_command_line args of
        Inl e \<Rightarrow> None
      | Inr (opts, f) \<Rightarrow>
          (case to_config f of
             Inl e \<Rightarrow> None
           | Inr config \<Rightarrow>
               Some (config\<lparr>cfg_model_path := opt_model opts\<rparr>,
                     case opt_socket opts of Some p \<Rightarrow> p | None \<Rightarrow> default_socket_path os)))"

lemma read_command_cases:
  obtains
    (wrong) m where "command_error args = Some m"
      "read_command hw version args = Leave 2 [] (line (''error: '' @ c_str m) @ print_usage (program_name args))"
  | (asked) out err where "command_error args = None" "command_answer hw version args = Some (out, err)"
      "read_command hw version args = Leave 0 out err"
  | (run) config opts where "command_error args = None" "command_answer hw version args = None"
      "read_command hw version args = Run config opts"
      "command_settings os args
        = Some (config, case opt_socket opts of Some p \<Rightarrow> p | None \<Rightarrow> default_socket_path os)"
proof (cases "parse_command_line args")
  case (Inl e)
  then show thesis
    by (cases e) (auto intro: wrong simp: command_error_def read_command_def usage_error_def)
next
  case (Inr x)
  obtain opts f where x: "x = (opts, f)" by (cases x)
  note defs = command_error_def command_answer_def command_settings_def read_command_def usage_error_def Inr x
  show thesis
  proof (cases "opt_help opts \<or> opt_version opts")
    case True
    show thesis
    proof (cases "opt_help opts")
      case True
      then show thesis by (intro asked [of "[]" "print_usage (program_name args)"]) (simp_all add: defs)
    next
      case False
      with True show thesis by (intro asked [of "line (''llamad '' @ version)" "[]"]) (simp_all add: defs)
    qed
  next
    case False
    show thesis
    proof (cases "to_config f")
      case (Inl e)
      with False show thesis by (cases e) (auto intro: wrong simp: defs)
    next
      case config: (Inr config)
      consider "ef_list_devices f" | "\<not> ef_list_devices f" "opt_model opts = []"
        | "\<not> ef_list_devices f" "opt_model opts \<noteq> []" by blast
      then show thesis
      proof cases
        case 1
        with False config show thesis by (intro asked) (auto simp: defs)
      next
        case 2
        with False config show thesis by (intro wrong) (auto simp: defs)
      next
        case 3
        with False config show thesis by (intro run) (auto simp: defs)
      qed
    qed
  qed
qed

text \<open>
  Why a daemon that was to run does not serve, and how that ends: with exit code 1 and, as the last
  line on the standard error, the error; or with an exception that nothing catches, where the engine
  threw something that is no standard exception, or reading the chat template threw.
\<close>

definition startup_failure ::
  "'d ggml_api \<Rightarrow> ('m, 'c, 'd, 'h, 'g) model_api \<Rightarrow> ('x, 't, 'f, 'q, 'r) chat_lib \<Rightarrow> os
     \<Rightarrow> (bytes \<Rightarrow> world \<Rightarrow> world option) \<Rightarrow> engine_config \<Rightarrow> bytes \<Rightarrow> world
     \<Rightarrow> (('m, 'c, 'h, 'g) engine, 't) startup \<Rightarrow> bool" where
  "startup_failure hw mapi lib os listen config path w r \<longleftrightarrow>
     (\<not> os_sigmask os \<and> r = Exited 1 [] (line ''error: cannot block SIGINT/SIGTERM''))
     \<or> (\<exists>w1 lines m. prepare_socket_path os w path = (False, w1, lines @ line (''error: '' @ m))
          \<and> r = Exited 1 [] (lines @ line (''error: '' @ m)))
     \<or> (\<exists>e lines. new_engine hw mapi config = Inl e
          \<and> r = (case exn_what e of
                    Some m \<Rightarrow> Exited 1 [] (lines @ line (''error: '' @ c_str m))
                  | None \<Rightarrow> Aborted e lines))
     \<or> (\<exists>eng e lines. new_engine hw mapi config = Inr eng \<and> make_chat_format mapi lib eng = Inl e
          \<and> r = Aborted e lines)
     \<or> (\<exists>eng w1 lines. new_engine hw mapi config = Inr eng \<and> umask w1 = private_umask \<and> listen path w1 = None
          \<and> r = Exited 1 [] (lines @ line (''error: failed to listen on unix:'' @ c_str path)))"

lemma startup_failure_not_serving: "\<not> startup_failure hw mapi lib os listen config path w (Serving p eng svc err)"
  by (auto simp: startup_failure_def split: option.splits)

lemma serve_cases:
  assumes "serve hw mapi lib os listen config opts w = (r, w')"
  obtains
    (failed) path w1 ok out where
      "path = (case opt_socket opts of Some p \<Rightarrow> p | None \<Rightarrow> default_socket_path os)"
      "startup_failure hw mapi lib os listen config path w r"
      "prepare_socket_path os w path = (ok, w1, out)" "w' = w \<or> w' = w1"
  | (serving) path w1 out eng svc about_chat err w2 where
      "path = (case opt_socket opts of Some p \<Rightarrow> p | None \<Rightarrow> default_socket_path os)"
      "prepare_socket_path os w path = (True, w1, out)" "new_engine hw mapi config = Inr eng"
      "make_chat_format mapi lib eng = Inr (svc, about_chat)" "listen path (w1\<lparr>umask := private_umask\<rparr>) = Some w2"
      "r = Serving path eng svc err" "\<forall>m. says about_chat m \<longrightarrow> says err m" "w' = w2\<lparr>umask := umask w1\<rparr>"
proof -
  define path where "path = (case opt_socket opts of Some p \<Rightarrow> p | None \<Rightarrow> default_socket_path os)"
  obtain ok w1 out where prep: "prepare_socket_path os w path = (ok, w1, out)" by (metis prod.exhaust)
  note run = assms [unfolded serve_def path_def [symmetric] Let_def prep prod.case]
  note fails = failed [OF path_def _ prep]
  show thesis
  proof (cases "os_sigmask os")
    case False
    with run show thesis by (intro fails) (auto simp: startup_failure_def)
  next
    case mask: True
    show thesis
    proof (cases ok)
      case False
      with prepare_reports [of os w path w1 out] prep obtain lines m where
        out: "out = lines @ line (''error: '' @ m)" by (auto simp: last_is_error_def)
      have "r = Exited 1 [] out" "w' = w1" using run mask False by auto
      with prep False out show thesis
        by (intro fails) (auto simp: startup_failure_def simp del: append.simps)
    next
      case ok: True
      show thesis
      proof (cases "new_engine hw mapi config")
        case (Inl e)
        have "\<exists>lines. r = (case exn_what e of Some m \<Rightarrow> Exited 1 [] (lines @ line (''error: '' @ c_str m))
            | None \<Rightarrow> Aborted e lines)" "w' = w1"
          using run mask ok Inl by (auto simp del: append.simps append_assoc split: option.splits)
        with Inl show thesis by (intro fails) (auto simp: startup_failure_def simp del: append.simps)
      next
        case eng: (Inr eng)
        show thesis
        proof (cases "make_chat_format mapi lib eng")
          case (Inl e)
          with run mask ok eng have "\<exists>lines. r = Aborted e lines" "w' = w1" by auto
          with Inl eng show thesis by (intro fails) (auto simp: startup_failure_def simp del: append.simps)
        next
          case (Inr x)
          then obtain svc about_chat where svc: "make_chat_format mapi lib eng = Inr (svc, about_chat)"
            by (cases x) simp
          show thesis
          proof (cases "listen path (w1\<lparr>umask := private_umask\<rparr>)")
            case None
            have "\<exists>lines. r = Exited 1 [] (lines @ line (''error: failed to listen on unix:'' @ c_str path))" "w' = w1"
              using run mask ok eng svc None by (auto simp del: append.simps append_assoc)
            moreover have "umask (w1\<lparr>umask := private_umask\<rparr>) = private_umask" by simp
            ultimately have "startup_failure hw mapi lib os listen config path w r"
              using eng None unfolding startup_failure_def by blast
            with \<open>w' = w1\<close> show thesis by (intro fails) auto
          next
            case (Some w2)
            with run mask ok eng svc have "w' = w2\<lparr>umask := umask w1\<rparr>" by simp
            moreover from Some run mask ok eng svc have "\<exists>lines tail. r = Serving path eng svc (lines @ about_chat @ tail)"
              by - (rule exI [of _ "out @ line (''[llamad] loading '' @ c_str (cfg_model_path config) @ '' ...'')
                    @ devices_report hw config"], auto)
            then obtain lines tail where "r = Serving path eng svc (lines @ about_chat @ tail)" by blast
            moreover have "\<forall>m. says about_chat m \<longrightarrow> says (lines @ about_chat @ tail) m"
              by (auto intro: says_first says_later)
            ultimately show thesis
              using serving [OF path_def _ eng svc Some] prep ok by simp
          qed
        qed
      qed
    qed
  qed
qed

lemma embedding_has_no_chat:
  "make_chat_format mapi lib eng = Inr (svc, text) \<Longrightarrow> embeddings (eng_impl eng) \<Longrightarrow> svc_chat_format svc = None"
  by (auto simp: make_chat_format_def info_def Let_def)

text \<open>An engine that is loaded does what the theory of its request threads asks for.\<close>

definition ready :: "('c \<Rightarrow> token list) \<Rightarrow> ('m, 'c, 'h, 'g) engine \<Rightarrow> bool" where
  "ready seq eng \<longleftrightarrow> engine_inv (eng_api eng) seq (eng_impl eng) \<and> 0 < n_batch (eng_impl eng)
     \<and> n_ctx_seq (eng_impl eng) \<le> 2 ^ 31"

lemma ready_threads:
  assumes "ready seq eng" "threads (eng_api eng) lib svc qs (eng_impl eng) S" "\<not> embeddings (eng_impl eng)"
  shows "cached (shared S) = seq (ctx (shared S))"
  by (rule threads_in_step [OF _ _ _ assms(3,2)]) (use assms(1) in \<open>simp_all add: ready_def engine_inv_def kv_inv_def\<close>)

lemma ready_answers:
  assumes "ready seq eng" "reachable (eng_api eng) lib svc (eng_impl eng) st"
  shows "(\<not> embeddings (eng_impl eng) \<longrightarrow> cached st = seq (ctx st)) \<and> answers (eng_api eng) lib svc st"
proof -
  have inv: "same_shape (eng_impl eng) st" "\<not> embeddings (eng_impl eng) \<longrightarrow> engine_inv (eng_api eng) seq st"
    using reachable_inv [OF assms(2)] assms(1) by (auto simp: ready_def)
  then have "0 < n_batch st" using assms(1) by (simp add: same_shape_def ready_def)
  from batch_answers [OF this] inv(2) show ?thesis unfolding engine_inv_def kv_inv_def by blast
qed

text \<open>The three ways a start goes.\<close>

lemma startup_failure_shape:
  assumes "startup_failure hw mapi lib os listen config path w (Exited c out err)"
  shows "c = 1 \<and> out = [] \<and> last_is_error err"
proof -
  have "last_is_error (lines @ line (''error: '' @ m))" for lines m
    by (auto simp: last_is_error_def)
  from this [of "[]" "''cannot block SIGINT/SIGTERM''"] this this [of _ "''failed to listen on unix:'' @ c_str path"]
  show ?thesis
    using assms by (auto simp: startup_failure_def split: option.splits)
qed

lemma run_starts:
  assumes "probe_works os" "serve hw mapi lib os listen config opts w = (r, w')"
    and "path = (case opt_socket opts of Some p \<Rightarrow> p | None \<Rightarrow> default_socket_path os)"
  shows "case r of
      Serving socket_path eng svc err \<Rightarrow> socket_path = path \<and> new_engine hw mapi config = Inr eng
    | _ \<Rightarrow> startup_failure hw mapi lib os listen config path w r \<and> only_stale_removed w (c_str path) w'"
  using assms(2)
proof (cases rule: serve_cases)
  case (failed path' w1 ok out)
  have "path' = path" using failed(1) assms(3) by simp
  with failed prepare_removes [OF assms(1) failed(3)] show ?thesis
    by (auto simp: only_stale_removed_def startup_failure_not_serving split: startup.splits)
qed (use assms(3) in simp)

lemma start_starts:
  assumes "probe_works os" "start_daemon hw mapi lib os listen version args w = (r, w')"
  shows "case command_error args of
      Some m \<Rightarrow> r = Exited 2 [] (line (''error: '' @ c_str m) @ print_usage (program_name args)) \<and> w' = w
    | None \<Rightarrow>
        (case command_answer hw version args of
           Some (out, err) \<Rightarrow> r = Exited 0 out err \<and> w' = w
         | None \<Rightarrow>
             (\<exists>config path. command_settings os args = Some (config, path)
                \<and> (case r of
                     Exited c out err \<Rightarrow>
                       startup_failure hw mapi lib os listen config path w r
                       \<and> c = 1 \<and> out = [] \<and> last_is_error err
                       \<and> only_stale_removed w (c_str path) w'
                   | Aborted e err \<Rightarrow>
                       startup_failure hw mapi lib os listen config path w r
                       \<and> only_stale_removed w (c_str path) w'
                   | Serving socket_path eng svc err \<Rightarrow>
                       socket_path = path \<and> new_engine hw mapi config = Inr eng)))"
proof (cases rule: read_command_cases [where args = args and hw = hw and version = version and os = os, case_names wrong asked run])
  case (run config opts)
  with assms(2) have "serve hw mapi lib os listen config opts w = (r, w')" by (simp add: start_daemon_def)
  from run_starts [OF assms(1) this refl] run show ?thesis
    by (cases r) (auto dest: startup_failure_shape)
qed (use assms(2) in \<open>simp_all add: start_daemon_def\<close>)

lemma start_keeps_umask:
  assumes "probe_works os" "start_daemon hw mapi lib os listen version args w = (r, w')"
  shows "case r of Serving path eng svc err \<Rightarrow> True | _ \<Rightarrow> umask w' = umask w"
  using start_starts [OF assms]
  by (auto simp: only_stale_removed_def split: option.splits startup.splits)

lemma start_serves:
  assumes "probe_works os" "listen_laws listen" "model_laws mapi seq"
    and "start_daemon hw mapi lib os listen version args w = (Serving path eng svc err, w')"
  shows "umask w' = umask w \<and> free_path w (c_str path)
    \<and> files w' = (files w)(c_str path \<mapsto> Socket_entry True 384)
    \<and> (embeddings (eng_impl eng) \<longrightarrow> svc_chat_format svc = None)
    \<and> (svc_chat_format svc = None \<longrightarrow> says err ''disabled'')
    \<and> ready seq eng"
proof -
  obtain config opts where "serve hw mapi lib os listen config opts w = (Serving path eng svc err, w')"
    using assms(4) by (cases "read_command hw version args") (auto simp: start_daemon_def)
  then show ?thesis
  proof (cases rule: serve_cases)
    case (serving path' w1 out eng' svc' about_chat err' w2)
    have same: "path' = path" "eng' = eng" "svc' = svc" "err' = err" using serving(6) by simp_all
    have removed: "umask w1 = umask w" "free_path w (c_str path)" "files w1 = (files w)(c_str path := None)"
      using prepare_removes [OF assms(1) serving(2)] same(1) by (auto simp: only_stale_removed_def)
    have "files w2 = (files w1)(c_str path \<mapsto> Socket_entry True 384)"
      using assms(2) serving(5) same(1) unfolding listen_laws_def by fastforce
    then have "files w' = (files w)(c_str path \<mapsto> Socket_entry True 384)" "umask w' = umask w"
      using removed serving(8) by simp_all
    moreover have "ready seq eng" using loaded_engine [OF serving(3) assms(3)] same(2) by (simp add: ready_def)
    moreover have "svc_chat_format svc = None" if "embeddings (eng_impl eng)"
      using embedding_has_no_chat [OF serving(4)] same that by simp
    moreover have "says err ''disabled''" if "svc_chat_format svc = None"
      using chat_refusal_is_announced [OF serving(4)] serving(7) same that by simp
    ultimately show ?thesis using removed(2) by blast
  qed (simp add: startup_failure_not_serving)
qed

text \<open>
  Reading the chat template is outside every \<open>try\<close>: an exception of the engine there, a standard one
  too, ends the daemon without its exit code and without an error message.
\<close>

lemma template_failure_aborts:
  assumes "os_sigmask os" "opt_socket opts = Some path" "prepare_socket_path os w path = (True, w1, prepared)"
    and "new_engine hw mapi config = Inr eng" "\<not> mi_serves_embeddings (info mapi eng)"
    and "chat_template mapi eng = Inl (EngineError m)"
  shows "\<exists>err. serve hw mapi lib os listen config opts w = (Aborted (EngineError m) err, w1)"
  using assms by (simp add: serve_def make_chat_format_def Let_def)

text \<open>The end takes away what the start put there.\<close>

lemma stop_removes_own:
  assumes "files w' = (files w)(c_str path \<mapsto> Socket_entry b m)"
    and "os_lstat_error os (c_str path) = None" "os_unlink_error os (c_str path) = None"
  shows "files (fst (snd (stop_daemon os signal path w'))) = (files w)(c_str path := None)"
  using any_socket_is_removed [OF _ assms(2,3), of w' b m signal] assms(1) by simp

text \<open>
  C5. The daemon serves only when it is ready, and privately, and otherwise leaves with the exit code its
  documentation gives and says why. A wrong command line ends with code 2, the error and the usage on
  the standard error; a question with code 0 and exactly its answer; neither touches anything. A daemon
  that was to run and does not serve ends with code 1 and an error that names the cause as its last
  line, and at most a stale socket at its path is gone; only an engine that throws something that is no
  standard exception, and a chat template that cannot be read, end it by an uncaught exception. When
  it serves, its socket is at the path the command line says, has mode 0600 from the moment it
  exists, in a place that was free, and no other file changed; an embedding model has no chat, and a
  daemon without chat has said so; whatever it is asked, in any interleaving of its request threads
  the cache is in step with the memory after every step, and every call is answered. When it stops,
  the socket is gone and all other files are as they were. However it starts, the umask is as before.
\<close>

theorem daemon_serves_when_ready:
  assumes "probe_works os" and "listen_laws listen" and "model_laws mapi seq"
    and "start_daemon hw mapi lib os listen version args w = (r, w')"
  shows "umask w' = umask w
    \<and> (case command_error args of
         Some m \<Rightarrow> r = Exited 2 [] (line (''error: '' @ c_str m) @ print_usage (program_name args)) \<and> w' = w
       | None \<Rightarrow>
           (case command_answer hw version args of
              Some (out, err) \<Rightarrow> r = Exited 0 out err \<and> w' = w
            | None \<Rightarrow>
                (\<exists>config path. command_settings os args = Some (config, path)
                   \<and> (case r of
                        Exited c out err \<Rightarrow>
                          startup_failure hw mapi lib os listen config path w r
                          \<and> c = 1 \<and> out = [] \<and> (\<exists>lines m. err = lines @ line (''error: '' @ m))
                          \<and> only_stale_removed w (c_str path) w'
                      | Aborted e err \<Rightarrow>
                          startup_failure hw mapi lib os listen config path w r
                          \<and> only_stale_removed w (c_str path) w'
                      | Serving socket_path eng svc err \<Rightarrow>
                          socket_path = path \<and> new_engine hw mapi config = Inr eng))))
    \<and> (case r of
         Serving path eng svc err \<Rightarrow>
           free_path w (c_str path)
           \<and> files w' = (files w)(c_str path \<mapsto> Socket_entry True 384)
           \<and> (embeddings (eng_impl eng) \<longrightarrow> svc_chat_format svc = None)
           \<and> (svc_chat_format svc = None \<longrightarrow> says err ''disabled'')
           \<and> (\<forall>st. reachable (eng_api eng) lib svc (eng_impl eng) st \<longrightarrow>
                (\<not> embeddings (eng_impl eng) \<longrightarrow> cached st = seq (ctx st))
                \<and> answers (eng_api eng) lib svc st)
           \<and> (\<forall>qs S. threads (eng_api eng) lib svc qs (eng_impl eng) S \<and> \<not> embeddings (eng_impl eng)
                \<longrightarrow> cached (shared S) = seq (ctx (shared S)))
           \<and> (\<forall>qs. all_answered (eng_api eng) lib svc qs (eng_impl eng))
           \<and> (os_lstat_error os (c_str path) = None \<and> os_unlink_error os (c_str path) = None \<longrightarrow>
                (\<forall>signal. files (fst (snd (stop_daemon os signal path w'))) = (files w)(c_str path := None)))
       | _ \<Rightarrow> True)"
proof (intro conjI)
  note starts = start_starts [OF assms(1,4)]
  note serves = start_serves [OF assms(1-3)]
  show "umask w' = umask w"
  proof (cases r)
    case (Serving path eng svc err)
    with assms(4) serves show ?thesis by blast
  qed (use start_keeps_umask [OF assms(1,4)] in simp_all)
  from starts show "case command_error args of
         Some m \<Rightarrow> r = Exited 2 [] (line (''error: '' @ c_str m) @ print_usage (program_name args)) \<and> w' = w
       | None \<Rightarrow>
           (case command_answer hw version args of
              Some (out, err) \<Rightarrow> r = Exited 0 out err \<and> w' = w
            | None \<Rightarrow>
                (\<exists>config path. command_settings os args = Some (config, path)
                   \<and> (case r of
                        Exited c out err \<Rightarrow>
                          startup_failure hw mapi lib os listen config path w r
                          \<and> c = 1 \<and> out = [] \<and> (\<exists>lines m. err = lines @ line (''error: '' @ m))
                          \<and> only_stale_removed w (c_str path) w'
                      | Aborted e err \<Rightarrow>
                          startup_failure hw mapi lib os listen config path w r
                          \<and> only_stale_removed w (c_str path) w'
                      | Serving socket_path eng svc err \<Rightarrow>
                          socket_path = path \<and> new_engine hw mapi config = Inr eng)))"
    unfolding last_is_error_def .
  show "case r of Serving path eng svc err \<Rightarrow>
           free_path w (c_str path)
           \<and> files w' = (files w)(c_str path \<mapsto> Socket_entry True 384)
           \<and> (embeddings (eng_impl eng) \<longrightarrow> svc_chat_format svc = None)
           \<and> (svc_chat_format svc = None \<longrightarrow> says err ''disabled'')
           \<and> (\<forall>st. reachable (eng_api eng) lib svc (eng_impl eng) st \<longrightarrow>
                (\<not> embeddings (eng_impl eng) \<longrightarrow> cached st = seq (ctx st))
                \<and> answers (eng_api eng) lib svc st)
           \<and> (\<forall>qs S. threads (eng_api eng) lib svc qs (eng_impl eng) S \<and> \<not> embeddings (eng_impl eng)
                \<longrightarrow> cached (shared S) = seq (ctx (shared S)))
           \<and> (\<forall>qs. all_answered (eng_api eng) lib svc qs (eng_impl eng))
           \<and> (os_lstat_error os (c_str path) = None \<and> os_unlink_error os (c_str path) = None \<longrightarrow>
                (\<forall>signal. files (fst (snd (stop_daemon os signal path w'))) = (files w)(c_str path := None)))
       | _ \<Rightarrow> True"
  proof (cases r)
    case (Serving path eng svc err)
    note start = serves [OF assms(4) [unfolded Serving]]
    then have eng: "ready seq eng" by blast
    have "all_answered (eng_api eng) lib svc qs (eng_impl eng)" for qs
      using eng by (simp add: ready_def all_are_answered)
    moreover note ready_answers [OF eng] ready_threads [OF eng] stop_removes_own start
    ultimately show ?thesis unfolding Serving startup.case by blast
  qed simp_all
qed

definition sample_listen :: "bytes \<Rightarrow> world \<Rightarrow> world option" where
  "sample_listen p w =
     Some (w\<lparr>files := (files w)(c_str p \<mapsto> Socket_entry True (438 AND NOT (umask w)))\<rparr>)"

definition sample_start :: "((bytes, token list, sampler list, token list) engine, bytes) startup \<times> world" where
  "sample_start = start_daemon sample_hw sample_models sample_chat sample_os sample_listen ''1''
     [''llamad'', ''--model'', ''gen''] sample_world"

lemma sample_start_serves:
  "\<exists>svc err w'. sample_start = (Serving ''/run/llamad.sock'' sample_engine svc err, w')"
proof -
  have "spells ([''--model'', ''gen''] @ []) [Set_model ''gen'']"
    by (intro spells.intros) simp
  from command_line_spells [of "[''--model'', ''gen'']" "[Set_model ''gen'']" 0 "[''llamad'', ''--model'', ''gen'']"] this
  have parsed: "parse_command_line [''llamad'', ''--model'', ''gen''] = Inr (default_options\<lparr>opt_model := ''gen''\<rparr>, default_flags)"
    by (simp add: parse_command_line_def new_args_def)
  have "to_config default_flags = Inr default_config"
    by (simp add: to_config_def default_flags_def default_config_def Let_def)
  then have run: "read_command sample_hw ''1'' [''llamad'', ''--model'', ''gen'']
      = Run (default_config\<lparr>cfg_model_path := ''gen''\<rparr>) (default_options\<lparr>opt_model := ''gen''\<rparr>)"
    by (simp add: read_command_def parsed default_options_def default_flags_def)
  have path: "default_socket_path sample_os = ''/run/llamad.sock''" "c_str ''/run/llamad.sock'' = ''/run/llamad.sock''"
    by (simp_all add: default_socket_path_def sample_os_def c_str_def)
  have "fst (prepare_socket_path sample_os sample_world ''/run/llamad.sock'')"
    by (simp add: prepare_socket_path_def sample_os_def sample_world_def path socket_is_live_def Let_def)
  then obtain w1 out where prep: "prepare_socket_path sample_os sample_world ''/run/llamad.sock'' = (True, w1, out)"
    by (metis prod.collapse)
  have "\<not> embeddings (eng_impl sample_engine)" "token_text sample_engine (vocab_bos sample_models m) = Inr []"
    "token_text sample_engine (vocab_eos sample_models m) = Inr []" "model_chat_template sample_models m = None" for m
    using token_to_piece_piece [OF sample_vocab_laws, of 0 True]
    by (simp_all add: sample_engine_def sample_impl_def token_text_def sample_models_def sample_piece_def)
       (simp_all add: sample_api_def)
  then obtain svc about where svc: "make_chat_format sample_models sample_chat sample_engine = Inr (svc, about)"
    by (simp add: make_chat_format_def info_def chat_template_def Let_def)
  have "os_sigmask sample_os" by (simp add: sample_os_def)
  then show ?thesis
    by (simp add: sample_start_def start_daemon_def run serve_def path prep sample_load svc sample_listen_def
        default_options_def Let_def)
qed

lemma sample_listen_laws: "listen_laws sample_listen"
  by (auto simp: listen_laws_def sample_listen_def private_umask_def)

lemma sample_model_laws: "model_laws sample_models (\<lambda>c. c)"
  using sample_memory_laws by (simp add: model_laws_def fresh_laws_def sample_models_def)

theorem daemon_serves_when_ready_witness:
  "\<exists>svc err w'. sample_start = (Serving ''/run/llamad.sock'' sample_engine svc err, w')
    \<and> umask w' = 18 \<and> files w' ''/run/llamad.sock'' = Some (Socket_entry True 384)
    \<and> files w' ''/run/other.sock'' = Some (Socket_entry True 384)"
proof -
  obtain svc err w' where run: "sample_start = (Serving ''/run/llamad.sock'' sample_engine svc err, w')"
    using sample_start_serves by blast
  have "umask w' = umask sample_world
      \<and> files w' = (files sample_world)(c_str ''/run/llamad.sock'' \<mapsto> Socket_entry True 384)"
    using daemon_serves_when_ready [OF sample_probe sample_listen_laws sample_model_laws
      run [unfolded sample_start_def]] by simp
  with run show ?thesis
    by - (rule exI [of _ svc], rule exI [of _ err], rule exI [of _ w'], simp add: sample_world_def c_str_def)
qed

end
