(* ===== verification/Lifecycle.thy ===== *)
theory Lifecycle
  imports Daemon
begin

text \<open>
  The life of the daemon after its start, the last part of \<open>main\<close> in src/main.cpp: request threads run
  until the thread that waits for SIGINT and SIGTERM has seen one and calls \<open>Shutdown\<close>, and when \<open>Wait\<close>
  has returned the main thread removes the socket and returns. gRPC is not part of the sources: what
  it lets run after \<open>Shutdown\<close>, when \<open>Wait\<close> returns and what becomes of the socket are parameters, and
  what the daemon relies on is stated as \<open>grpc_laws\<close>, from gRPC's documentation. That a running call is
  cancelled when the deadline of the shutdown has passed is part of what its client may answer, which
  is any function. The theory shows that, under these laws, the handlers never keep the daemon from
  ending after a signal, and that it leaves nothing behind.
\<close>

section \<open>What gRPC does\<close>

text \<open>
  After \<open>Shutdown\<close>: whether the thread of a call may go on, whether \<open>Wait\<close> can return, given where the
  request threads are, and the files once the server has closed its socket.
\<close>

record 'p grpc =
  grpc_admits :: "'p \<Rightarrow> nat \<Rightarrow> bool"
  grpc_wait_returns :: "'p \<Rightarrow> bool"
  grpc_closes :: "bytes \<Rightarrow> world \<Rightarrow> world"

text \<open>Every call that was begun has been answered.\<close>

definition none_pending :: "('q, 'l, 'a, 'r, 's) pool \<Rightarrow> bool" where
  "none_pending S \<longleftrightarrow> (\<forall>i<length (calls S). phase_of S i = Arrived \<or> (\<exists>r. phase_of S i = Answered r))"

text \<open>
  What is relied on: \<open>Shutdown\<close> lets the calls that were begun go on (whether others still begin is
  left open), \<open>Wait\<close> blocks until all of them are done and then returns, and closing the server touches no
  file but its own socket, which it may unlink.
\<close>

definition grpc_laws :: "('q, 'l, 'a, 'r, 's) pool grpc \<Rightarrow> bool" where
  "grpc_laws g \<longleftrightarrow>
     (\<forall>S i. i < length (calls S) \<longrightarrow> phase_of S i \<noteq> Arrived \<longrightarrow> grpc_admits g S i)
     \<and> (\<forall>S. grpc_wait_returns g S \<longleftrightarrow> none_pending S)
     \<and> (\<forall>p w. umask (grpc_closes g p w) = umask w
          \<and> (files (grpc_closes g p w) = files w \<or> files (grpc_closes g p w) = (files w)(c_str p := None)))"

section \<open>The life of the server\<close>

datatype stage = Listening | Closing | Ended int

record 'p life =
  lf_stage :: stage
  lf_pool :: 'p
  lf_world :: world

text \<open>A request thread takes a step, a signal arrives, or the main thread goes on from \<open>Wait\<close>.\<close>

datatype event = Thread nat | Signal | Wait_returns

definition life_turn ::
  "('c, 'h, 'g) llama_api \<Rightarrow> ('x, 't, 'f, 'q, 'r) chat_lib \<Rightarrow> 't service \<Rightarrow> os
     \<Rightarrow> ('c, 'h, 'g, 'x, 'f, 'q, 'r) engine_pool grpc \<Rightarrow> bytes \<Rightarrow> bytes \<Rightarrow> event
     \<Rightarrow> ('c, 'h, 'g, 'x, 'f, 'q, 'r) engine_pool life \<Rightarrow> ('c, 'h, 'g, 'x, 'f, 'q, 'r) engine_pool life option" where
  "life_turn api lib svc os g signal socket_path e L =
     (case e of
        Thread i \<Rightarrow>
          if (case lf_stage L of
                Listening \<Rightarrow> True | Closing \<Rightarrow> grpc_admits g (lf_pool L) i | Ended _ \<Rightarrow> False)
          then map_option (\<lambda>S. L\<lparr>lf_pool := S\<rparr>) (thread_turn api lib svc i (lf_pool L))
          else None
      | Signal \<Rightarrow>
          if lf_stage L = Listening
          then Some (L\<lparr>lf_stage := Closing, lf_world := grpc_closes g socket_path (lf_world L)\<rparr>) else None
      | Wait_returns \<Rightarrow>
          if lf_stage L = Closing \<and> grpc_wait_returns g (lf_pool L)
          then (case stop_daemon os signal socket_path (lf_world L) of
                  (exit_code, w, _) \<Rightarrow> Some (L\<lparr>lf_stage := Ended exit_code, lf_world := w\<rparr>))
          else None)"

inductive lives ::
  "('c, 'h, 'g) llama_api \<Rightarrow> ('x, 't, 'f, 'q, 'r) chat_lib \<Rightarrow> 't service \<Rightarrow> os
     \<Rightarrow> ('c, 'h, 'g, 'x, 'f, 'q, 'r) engine_pool grpc \<Rightarrow> bytes \<Rightarrow> bytes
     \<Rightarrow> ('c, 'h, 'g, 'x, 'f, 'q, 'r) engine_pool life \<Rightarrow> ('c, 'h, 'g, 'x, 'f, 'q, 'r) engine_pool life \<Rightarrow> bool"
  for api lib svc os g signal socket_path L0 where
  begins: "lives api lib svc os g signal socket_path L0 L0"
| goes_on: "lives api lib svc os g signal socket_path L0 L
    \<Longrightarrow> life_turn api lib svc os g signal socket_path e L = Some L' \<Longrightarrow> lives api lib svc os g signal socket_path L0 L'"

text \<open>A daemon that has just begun to listen, and the calls that will be made to it.\<close>

definition new_life :: "'r request list \<Rightarrow> 'c impl \<Rightarrow> world \<Rightarrow> ('c, 'h, 'g, 'x, 'f, 'q, 'r) engine_pool life" where
  "new_life qs st w = \<lparr>lf_stage = Listening, lf_pool = new_pool qs st, lf_world = w\<rparr>"

lemma life_turn_cases [consumes 1, case_names thread signal stop]:
  assumes "life_turn api lib svc os g signal path e L = Some L'"
  obtains i S where "e = Thread i" "\<forall>c. lf_stage L \<noteq> Ended c"
      "thread_turn api lib svc i (lf_pool L) = Some S" "L' = L\<lparr>lf_pool := S\<rparr>"
  | "e = Signal" "lf_stage L = Listening"
      "L' = L\<lparr>lf_stage := Closing, lf_world := grpc_closes g path (lf_world L)\<rparr>"
  | "e = Wait_returns" "lf_stage L = Closing" "grpc_wait_returns g (lf_pool L)"
      "L' = L\<lparr>lf_stage := Ended 0, lf_world := fst (snd (stop_daemon os signal path (lf_world L)))\<rparr>"
  using assms
  by (auto simp: life_turn_def stop_daemon_def split: event.splits stage.splits if_splits)

section \<open>What holds at every moment\<close>

text \<open>
  The threads are scheduled as ever; the files are touched by the shutdown and at the end only, and at
  the end no call is pending.
\<close>

definition well_run ::
  "('c, 'h, 'g) llama_api \<Rightarrow> ('x, 't, 'f, 'q, 'r) chat_lib \<Rightarrow> 't service \<Rightarrow> os
     \<Rightarrow> ('c, 'h, 'g, 'x, 'f, 'q, 'r) engine_pool grpc \<Rightarrow> bytes \<Rightarrow> bytes
     \<Rightarrow> 'r request list \<Rightarrow> 'c impl \<Rightarrow> world \<Rightarrow> ('c, 'h, 'g, 'x, 'f, 'q, 'r) engine_pool life \<Rightarrow> bool" where
  "well_run api lib svc os g signal path qs st w L \<longleftrightarrow>
     threads api lib svc qs st (lf_pool L)
     \<and> (case lf_stage L of
          Listening \<Rightarrow> lf_world L = w
        | Closing \<Rightarrow> lf_world L = grpc_closes g path w
        | Ended c \<Rightarrow> c = 0 \<and> grpc_wait_returns g (lf_pool L)
            \<and> lf_world L = fst (snd (stop_daemon os signal path (grpc_closes g path w))))"

lemma thread_turn_threads:
  "threads api lib svc qs st S \<Longrightarrow> thread_turn api lib svc i S = Some S' \<Longrightarrow> threads api lib svc qs st S'"
  unfolding thread_defs by (blast intro: schedule.step moves.intros)

lemma life_well_run:
  assumes "lives api lib svc os g signal path (new_life qs st w) L"
  shows "well_run api lib svc os g signal path qs st w L"
  using assms
proof (induction rule: lives.induct)
  case begins
  then show ?case by (simp add: well_run_def new_life_def thread_defs schedule.start)
next
  case (goes_on L e L')
  from goes_on.hyps(2) show ?case
  proof (cases rule: life_turn_cases)
    case (thread i S)
    with goes_on.IH show ?thesis
      by (auto simp: well_run_def thread_turn_threads split: stage.splits)
  qed (use goes_on.IH in \<open>simp_all add: well_run_def\<close>)
qed

text \<open>Every event takes the daemon nearer to its end.\<close>

fun stage_left :: "stage \<Rightarrow> nat" where
  "stage_left Listening = 2"
| "stage_left Closing = 1"
| "stage_left (Ended _) = 0"

lemma life_descends:
  assumes "0 < n_batch st"
  shows "\<exists>r. wf r \<and> (\<forall>L e L'. lives api lib svc os g signal path (new_life qs st w) L
    \<longrightarrow> life_turn api lib svc os g signal path e L = Some L' \<longrightarrow> (L', L) \<in> r)"
proof -
  obtain r where r: "wf r" "\<And>S S'. threads api lib svc qs st S \<Longrightarrow> thread_moves api lib svc S S' \<Longrightarrow> (S', S) \<in> r"
    using engine.schedules_descend [OF assms] unfolding thread_defs by blast
  let ?r = "inv_image (less_than <*lex*> r) (\<lambda>L. (stage_left (lf_stage L), lf_pool L))"
  have "wf ?r" using r(1) by (intro wf_inv_image wf_lex_prod wf_less_than)
  moreover have "(L', L) \<in> ?r" if L: "lives api lib svc os g signal path (new_life qs st w) L"
      and turn: "life_turn api lib svc os g signal path e L = Some L'" for L e L'
    using turn
  proof (cases rule: life_turn_cases)
    case (thread i S)
    then have "thread_moves api lib svc (lf_pool L) S" by (auto simp: thread_defs intro: moves.intros)
    then show ?thesis using r(2) life_well_run [OF L] thread by (simp add: well_run_def)
  qed simp_all
  ultimately show ?thesis by blast
qed

text \<open>
  While the server closes, the calls that were begun can always go on until they are answered: none of
  them waits for one that was not let in.
\<close>

lemma closing_ends:
  assumes "grpc_laws g" "threads api lib svc qs st (lf_pool L)"
    and "\<And>e. life_turn api lib svc os g signal path e L = None"
  shows "\<exists>c. lf_stage L = Ended c"
proof (cases "lf_stage L")
  case Listening
  with assms(3) [of Signal] show ?thesis by (simp add: life_turn_def)
next
  case Closing
  have "thread_turn api lib svc i (lf_pool L) = None" if "phase_of (lf_pool L) i \<noteq> Arrived" for i
  proof (cases "i < length (calls (lf_pool L))")
    case True
    then have "grpc_admits g (lf_pool L) i" using assms(1) that unfolding grpc_laws_def by blast
    with assms(3) [of "Thread i"] Closing show ?thesis by (simp add: life_turn_def)
  qed (simp add: thread_turn_def turn_def)
  then have "none_pending (lf_pool L)"
    using engine.begun_are_answered assms(2) unfolding thread_defs none_pending_def by blast
  then have "grpc_wait_returns g (lf_pool L)" using assms(1) by (simp add: grpc_laws_def)
  with assms(3) [of Wait_returns] Closing show ?thesis by (simp add: life_turn_def stop_daemon_def)
qed auto

lemma stuck_iff_ended:
  assumes "grpc_laws g" "threads api lib svc qs st (lf_pool L)"
  shows "(\<forall>e. life_turn api lib svc os g signal path e L = None) \<longleftrightarrow> (\<exists>c. lf_stage L = Ended c)"
proof
  assume "\<forall>e. life_turn api lib svc os g signal path e L = None"
  then show "\<exists>c. lf_stage L = Ended c" using closing_ends [OF assms] by blast
next
  assume "\<exists>c. lf_stage L = Ended c"
  then show "\<forall>e. life_turn api lib svc os g signal path e L = None"
    by (auto simp: life_turn_def split: event.split)
qed

lemma lives_trans:
  assumes "lives api lib svc os g signal path L1 L2" "lives api lib svc os g signal path L0 L1"
  shows "lives api lib svc os g signal path L0 L2"
  using assms by (induction rule: lives.induct) (blast intro: lives.goes_on)+

lemma no_endless_life:
  assumes "0 < n_batch st"
  shows "\<not> (\<exists>f. f 0 = new_life qs st w
    \<and> (\<forall>n. \<exists>e. life_turn api lib svc os g signal path e (f n) = Some (f (Suc n))))"
proof
  assume "\<exists>f. f 0 = new_life qs st w \<and> (\<forall>n. \<exists>e. life_turn api lib svc os g signal path e (f n) = Some (f (Suc n)))"
  then obtain f where f: "f 0 = new_life qs st w"
    "\<forall>n. \<exists>e. life_turn api lib svc os g signal path e (f n) = Some (f (Suc n))" by (elim exE conjE)
  from f(2) obtain e where e: "life_turn api lib svc os g signal path (e n) (f n) = Some (f (Suc n))" for n
    by metis
  have "lives api lib svc os g signal path (new_life qs st w) (f n)" for n
    by (induction n) (simp add: f(1) lives.begins, rule lives.goes_on [OF _ e])
  moreover obtain r where r: "wf r" "\<forall>L e L'. lives api lib svc os g signal path (new_life qs st w) L
    \<longrightarrow> life_turn api lib svc os g signal path e L = Some L' \<longrightarrow> (L', L) \<in> r"
    using life_descends [OF assms, of api lib svc os g signal path qs w] by (elim exE conjE)
  ultimately have "(f (Suc n), f n) \<in> r" for n using e by blast
  with r(1) show False unfolding wf_iff_no_infinite_down_chain by blast
qed

lemma life_can_end:
  assumes "grpc_laws g" "0 < n_batch st" "lives api lib svc os g signal path (new_life qs st w) L"
  shows "\<exists>L'. lives api lib svc os g signal path L L' \<and> lf_stage L' = Ended 0"
proof -
  obtain r where r: "wf r" "\<forall>L e L'. lives api lib svc os g signal path (new_life qs st w) L
    \<longrightarrow> life_turn api lib svc os g signal path e L = Some L' \<longrightarrow> (L', L) \<in> r"
    using life_descends [OF assms(2), of api lib svc os g signal path qs w] by (elim exE conjE)
  from assms(3) show ?thesis
  proof (induction L rule: wf_induct_rule [OF r(1)])
    case (1 L)
    have run: "well_run api lib svc os g signal path qs st w L" by (rule life_well_run [OF "1.prems"])
    show ?case
    proof (cases "\<exists>e L1. life_turn api lib svc os g signal path e L = Some L1")
      case True
      then obtain e L1 where turn: "life_turn api lib svc os g signal path e L = Some L1" by blast
      have "(L1, L) \<in> r" using r(2) "1.prems" turn by blast
      then obtain L' where "lives api lib svc os g signal path L1 L'" "lf_stage L' = Ended 0"
        using "1.IH" lives.goes_on [OF "1.prems" turn] by blast
      with lives_trans [OF _ lives.goes_on [OF lives.begins turn]] show ?thesis by blast
    next
      case False
      then have "life_turn api lib svc os g signal path e L = None" for e by simp
      moreover have "threads api lib svc qs st (lf_pool L)" using run by (simp add: well_run_def)
      ultimately obtain c where "lf_stage L = Ended c"
        using closing_ends [OF assms(1)] by blast
      with run have "lf_stage L = Ended 0" by (simp add: well_run_def)
      then show ?thesis by (blast intro: lives.begins)
    qed
  qed
qed

lemma pool_is_free:
  assumes "threads api lib svc qs st S" "none_pending S"
  shows "holder S = None"
proof (rule ccontr)
  assume "holder S \<noteq> None"
  then obtain i where "holder S = Some i" by blast
  moreover have "engine.exclusive S"
    using engine.exclusive_schedule [OF assms(1) [unfolded threads_def] engine.exclusive_new] .
  ultimately have "i < length (calls S)" "in_section (phase_of S i)" unfolding engine.exclusive_def by blast+
  then show False using assms(2) by (auto simp: none_pending_def)
qed

text \<open>What is left of the files when the shutdown and the end are over.\<close>

lemma life_files:
  assumes "grpc_laws g" "well_run api lib svc os g signal path qs st w' L"
    and start: "files w' = (files w)(c_str path \<mapsto> s)" "s = Socket_entry True 384"
  shows "case lf_stage L of
      Listening \<Rightarrow> files (lf_world L) = (files w)(c_str path \<mapsto> s)
    | Closing \<Rightarrow> files (lf_world L) = (files w)(c_str path \<mapsto> s) \<or> files (lf_world L) = (files w)(c_str path := None)
    | Ended c \<Rightarrow> (\<forall>p. p \<noteq> c_str path \<longrightarrow> files (lf_world L) p = files w p)
        \<and> (os_lstat_error os (c_str path) = None \<and> os_unlink_error os (c_str path) = None
             \<longrightarrow> files (lf_world L) = (files w)(c_str path := None))"
proof -
  let ?w = "grpc_closes g path w'"
  have closed: "files ?w = (files w)(c_str path \<mapsto> s) \<or> files ?w = (files w)(c_str path := None)"
    using assms(1) start(1) unfolding grpc_laws_def by (metis fun_upd_upd)
  have "files (fst (snd (stop_daemon os signal path ?w))) p = files w p" if "p \<noteq> c_str path" for p
    using closed that by (auto simp: stop_daemon_def split: option.splits entry.splits)
  moreover have "files (fst (snd (stop_daemon os signal path ?w))) = (files w)(c_str path := None)"
    if "os_lstat_error os (c_str path) = None" "os_unlink_error os (c_str path) = None"
    using closed that start(2) by (auto simp: stop_daemon_def split: option.splits entry.splits)
  ultimately show ?thesis
    using assms(2) start(1) closed by (cases "lf_stage L") (simp_all add: well_run_def)
qed

section \<open>A signal ends the daemon\<close>

text \<open>
  C6. Under gRPC's laws (it lets begun calls go on, its \<open>Wait\<close> returns when they are answered, it touches no
  file but its socket) nothing in the daemon keeps it from ending: no course of requests, signal and
  shutdown goes on forever, it stands still exactly when it has ended, and from every state it can come
  to that, whatever the request threads are doing, with the lock or waiting for it. It ends with exit
  code 0 and with nobody holding the engine's mutex. While it listens its socket is in place; no other
  file is ever touched; and at the end, if the path can be examined and unlinked, the socket is gone.
\<close>

theorem a_signal_ends_the_daemon:
  assumes "probe_works os" and "listen_laws listen" and "model_laws mapi seq" and "grpc_laws g"
    and "start_daemon hw mapi lib os listen version args w = (Serving path eng svc err, w')"
    and "lives (eng_api eng) lib svc os g signal path (new_life qs (eng_impl eng) w') L"
  shows "\<not> (\<exists>f. f 0 = new_life qs (eng_impl eng) w'
      \<and> (\<forall>n. \<exists>e. life_turn (eng_api eng) lib svc os g signal path e (f n) = Some (f (Suc n))))
    \<and> ((\<forall>e. life_turn (eng_api eng) lib svc os g signal path e L = None) \<longleftrightarrow> (\<exists>c. lf_stage L = Ended c))
    \<and> (\<exists>L'. lives (eng_api eng) lib svc os g signal path L L' \<and> lf_stage L' = Ended 0)
    \<and> (case lf_stage L of
         Listening \<Rightarrow> files (lf_world L) = (files w)(c_str path \<mapsto> Socket_entry True 384)
       | Closing \<Rightarrow> files (lf_world L) = (files w)(c_str path \<mapsto> Socket_entry True 384)
           \<or> files (lf_world L) = (files w)(c_str path := None)
       | Ended c \<Rightarrow> c = 0 \<and> holder (lf_pool L) = None
           \<and> (\<forall>p. p \<noteq> c_str path \<longrightarrow> files (lf_world L) p = files w p)
           \<and> (os_lstat_error os (c_str path) = None \<and> os_unlink_error os (c_str path) = None
                \<longrightarrow> files (lf_world L) = (files w)(c_str path := None)))"
proof -
  have start: "files w' = (files w)(c_str path \<mapsto> Socket_entry True 384)" "ready seq eng"
    using start_serves [OF assms(1-3,5)] by blast+
  then have batch: "0 < n_batch (eng_impl eng)" by (simp add: ready_def)
  have run: "well_run (eng_api eng) lib svc os g signal path qs (eng_impl eng) w' L"
    by (rule life_well_run [OF assms(6)])
  then have threads: "threads (eng_api eng) lib svc qs (eng_impl eng) (lf_pool L)" by (simp add: well_run_def)
  have ended: "c = 0 \<and> holder (lf_pool L) = None" if "lf_stage L = Ended c" for c
    using run that pool_is_free [OF threads] assms(4) by (simp add: well_run_def grpc_laws_def)
  have "case lf_stage L of
         Listening \<Rightarrow> files (lf_world L) = (files w)(c_str path \<mapsto> Socket_entry True 384)
       | Closing \<Rightarrow> files (lf_world L) = (files w)(c_str path \<mapsto> Socket_entry True 384)
           \<or> files (lf_world L) = (files w)(c_str path := None)
       | Ended c \<Rightarrow> c = 0 \<and> holder (lf_pool L) = None
           \<and> (\<forall>p. p \<noteq> c_str path \<longrightarrow> files (lf_world L) p = files w p)
           \<and> (os_lstat_error os (c_str path) = None \<and> os_unlink_error os (c_str path) = None
                \<longrightarrow> files (lf_world L) = (files w)(c_str path := None))"
    using life_files [OF assms(4) run start(1) refl] ended by (cases "lf_stage L") simp_all
  then show ?thesis
    using no_endless_life [OF batch, of qs w' "eng_api eng" lib svc os g signal path]
      life_can_end [OF assms(4) batch assms(6)]
      stuck_iff_ended [OF assms(4) threads, of os signal path] by blast
qed

text \<open>The small daemon, stopped at once, on a gRPC that begins no call and unlinks nothing.\<close>

definition sample_grpc :: "('q, 'l, 'a, 'r, 's) pool grpc" where
  "sample_grpc =
     \<lparr>grpc_admits = (\<lambda>S i. i < length (calls S) \<and> phase_of S i \<noteq> Arrived), grpc_wait_returns = none_pending,
      grpc_closes = (\<lambda>p w. w)\<rparr>"

lemma sample_grpc_laws: "grpc_laws sample_grpc"
  by (simp add: grpc_laws_def sample_grpc_def)

theorem a_signal_ends_the_daemon_witness:
  "\<exists>svc err w' L. sample_start = (Serving ''/run/llamad.sock'' sample_engine svc err, w')
    \<and> lives (eng_api sample_engine) sample_chat svc sample_os sample_grpc ''Terminated'' ''/run/llamad.sock''
        (new_life [] (eng_impl sample_engine) w') L
    \<and> lf_stage L = Ended 0 \<and> files (lf_world L) ''/run/llamad.sock'' = None
    \<and> files (lf_world L) ''/run/other.sock'' = Some (Socket_entry True 384)"
proof -
  obtain svc err w' where run: "sample_start = (Serving ''/run/llamad.sock'' sample_engine svc err, w')"
    using sample_start_serves by blast
  let ?turn = "life_turn (eng_api sample_engine) sample_chat svc sample_os sample_grpc ''Terminated'' ''/run/llamad.sock''"
  let ?L = "new_life [] (eng_impl sample_engine) w'"
  have "?turn Signal ?L = Some (?L\<lparr>lf_stage := Closing\<rparr>)" by (simp add: life_turn_def new_life_def sample_grpc_def)
  moreover obtain L where "?turn Wait_returns (?L\<lparr>lf_stage := Closing\<rparr>) = Some L" and ended: "lf_stage L = Ended 0"
    by (simp add: life_turn_def new_life_def new_pool_def stop_daemon_def sample_grpc_def none_pending_def)
  ultimately have life: "lives (eng_api sample_engine) sample_chat svc sample_os sample_grpc ''Terminated''
      ''/run/llamad.sock'' ?L L"
    by (blast intro: lives.intros)
  have "os_lstat_error sample_os (c_str ''/run/llamad.sock'') = None"
    "os_unlink_error sample_os (c_str ''/run/llamad.sock'') = None"
    by (simp_all add: sample_os_def)
  with a_signal_ends_the_daemon [OF sample_probe sample_listen_laws sample_model_laws sample_grpc_laws
      run [unfolded sample_start_def] life]
  have "files (lf_world L) = (files sample_world)(c_str ''/run/llamad.sock'' := None)"
    by (simp add: ended)
  then have "files (lf_world L) ''/run/llamad.sock'' = None"
    "files (lf_world L) ''/run/other.sock'' = Some (Socket_entry True 384)"
    by (simp_all add: sample_world_def c_str_def)
  with run life ended show ?thesis by (intro exI conjI)
qed

end
