(* ===== verification/Spec2Isabelle.thy ===== *)
theory Spec2Isabelle
  imports Stream_Filter Kv_Cache Tokenizer Sampler Generate Wire Chat_Format Embed Unit_Length Service
    Concurrency Resources Engine_Flags Messages Daemon Lifecycle
begin

text \<open>
  A verification library for llamad, a daemon that holds one llama.cpp model and serves it over gRPC
  on a private Unix socket. The definitions follow the C++ of src/src/ function by function; the
  theorems say what makes each part correct.

  The program. \<open>main\<close> (main.cpp) reads the command line (flags.h, engine_flags.h), clears the way for
  its socket, loads the model into an \<open>Engine\<close> (engine.cpp), prepares a \<open>ChatFormat\<close>
  (chat_format.cpp) if the model generates, and serves requests through \<open>LlamaService\<close> (service.cpp),
  which converts messages (wire.cpp), renders chats, and streams what the engine produces. The engine
  keeps one context and a record of the tokens its KV cache holds; every generation trims the cache
  to the part it can reuse, decodes the rest of the prompt, and samples token by token, each piece
  going through a filter that holds back stop strings and unfinished UTF-8.

  Theories and code.
  Prelude: bytes, exceptions as values, decimal numbers, searching a string. Floats: float and double
  over the rationals, rounded to nearest even. Engine_Types: the plain data of engine.h and
  chat_format.h.
  Llama_Api, Chat_Lib: the functions of llama.cpp and nlohmann::json that the sources call, as records
  of operations over opaque states. Sample_Api, Sample_Chat: small instances, for the witnesses.
  Utf8: \<open>incomplete_utf8_tail\<close>. Stream_Filter: \<open>StreamFilter\<close> and \<open>stop_prefix_holdback\<close>.
  Tokenizer: \<open>Impl::tokenize\<close>, \<open>token_to_piece\<close>, \<open>resolve\<close>, \<open>regex_escape\<close>. Kv_Cache: \<open>reusable_prefix\<close>,
  \<open>clear_cache\<close>, \<open>keep_prefix\<close>, \<open>decode\<close> and the prompt loop. Sampler: \<open>SamplerChain\<close>. Generate:
  \<open>Engine::generate\<close>. Devices: the log filter, the choice of devices, the tensor split,
  \<open>list_devices\<close>. Engine_Load: the constructor, \<open>info\<close>, \<open>chat_template\<close>. Embed: \<open>Engine::embed\<close> and
  \<open>l2_normalized\<close>; Unit_Length: its rounding errors. Resources: \<open>init_llama_once\<close>, the destructors and
  \<open>free_samplers\<close>.
  Wire: wire.cpp. Chat_Format: chat_format.cpp. Service: the five handlers and \<open>stream_generation\<close>.
  Mutex: threads that share a state under a lock. Concurrency: the request threads and \<open>context_mutex\<close>.
  Flags: flags.h. Engine_Flags: engine_flags.h and \<open>parse_command_line\<close>. Messages: \<open>print_usage\<close>,
  the help text and the log lines of requests. Daemon: the rest of main.cpp up to the moment it serves, and
  the end, with all that is printed. Lifecycle: the time between, until a signal has ended it.

  How state is modelled. \<open>Engine::Impl\<close> is the record \<open>impl\<close>, a request in flight \<open>gen\<close>, the filter
  \<open>stream_filter\<close>, a chat parse in progress \<open>chat_stream\<close>, a handler's locals \<open>rpc\<close>, the arguments
  \<open>args\<close>, and the files with the umask \<open>world\<close>. An operation takes its state and returns it updated.
  What may throw returns \<open>exn + 'a\<close> (\<open>flag_error + 'a\<close> for the command line), every \<open>throw\<close> of the
  sources a branch. One handler is a function of the engine's state; \<open>served\<close> is one request and
  \<open>reachable\<close> any number of them. That the threads of the daemon come to no more than that is proved:
  \<open>turn\<close> is one step of one thread, \<open>schedule\<close> any interleaving, and \<open>locked_step\<close> what a thread does between
  two moments at which another may run. \<open>owner\<close> and \<open>samplers\<close> hold the raw pointers and a log of events. \<open>life\<close> is the daemon
  that serves: request threads, the stage of its shutdown, and the files; \<open>life_turn\<close> is one event.

  Interfaces. \<open>token_cache\<close> (Kv_Cache) is what the prompt phase needs of a cache, interpreted by the
  engine's operations (\<open>kv\<close>, and \<open>recorded\<close> for the record alone). \<open>receiver\<close> (Stream_Filter) is a callback with a relation that every call
  extends; \<open>chunk_sink\<close>, a callback that records, is one by \<open>sublocale\<close> (\<open>collected\<close>), and the
  handler's callback is another (\<open>rpc\<close>), so that what \<open>generate\<close> does to any receiver is proved once.
  \<open>mutex_handler\<close> (Mutex) is a call cut at the lock, into what is prepared before it, the steps under it and
  what follows, interpreted by the handlers (\<open>engine\<close>).
  \<open>visible_stream\<close> (Chat_Format) is a parser that shows text in pieces, interpreted by the chat stream
  (\<open>chat\<close>).

  What is shown.
  Streaming: what a client receives is exactly what a batch search for the first stop string gives, cut
  into chunks that are UTF-8 each, and no stop string ever reaches it.
  Cache: the reused part is the longest shared prefix, and the record agrees with llama.cpp's memory
  after every outcome of every request, for memories that let their beginning go too.
  Sampling: candidates are the highest logits, sampling first and checking the grammar afterwards
  equals running the grammar first, an eager grammar accepts the tokens of every reply, those that were
  streamed and decoded.
  Generation: it returns, within its budget, with the reason that fits; a refused request changes
  nothing.
  Chat: a schema reaches the template, triggers are kept, the text shown is the content, tool calls
  come whole, all of the final parse or none.
  Service: the shape of a stream, the exact status of every outcome, refusals.
  Threads: any interleaving is serial, one call is in the engine at a time and only it changes the
  engine, every call is answered.
  Loading and embedding: a model goes to the devices asked for, an engine starts ready, an input is
  embedded alone, and its vector has unit length up to a proved error.
  Ownership: every object of llama.cpp is freed once, on every path.
  Command line and daemon: arguments mean a list of settings, lists and numbers are read back, only a
  stale socket is removed, a daemon that serves is ready and private and answers every call, one that
  does not leaves with the exit code of its cause and names it, nothing in the daemon keeps a signal from
  ending it, and the usage text is true.

  Termination. Loops are recursions with a measure; the three whose end depends on a parameter (the
  prompt loop, \<open>gen_loop\<close>, and so \<open>generate\<close>) return an option, and it is proved that they return
  whenever the batch is not empty, which the constructor establishes. No schedule of the threads is
  endless, nor any life of the daemon. No fuel is used.

  Assumptions about code outside the sources are named predicates: \<open>vocab_laws\<close> (sizes that the
  tokenizer reports, for texts whose size is an \<open>int32_t\<close>), \<open>memory_laws\<close> and \<open>fresh_laws\<close> (what the
  memory holds after clearing, decoding and trimming; of a trimmed memory that no longer starts at
  position 0 nothing is assumed; \<open>model_laws\<close> asks them of every model), \<open>pool_laws\<close> (a pooled vector
  depends on the tokens decoded), \<open>probe_works\<close> and \<open>listen_laws\<close> (connecting to a socket, and creating
  one under the umask that \<open>main\<close> sets), \<open>grpc_laws\<close> (begun calls go on after \<open>Shutdown\<close>, \<open>Wait\<close> returns
  when they are answered, no file but the socket is touched). Each is shown to hold of a concrete
  instance.

  Bounds. Where a property speaks of the vocabulary's tokens, the texts leave room in an \<open>int32_t\<close> for
  their size and the first buffer (8 more), and contexts have at most \<open>2 ^ 31\<close> tokens, as the casts of the
  sources need; the token count of an embedding is exact while it is an \<open>int32_t\<close>; the length of a vector is bounded by 65536 components. The
  clocks are parameters. The lock is not assumed to be fair: who waits may be overtaken by calls that
  come later, but a finite number of calls is always answered.

  Not modelled: building the gRPC server with its health and reflection services (calls into gRPC
  without state of the program), what gRPC does on its own threads (a parameter), the code generated
  from the protocol definition, and the log threshold of the chat library. Two zeros of a float are
  one value, which no comparison of the program tells apart.
\<close>

end
